(* ===== verification/Prelude.thy ===== *)
theory Prelude
  imports Main "HOL-Library.Word" "HOL-Library.Signed_Division"
begin

text \<open>
  Shared vocabulary of the BrownieOS development: the C integer types of the
  i686 target as words, the generic facts on words, lists and bounded loops
  that the component theories use, and the collections that carry them.

  A C loop \<^verbatim>\<open>for (i = a; i < b; i++) body\<close> whose counter cannot wrap is written
  \<open>fold body [a..<b]\<close>; the lemmas on \<open>fold\<close> below are the loop rules of the
  development.
\<close>

unbundle bit_operations_syntax

section \<open>Types and collections\<close>

type_synonym u8 = "8 word"
type_synonym u16 = "16 word"
type_synonym u32 = "32 word"
type_synonym u64 = "64 word"

named_theorems word_nat \<open>moving u32 arithmetic to nat\<close>
named_theorems loop_rules \<open>facts on bounded loops\<close>

section \<open>Words and natural numbers\<close>

lemma unat_of_nat_u32 [word_nat]: "n < 2 ^ 32 \<Longrightarrow> unat (of_nat n :: u32) = n"
  by (simp add: unat_of_nat)

lemma of_nat_unat_u32 [simp]: "of_nat (unat (w :: u32)) = w"
  by simp

lemma unat_u32_less: "unat (w :: u32) < 4294967296"
  using unsigned_less [of w] by simp

lemma unat_u32_le: "unat (w :: u32) \<le> 4294967295"
  using unat_u32_less [of w] by linarith

lemma unat_u8_less: "unat (w :: u8) < 256"
  using unsigned_less [of w] by simp

lemma unat_add_u32 [word_nat]:
  "unat (a :: u32) + unat b < 2 ^ 32 \<Longrightarrow> unat (a + b) = unat a + unat b"
  by (simp add: unat_word_ariths)

lemma unat_sub_u32 [word_nat]:
  "unat (b :: u32) \<le> unat a \<Longrightarrow> unat (a - b) = unat a - unat b"
  by (metis unat_sub word_le_nat_alt)

lemma unat_mult_u32 [word_nat]:
  "unat (a :: u32) * unat b < 2 ^ 32 \<Longrightarrow> unat (a * b) = unat a * unat b"
  by (simp add: unat_word_ariths)

lemma unat_uminus_u32:
  assumes "(w :: u32) \<noteq> 0"
  shows "unat (- w) = 2 ^ 32 - unat w"
proof -
  have "(if unat (- w) + unat w < 2 ^ 32 then unat (- w) + unat w
         else unat (- w) + unat w - 2 ^ 32) = 0"
    using unat_plus_if' [of "- w" w] by (simp split: if_splits)
  moreover have "unat w \<noteq> 0" using assms by (simp add: unat_0_iff)
  ultimately show ?thesis
    using unat_u32_less [of w] unat_u32_less [of "- w"] by (auto split: if_splits)
qed

lemma of_nat_eq_u32:
  "m < 2 ^ 32 \<Longrightarrow> n < 2 ^ 32 \<Longrightarrow> ((of_nat m :: u32) = of_nat n) = (m = n)"
  by (metis unat_of_nat_u32)

lemma of_nat_less_u32:
  "m < 2 ^ 32 \<Longrightarrow> n < 2 ^ 32 \<Longrightarrow> ((of_nat m :: u32) < of_nat n) = (m < n)"
  by (simp add: word_less_nat_alt unat_of_nat_u32)

text \<open>Rounding up.\<close>

lemma ceil_div:
  fixes n d :: nat
  assumes "0 < d" "n mod d \<noteq> 0"
  shows "(n + (d - 1)) div d = Suc (n div d)"
proof -
  have "n + (d - 1) = (n mod d - 1) + Suc (n div d) * d"
    using assms mod_div_mult_eq [of n d] by simp
  moreover have "n mod d - 1 < d" using mod_less_divisor [OF assms(1), of n] by linarith
  ultimately show ?thesis by (simp only: div_mult_self1) simp
qed

section \<open>Bounded loops\<close>

text \<open>A loop invariant indexed by the counter.\<close>

lemma fold_upt_inv [loop_rules]:
  assumes "a \<le> b" and "I a s"
    and "\<And>i s. a \<le> i \<Longrightarrow> i < b \<Longrightarrow> I i s \<Longrightarrow> I (Suc i) (f i s)"
  shows "I b (fold f [a..<b] s)"
  using assms
proof (induction b)
  case 0
  then show ?case by simp
next
  case (Suc b)
  show ?case
  proof (cases "a \<le> b")
    case True
    then have "I b (fold f [a..<b] s)" using Suc by (auto intro: less_SucI)
    with True Suc.prems(3) show ?thesis by simp
  next
    case False
    with Suc.prems(1) have "a = Suc b" by simp
    with Suc.prems(2) show ?thesis by simp
  qed
qed

text \<open>A loop that leaves an observation unchanged in every iteration.\<close>

lemma fold_frame [loop_rules]:
  assumes "\<And>x s. x \<in> set xs \<Longrightarrow> g (f x s) = g s"
  shows "g (fold f xs s) = g s"
  using assms by (induction xs arbitrary: s) auto

text \<open>A loop that stores one cell per iteration.\<close>

lemma fold_fun_upd:
  "fold (\<lambda>i m. m(k i := v i)) xs m =
     (\<lambda>a. case map_of (rev (map (\<lambda>i. (k i, v i)) xs)) a of None \<Rightarrow> m a | Some x \<Rightarrow> x)"
proof (induction xs arbitrary: m)
  case Nil
  then show ?case by simp
next
  case (Cons x xs)
  then show ?case
    by (auto simp: fun_eq_iff map_add_def split: option.splits)
qed

lemma fold_fun_upd_notin:
  "a \<notin> k ` set xs \<Longrightarrow> fold (\<lambda>i m. m(k i := v i)) xs m a = m a"
  by (induction xs arbitrary: m) auto

lemma fold_fun_upd_in:
  assumes "inj_on k (set xs)" and "i \<in> set xs" and "distinct xs"
  shows "fold (\<lambda>i m. m(k i := v i)) xs m (k i) = v i"
  using assms
proof (induction xs arbitrary: m)
  case Nil
  then show ?case by simp
next
  case (Cons x xs)
  show ?case
  proof (cases "i = x")
    case True
    have "k x \<notin> k ` set xs"
      using Cons.prems by (auto simp: inj_on_def)
    then have "fold (\<lambda>i m. m(k i := v i)) xs (m(k x := v x)) (k x) = (m(k x := v x)) (k x)"
      by (rule fold_fun_upd_notin)
    then show ?thesis using True by (simp only: fold_Cons comp_apply fun_upd_same)
  next
    case False
    then show ?thesis using Cons by (auto simp: inj_on_def)
  qed
qed

end
