(* ===== verification/Tty.thy ===== *)
theory Tty
  imports Prelude
begin

text \<open>
  The VGA text terminal of \<^verbatim>\<open>src/kernel/kernel/drivers/tty.c\<close>: cursor, colour and the
  character cells of the 80 by 25 text buffer. The cells are a map from the
  \<^verbatim>\<open>size_t\<close> index the code computes to the 16-bit entry stored there, so that a
  write outside the screen would be visible. Every other component prints
  through this state, hence it is the root of the extensible machine state.
\<close>

section \<open>State and operations\<close>

record tty =
  terminal_row :: u32
  terminal_column :: u32
  terminal_color :: u8
  terminal_buffer :: "u32 \<Rightarrow> u16"

datatype vga_color =
    VGA_COLOR_BLACK | VGA_COLOR_BLUE | VGA_COLOR_GREEN | VGA_COLOR_CYAN
  | VGA_COLOR_RED | VGA_COLOR_MAGENTA | VGA_COLOR_BROWN | VGA_COLOR_LIGHT_GREY
  | VGA_COLOR_DARK_GREY | VGA_COLOR_LIGHT_BLUE | VGA_COLOR_LIGHT_GREEN
  | VGA_COLOR_LIGHT_CYAN | VGA_COLOR_LIGHT_RED | VGA_COLOR_LIGHT_MAGENTA
  | VGA_COLOR_LIGHT_BROWN | VGA_COLOR_WHITE

primrec vga_color_val :: "vga_color \<Rightarrow> u32" where
  "vga_color_val VGA_COLOR_BLACK = 0"
| "vga_color_val VGA_COLOR_BLUE = 1"
| "vga_color_val VGA_COLOR_GREEN = 2"
| "vga_color_val VGA_COLOR_CYAN = 3"
| "vga_color_val VGA_COLOR_RED = 4"
| "vga_color_val VGA_COLOR_MAGENTA = 5"
| "vga_color_val VGA_COLOR_BROWN = 6"
| "vga_color_val VGA_COLOR_LIGHT_GREY = 7"
| "vga_color_val VGA_COLOR_DARK_GREY = 8"
| "vga_color_val VGA_COLOR_LIGHT_BLUE = 9"
| "vga_color_val VGA_COLOR_LIGHT_GREEN = 10"
| "vga_color_val VGA_COLOR_LIGHT_CYAN = 11"
| "vga_color_val VGA_COLOR_LIGHT_RED = 12"
| "vga_color_val VGA_COLOR_LIGHT_MAGENTA = 13"
| "vga_color_val VGA_COLOR_LIGHT_BROWN = 14"
| "vga_color_val VGA_COLOR_WHITE = 15"

definition vga_entry_color :: "vga_color \<Rightarrow> vga_color \<Rightarrow> u8" where
  "vga_entry_color fg bg = ucast (vga_color_val fg OR push_bit 4 (vga_color_val bg))"

definition vga_entry :: "u8 \<Rightarrow> u8 \<Rightarrow> u16" where
  "vga_entry uc color = ucast uc OR push_bit 8 (ucast color)"

definition VGA_WIDTH :: u32 where "VGA_WIDTH = 80"

definition VGA_HEIGHT :: u32 where "VGA_HEIGHT = 25"

definition terminal_initialize :: "'a tty_scheme \<Rightarrow> 'a tty_scheme" where
  "terminal_initialize t =
     (let color = vga_entry_color VGA_COLOR_LIGHT_GREEN VGA_COLOR_BLACK
      in t\<lparr>terminal_row := 0, terminal_column := 0, terminal_color := color,
           terminal_buffer :=
             fold (\<lambda>y. fold (\<lambda>x b. b(of_nat y * VGA_WIDTH + of_nat x := vga_entry 32 color))
                        [0..<unat VGA_WIDTH])
                  [0..<unat VGA_HEIGHT] (terminal_buffer t)\<rparr>)"

definition terminal_setcolor :: "u8 \<Rightarrow> 'a tty_scheme \<Rightarrow> 'a tty_scheme" where
  "terminal_setcolor color t = t\<lparr>terminal_color := color\<rparr>"

definition terminal_putentryat ::
    "u8 \<Rightarrow> u8 \<Rightarrow> u32 \<Rightarrow> u32 \<Rightarrow> 'a tty_scheme \<Rightarrow> 'a tty_scheme" where
  "terminal_putentryat c color x y t =
     t\<lparr>terminal_buffer := (terminal_buffer t)(y * VGA_WIDTH + x := vga_entry c color)\<rparr>"

definition terminal_delete_last_line :: "'a tty_scheme \<Rightarrow> 'a tty_scheme" where
  "terminal_delete_last_line t =
     t\<lparr>terminal_buffer :=
         fold (\<lambda>x b. b(of_nat x + (VGA_HEIGHT - 1) * VGA_WIDTH := vga_entry 32 (terminal_color t)))
              [0..<unat VGA_WIDTH] (terminal_buffer t)\<rparr>"

definition terminal_scroll :: "'a tty_scheme \<Rightarrow> 'a tty_scheme" where
  "terminal_scroll t =
     terminal_delete_last_line
       (t\<lparr>terminal_buffer :=
            fold (\<lambda>y. fold (\<lambda>x b. let index = of_nat y * VGA_WIDTH + of_nat x
                                    in b(index - VGA_WIDTH := b index))
                       [0..<unat VGA_WIDTH])
                 [1..<unat VGA_HEIGHT] (terminal_buffer t)\<rparr>)"

definition terminal_next_row :: "'a tty_scheme \<Rightarrow> 'a tty_scheme" where
  "terminal_next_row t =
     (let t = t\<lparr>terminal_row := terminal_row t + 1\<rparr>
      in if terminal_row t = VGA_HEIGHT
         then (terminal_scroll t)\<lparr>terminal_row := VGA_HEIGHT - 1\<rparr>
         else t)"

definition terminal_putchar :: "char \<Rightarrow> 'a tty_scheme \<Rightarrow> 'a tty_scheme" where
  "terminal_putchar c t =
     (if c = CHR 0x0A
      then (terminal_next_row t)\<lparr>terminal_column := 0\<rparr>
      else let t = terminal_putentryat (of_char c) (terminal_color t)
                     (terminal_column t) (terminal_row t) t;
               t = t\<lparr>terminal_column := terminal_column t + 1\<rparr>
           in if terminal_column t = VGA_WIDTH
              then terminal_next_row (t\<lparr>terminal_column := 0\<rparr>)
              else t)"

definition terminal_write :: "string \<Rightarrow> 'a tty_scheme \<Rightarrow> 'a tty_scheme" where
  "terminal_write data t = fold terminal_putchar data t"

definition terminal_writestring :: "string \<Rightarrow> 'a tty_scheme \<Rightarrow> 'a tty_scheme" where
  "terminal_writestring data t = terminal_write (takeWhile (\<lambda>c. c \<noteq> CHR 0x00) data) t"

section \<open>Abstract screen\<close>

text \<open>
  The contract of the terminal: a cursor and 25 rows of 80 entries. A full
  row moves the cursor to the next one; past the last row the rows move up by one
  and a blank row in the current colour appears at the bottom.
\<close>

type_synonym screen = "nat \<times> nat \<times> u16 list list"

definition blank_row :: "u8 \<Rightarrow> u16 list" where
  "blank_row color = replicate 80 (vga_entry 32 color)"

fun spec_next_row :: "u8 \<Rightarrow> screen \<Rightarrow> screen" where
  "spec_next_row color (r, c, rows) =
     (if r = 24 then (24, c, tl rows @ [blank_row color]) else (Suc r, c, rows))"

fun spec_putchar :: "u8 \<Rightarrow> char \<Rightarrow> screen \<Rightarrow> screen" where
  "spec_putchar color ch (r, c, rows) =
     (if ch = CHR 0x0A then spec_next_row color (r, 0, rows)
      else let rows' = rows[r := (rows ! r)[c := vga_entry (of_char ch) color]]
           in if c = 79 then spec_next_row color (r, 0, rows') else (r, Suc c, rows'))"

definition screen_rows :: "'a tty_scheme \<Rightarrow> u16 list list" where
  "screen_rows t = map (\<lambda>y. map (\<lambda>x. terminal_buffer t (of_nat (y * 80 + x))) [0..<80]) [0..<25]"

definition screen_of :: "'a tty_scheme \<Rightarrow> screen" where
  "screen_of t = (unat (terminal_row t), unat (terminal_column t), screen_rows t)"

definition tty_inv :: "'a tty_scheme \<Rightarrow> bool" where
  "tty_inv t \<longleftrightarrow> terminal_row t < VGA_HEIGHT \<and> terminal_column t < VGA_WIDTH"

section \<open>Lemmas\<close>

lemmas vga_dims = VGA_WIDTH_def VGA_HEIGHT_def

lemma unat_vga_dims: "unat VGA_WIDTH = 80" "unat VGA_HEIGHT = 25"
  by (simp_all add: vga_dims)

lemma tty_inv_nat:
  "tty_inv t \<longleftrightarrow> unat (terminal_row t) < 25 \<and> unat (terminal_column t) < 80"
  by (simp add: tty_inv_def vga_dims word_less_nat_alt)

lemma cell_index: "of_nat y * VGA_WIDTH + of_nat x = (of_nat (y * 80 + x) :: u32)"
  by (simp add: VGA_WIDTH_def)

lemma cell_index_up:
  assumes "0 < y"
  shows "(of_nat (y * 80 + x) :: u32) - VGA_WIDTH = of_nat ((y - 1) * 80 + x)"
proof -
  obtain z where "y = Suc z" using assms by (cases y) auto
  then show ?thesis by (simp add: VGA_WIDTH_def)
qed

text \<open>One line of the scroll loop copies a row onto the row above.\<close>

lemma scroll_line:
  fixes b :: "u32 \<Rightarrow> u16"
  assumes y: "0 < y" "y < 25" and i: "i < 2 ^ 32"
  shows "fold (\<lambda>x b. let index = of_nat y * VGA_WIDTH + of_nat x
                      in b(index - VGA_WIDTH := b index)) [0..<80] b (of_nat i) =
         (if (y - 1) * 80 \<le> i \<and> i < y * 80 then b (of_nat (i + 80)) else b (of_nat i))"
proof -
  define I where "I x b' \<longleftrightarrow> (\<forall>i<2 ^ 32. b' (of_nat i) =
      (if (y - 1) * 80 \<le> i \<and> i < (y - 1) * 80 + x then b (of_nat (i + 80)) else b (of_nat i)))"
    for x and b' :: "u32 \<Rightarrow> u16"
  have "I 80 (fold (\<lambda>x b. let index = of_nat y * VGA_WIDTH + of_nat x
                      in b(index - VGA_WIDTH := b index)) [0..<80] b)"
  proof (rule fold_upt_inv [where I = I])
    show "I 0 b" by (auto simp: I_def)
  next
    fix x b' assume x: "x < 80" and I: "I x b'"
    have here: "b' (of_nat (y * 80 + x)) = b (of_nat (y * 80 + x))"
      using I x y by (auto simp: I_def simp del: of_nat_add of_nat_mult)
    have up: "(y - 1) * 80 + x + 80 = y * 80 + x"
      using y by (cases y) auto
    show "I (Suc x) (let index = of_nat y * VGA_WIDTH + of_nat x
                      in b'(index - VGA_WIDTH := b' index))"
      unfolding I_def
    proof (intro allI impI)
      fix j :: nat assume j: "j < 2 ^ 32"
      have eq: "(of_nat j = (of_nat ((y - 1) * 80 + x) :: u32)) = (j = (y - 1) * 80 + x)"
        by (rule of_nat_eq_u32) (use j x y in auto)
      show "(let index = of_nat y * VGA_WIDTH + of_nat x
              in b'(index - VGA_WIDTH := b' index)) (of_nat j) =
            (if (y - 1) * 80 \<le> j \<and> j < (y - 1) * 80 + Suc x then b (of_nat (j + 80))
             else b (of_nat j))"
        using I j here
        unfolding Let_def cell_index cell_index_up [OF y(1)] fun_upd_apply eq I_def
        by (auto simp flip: up)
    qed
  qed simp_all
  then show ?thesis using i y by (cases y) (auto simp: I_def)
qed

lemma scroll_lines:
  fixes b :: "u32 \<Rightarrow> u16"
  assumes i: "i < 2 ^ 32"
  shows "fold (\<lambda>y. fold (\<lambda>x b. let index = of_nat y * VGA_WIDTH + of_nat x
                                  in b(index - VGA_WIDTH := b index)) [0..<80]) [1..<25] b (of_nat i) =
         (if i < 1920 then b (of_nat (i + 80)) else b (of_nat i))"
proof -
  define I where "I y b' \<longleftrightarrow> (\<forall>i<2 ^ 32. b' (of_nat i) =
      (if i < (y - 1) * 80 then b (of_nat (i + 80)) else b (of_nat i)))"
    for y and b' :: "u32 \<Rightarrow> u16"
  have "I 25 (fold (\<lambda>y. fold (\<lambda>x b. let index = of_nat y * VGA_WIDTH + of_nat x
                                  in b(index - VGA_WIDTH := b index)) [0..<80]) [1..<25] b)"
  proof (rule fold_upt_inv [where I = I])
    show "I 1 b" by (simp add: I_def)
  next
    fix y b' assume y: "1 \<le> y" "y < 25" and I: "I y b'"
    show "I (Suc y) (fold (\<lambda>x b. let index = of_nat y * VGA_WIDTH + of_nat x
                                  in b(index - VGA_WIDTH := b index)) [0..<80] b')"
      unfolding I_def
    proof (intro allI impI)
      fix j :: nat assume j: "j < 2 ^ 32"
      have "(y - 1) * 80 + 80 = y * 80" using y by (cases y) auto
      moreover have "b' (of_nat j) = (if j < (y - 1) * 80 then b (of_nat (j + 80)) else b (of_nat j))"
        using I j by (simp add: I_def)
      moreover have "j < y * 80 \<Longrightarrow> \<not> j < (y - 1) * 80 \<Longrightarrow> b' (of_nat (j + 80)) = b (of_nat (j + 80))"
        using I y by (auto simp: I_def simp del: of_nat_add)
      ultimately show "fold (\<lambda>x b. let index = of_nat y * VGA_WIDTH + of_nat x
                                  in b(index - VGA_WIDTH := b index)) [0..<80] b' (of_nat j) =
                       (if j < (Suc y - 1) * 80 then b (of_nat (j + 80)) else b (of_nat j))"
        using y j by (subst scroll_line) auto
    qed
  qed simp_all
  then show ?thesis using i by (simp add: I_def)
qed

lemma fill_line:
  assumes i: "i < 2 ^ 32" and y: "y < 25"
  shows "fold (\<lambda>x b. b(of_nat (y * 80 + x) := v)) [0..<80] b (of_nat i :: u32) =
         (if y * 80 \<le> i \<and> i < y * 80 + 80 then v else b (of_nat i))"
proof (cases "y * 80 \<le> i \<and> i < y * 80 + 80")
  case True
  have inj: "inj_on (\<lambda>x. of_nat (y * 80 + x) :: u32) (set [0..<80])"
    by (rule inj_onI) (use y in \<open>auto simp: of_nat_eq_u32 simp del: of_nat_add of_nat_mult\<close>)
  have "fold (\<lambda>x b. b(of_nat (y * 80 + x) := v)) [0..<80] b (of_nat (y * 80 + (i - y * 80)) :: u32) = v"
    by (rule fold_fun_upd_in [OF inj]) (use True in auto)
  with True show ?thesis by simp
next
  case False
  then have "(of_nat i :: u32) \<notin> (\<lambda>x. of_nat (y * 80 + x)) ` set [0..<80]"
    using i y by (auto simp: of_nat_eq_u32 simp del: of_nat_add of_nat_mult)
  then have "fold (\<lambda>x b. b(of_nat (y * 80 + x) := v)) [0..<80] b (of_nat i :: u32) = b (of_nat i)"
    by (rule fold_fun_upd_notin)
  with False show ?thesis by argo
qed

text \<open>What the two buffer sweeps do to every cell of the address space.\<close>

lemma terminal_scroll_cell:
  assumes "i < 2 ^ 32"
  shows "terminal_buffer (terminal_scroll t) (of_nat i) =
     (if i < 1920 then terminal_buffer t (of_nat (i + 80))
      else if i < 2000 then vga_entry 32 (terminal_color t)
      else terminal_buffer t (of_nat i))"
proof -
  have last: "of_nat x + (VGA_HEIGHT - 1) * VGA_WIDTH = (of_nat (24 * 80 + x) :: u32)" for x
    by (simp add: vga_dims)
  let ?b = "fold (\<lambda>y. fold (\<lambda>x b. let index = of_nat y * VGA_WIDTH + of_nat x
                              in b(index - VGA_WIDTH := b index)) [0..<80]) [1..<25] (terminal_buffer t)"
  have "terminal_buffer (terminal_scroll t) =
      fold (\<lambda>x b. b(of_nat (24 * 80 + x) := vga_entry 32 (terminal_color t))) [0..<80] ?b"
    unfolding terminal_scroll_def terminal_delete_last_line_def last unat_vga_dims by simp
  then have "terminal_buffer (terminal_scroll t) (of_nat i) =
      (if 24 * 80 \<le> i \<and> i < 24 * 80 + 80 then vga_entry 32 (terminal_color t) else ?b (of_nat i))"
    using fill_line [OF assms, of 24 "vga_entry 32 (terminal_color t)" ?b] by simp
  then show ?thesis using scroll_lines [OF assms, of "terminal_buffer t"] by auto
qed

lemma terminal_scroll_fields [simp]:
  "terminal_row (terminal_scroll t) = terminal_row t"
  "terminal_column (terminal_scroll t) = terminal_column t"
  "terminal_color (terminal_scroll t) = terminal_color t"
  "tty.more (terminal_scroll t) = tty.more t"
  by (simp_all add: terminal_scroll_def terminal_delete_last_line_def)

lemma length_screen_rows [simp]: "length (screen_rows t) = 25"
  by (simp add: screen_rows_def)

lemma screen_rows_nth:
  "y < 25 \<Longrightarrow> screen_rows t ! y = map (\<lambda>x. terminal_buffer t (of_nat (y * 80 + x))) [0..<80]"
  by (simp add: screen_rows_def)

lemma screen_rows_scroll:
  "screen_rows (terminal_scroll t) = tl (screen_rows t) @ [blank_row (terminal_color t)]"
proof (rule nth_equalityI)
  fix y assume "y < length (screen_rows (terminal_scroll t))"
  then have y: "y < 25" by simp
  show "screen_rows (terminal_scroll t) ! y =
        (tl (screen_rows t) @ [blank_row (terminal_color t)]) ! y"
  proof (cases "y = 24")
    case True
    then show ?thesis
      by (auto simp: screen_rows_nth nth_append terminal_scroll_cell blank_row_def
          intro!: nth_equalityI simp del: of_nat_add of_nat_mult)
  next
    case False
    with y have "Suc y < 25" by simp
    then show ?thesis
      by (simp add: screen_rows_nth nth_append nth_tl terminal_scroll_cell algebra_simps
          del: of_nat_add of_nat_mult)
  qed
qed simp

lemma cell_unique:
  "k < 80 \<Longrightarrow> x < 80 \<Longrightarrow> (r * 80 + k = y * 80 + x) = (r = y \<and> k = (x :: nat))"
  by (auto dest: arg_cong [where f = "\<lambda>n. n div 80"] arg_cong [where f = "\<lambda>n. n mod 80"])

lemma screen_rows_putentryat:
  assumes "unat x < 80" "unat y < 25"
  shows "screen_rows (terminal_putentryat c color x y t) =
    (screen_rows t)[unat y := (screen_rows t ! unat y)[unat x := vga_entry c color]]"
proof (rule nth_equalityI)
  fix r assume "r < length (screen_rows (terminal_putentryat c color x y t))"
  then have r: "r < 25" by simp
  have ix: "y * VGA_WIDTH + x = of_nat (unat y * 80 + unat x)"
    by (simp add: VGA_WIDTH_def)
  have eq: "((of_nat (r * 80 + k) :: u32) = of_nat (unat y * 80 + unat x)) =
      (r = unat y \<and> k = unat x)" if "r < 25" "k < 80" for r k
  proof -
    have "((of_nat (r * 80 + k) :: u32) = of_nat (unat y * 80 + unat x)) =
        (r * 80 + k = unat y * 80 + unat x)"
      by (rule of_nat_eq_u32) (use that assms in auto)
    then show ?thesis using that assms(1) by (simp only: cell_unique)
  qed
  show "screen_rows (terminal_putentryat c color x y t) ! r =
     (screen_rows t)[unat y := (screen_rows t ! unat y)[unat x := vga_entry c color]] ! r"
    using r assms
    by (auto simp: screen_rows_nth terminal_putentryat_def ix eq nth_list_update
        intro!: nth_equalityI simp del: of_nat_add of_nat_mult)
qed simp

lemma screen_rows_cursor [simp]:
  "screen_rows (t\<lparr>terminal_column := x\<rparr>) = screen_rows t"
  "screen_rows (t\<lparr>terminal_row := x\<rparr>) = screen_rows t"
  by (simp_all add: screen_rows_def)

text \<open>The contract of a character device that printing code may rely on.\<close>

locale console =
  fixes putc :: "char \<Rightarrow> 's \<Rightarrow> 's"
    and valid :: "'s \<Rightarrow> bool"
    and rest :: "'s \<Rightarrow> 'r"
  assumes putc_valid: "valid s \<Longrightarrow> valid (putc c s)"
    and putc_rest: "rest (putc c s) = rest s"
begin

lemma write_valid: "valid s \<Longrightarrow> valid (fold putc cs s)"
  by (induction cs arbitrary: s) (auto intro: putc_valid)

lemma write_rest: "rest (fold putc cs s) = rest s"
  by (induction cs arbitrary: s) (auto simp: putc_rest)

end

text \<open>A device that also implements an abstract device, character by character.\<close>

locale refined_console = console +
  fixes abs :: "'s \<Rightarrow> 'a" and spec :: "'r \<Rightarrow> char \<Rightarrow> 'a \<Rightarrow> 'a"
  assumes putc_abs: "valid s \<Longrightarrow> abs (putc c s) = spec (rest s) c (abs s)"
begin

lemma write_abs: "valid s \<Longrightarrow> abs (fold putc cs s) = fold (spec (rest s)) cs (abs s)"
proof (induction cs arbitrary: s)
  case Nil
  then show ?case by simp
next
  case (Cons c cs)
  then show ?case using putc_valid [of s c] by (simp add: putc_abs putc_rest)
qed

end

lemma terminal_next_row_props:
  assumes "unat (terminal_row t) < 25"
  shows "unat (terminal_row (terminal_next_row t)) < 25"
    and "terminal_column (terminal_next_row t) = terminal_column t"
    and "terminal_color (terminal_next_row t) = terminal_color t"
    and "tty.more (terminal_next_row t) = tty.more t"
    and "screen_of (terminal_next_row t) = spec_next_row (terminal_color t) (screen_of t)"
proof -
  have row: "unat (terminal_row t + 1) = Suc (unat (terminal_row t))"
    using assms by (simp add: unat_word_ariths)
  have full: "(terminal_row t + 1 = VGA_HEIGHT) = (unat (terminal_row t) = 24)"
    unfolding word_unat_eq_iff [of _ VGA_HEIGHT] row unat_vga_dims by simp
  show "unat (terminal_row (terminal_next_row t)) < 25"
    "terminal_column (terminal_next_row t) = terminal_column t"
    "terminal_color (terminal_next_row t) = terminal_color t"
    "tty.more (terminal_next_row t) = tty.more t"
    using assms row full
    by (auto simp: terminal_next_row_def Let_def VGA_HEIGHT_def)
  show "screen_of (terminal_next_row t) = spec_next_row (terminal_color t) (screen_of t)"
    using row full
    by (auto simp: terminal_next_row_def screen_of_def Let_def screen_rows_scroll
        VGA_HEIGHT_def)
qed

lemma terminal_putentryat_fields [simp]:
  "terminal_row (terminal_putentryat c color x y t) = terminal_row t"
  "terminal_column (terminal_putentryat c color x y t) = terminal_column t"
  "terminal_color (terminal_putentryat c color x y t) = terminal_color t"
  "tty.more (terminal_putentryat c color x y t) = tty.more t"
  by (simp_all add: terminal_putentryat_def)

lemma terminal_putchar_rest:
  "tty.more (terminal_putchar c t) = tty.more t"
  "terminal_color (terminal_putchar c t) = terminal_color t"
  by (simp_all add: terminal_putchar_def terminal_next_row_def Let_def)

lemma terminal_putchar_step:
  assumes "tty_inv t"
  shows "tty_inv (terminal_putchar c t) \<and>
         screen_of (terminal_putchar c t) = spec_putchar (terminal_color t) c (screen_of t)"
proof -
  have pos: "unat (terminal_row t) < 25" "unat (terminal_column t) < 80"
    using assms by (simp_all add: tty_inv_nat)
  have col: "unat (terminal_column t + 1) = Suc (unat (terminal_column t))"
    using pos by (simp add: unat_word_ariths)
  have full: "(terminal_column t + 1 = VGA_WIDTH) = (unat (terminal_column t) = 79)"
    unfolding word_unat_eq_iff [of _ VGA_WIDTH] col unat_vga_dims by simp
  define p where "p = terminal_putentryat (of_char c) (terminal_color t)
                     (terminal_column t) (terminal_row t) t"
  have p: "screen_of p = (unat (terminal_row t), unat (terminal_column t), (screen_rows t)
      [unat (terminal_row t) := (screen_rows t ! unat (terminal_row t))
         [unat (terminal_column t) := vga_entry (of_char c) (terminal_color t)]])"
    using pos by (simp add: p_def screen_of_def screen_rows_putentryat)
  note nr = terminal_next_row_props
  show ?thesis
  proof (cases "c = CHR 0x0A")
    case True
    then show ?thesis
      using pos nr [of t] nr(1)
      by (auto simp: terminal_putchar_def tty_inv_nat screen_of_def split: if_splits)
  next
    case False
    let ?q = "p\<lparr>terminal_column := 0\<rparr>"
    have "unat (terminal_row ?q) < 25" using pos by (simp add: p_def)
    note q = nr [OF this]
    have color: "terminal_color ?q = terminal_color t" by (simp add: p_def)
    show ?thesis
    proof (cases "unat (terminal_column t) = 79")
      case full79: True
      have "terminal_putchar c t = terminal_next_row ?q"
        using False full full79 by (simp add: terminal_putchar_def Let_def p_def)
      then show ?thesis
        using q(1,2) q(5) False full79 p color
        by (simp add: tty_inv_nat Let_def screen_of_def)
    next
      case more: False
      have "terminal_putchar c t = p\<lparr>terminal_column := terminal_column t + 1\<rparr>"
        using False full more by (simp add: terminal_putchar_def Let_def p_def)
      then show ?thesis
        using False more p col pos
        by (simp add: tty_inv_nat Let_def screen_of_def p_def)
    qed
  qed
qed

interpretation vga: refined_console terminal_putchar tty_inv terminal_color screen_of spec_putchar
  by unfold_locales (use terminal_putchar_step terminal_putchar_rest in blast)+

interpretation vga_more: console terminal_putchar tty_inv tty.more
  by unfold_locales (use terminal_putchar_step terminal_putchar_rest in blast)+

lemma terminal_write_more [simp]: "tty.more (terminal_write s t) = tty.more t"
  unfolding terminal_write_def by (rule vga_more.write_rest)

lemma terminal_write_inv: "tty_inv t \<Longrightarrow> tty_inv (terminal_write s t)"
  unfolding terminal_write_def by (rule vga.write_valid)

lemma terminal_write_append: "terminal_write (s @ s') t = terminal_write s' (terminal_write s t)"
  by (simp add: terminal_write_def)

lemma terminal_write_Nil [simp]: "terminal_write [] t = t"
  by (simp add: terminal_write_def)

section \<open>Properties\<close>

lemma terminal_putentryat_cell:
  assumes "unat x < 80" "unat y < 25" "2000 \<le> unat a"
  shows "terminal_buffer (terminal_putentryat c color x y t) a = terminal_buffer t a"
proof -
  have "unat (y * VGA_WIDTH + x) = unat y * 80 + unat x"
    using assms by (simp add: unat_word_ariths VGA_WIDTH_def)
  then have "a \<noteq> y * VGA_WIDTH + x" using assms by auto
  then show ?thesis by (simp add: terminal_putentryat_def)
qed

lemma terminal_next_row_cell:
  assumes "2000 \<le> unat a"
  shows "terminal_buffer (terminal_next_row t) a = terminal_buffer t a"
  using assms terminal_scroll_cell [of "unat a" "t\<lparr>terminal_row := VGA_HEIGHT\<rparr>"] unat_u32_less [of a]
  by (simp add: terminal_next_row_def Let_def)

lemma terminal_putchar_cell:
  assumes "tty_inv t" "2000 \<le> unat a"
  shows "terminal_buffer (terminal_putchar c t) a = terminal_buffer t a"
  using assms
  by (simp add: terminal_putchar_def Let_def terminal_next_row_cell terminal_putentryat_cell tty_inv_nat)

lemma terminal_write_cell:
  assumes "tty_inv t" "2000 \<le> unat a"
  shows "terminal_buffer (terminal_write s t) a = terminal_buffer t a"
  using assms(1)
proof (induction s arbitrary: t)
  case (Cons c s)
  have "terminal_write (c # s) t = terminal_write s (terminal_putchar c t)"
    by (simp add: terminal_write_def)
  then show ?case
    using Cons terminal_putchar_step [of t c] terminal_putchar_cell [OF _ assms(2)] by simp
qed simp

lemma initialize_rows:
  assumes "i < 2 ^ 32" "n \<le> 25"
  shows "fold (\<lambda>y. fold (\<lambda>x b. b(of_nat y * VGA_WIDTH + of_nat x := v)) [0..<80]) [0..<n] b (of_nat i) =
    (if i < n * 80 then v else b (of_nat i))"
  using assms(2)
proof (induction n)
  case (Suc n)
  then have n: "n < 25" by simp
  show ?case
    using Suc unfolding upt_Suc_append [OF le0] fold_append comp_apply fold_Cons fold_Nil id_apply cell_index
      fill_line [OF assms(1) n] by (auto simp del: fun_upd_apply)
qed simp

lemma initialize_cell:
  "i < 2000 \<Longrightarrow> terminal_buffer (terminal_initialize t) (of_nat i) =
     vga_entry 32 (vga_entry_color VGA_COLOR_LIGHT_GREEN VGA_COLOR_BLACK)"
  using initialize_rows [of i 25]
  by (simp add: terminal_initialize_def Let_def unat_vga_dims)

definition sample_tty :: tty where
  "sample_tty = \<lparr>terminal_row = 24, terminal_column = 79, terminal_color = 7,
     terminal_buffer = (\<lambda>_. 0)\<rparr>"

lemma sample_tty_inv: "tty_inv sample_tty"
  by (simp add: tty_inv_def sample_tty_def vga_dims)

text \<open>
  C35: writing any text from a valid cursor keeps the cursor on the screen, shows the text
  on the abstract screen (line wrap, newline and scrolling included) and writes no cell
  outside the 80 by 25 buffer.
\<close>

theorem terminal_write_refines:
  assumes "tty_inv t"
  shows "tty_inv (terminal_write s t) \<and>
    screen_of (terminal_write s t) = fold (spec_putchar (terminal_color t)) s (screen_of t) \<and>
    (\<forall>a\<ge>2000. terminal_buffer (terminal_write s t) a = terminal_buffer t a)"
  using vga.write_abs [OF assms, of s] terminal_write_inv [OF assms, of s] terminal_write_cell [OF assms]
  by (simp add: terminal_write_def word_le_nat_alt)

theorem terminal_write_refines_witness:
  "tty_inv sample_tty \<and> (\<exists>rows. screen_of (terminal_write ''ab'' sample_tty) = (24, 1, rows))"
  using terminal_write_refines [OF sample_tty_inv, of "''ab''"] sample_tty_inv
  by (auto simp: screen_of_def sample_tty_def Let_def)

text \<open>
  \<^verbatim>\<open>terminal_initialize\<close> leaves a valid cursor at the top left of a blank screen in
  light green on black, whatever the state was.
\<close>

theorem terminal_initialize_blank:
  "tty_inv (terminal_initialize t) \<and>
   screen_of (terminal_initialize t) = (0, 0, replicate 25 (blank_row 0x0A))"
proof -
  have "vga_entry_color VGA_COLOR_LIGHT_GREEN VGA_COLOR_BLACK = 0x0A"
    by (simp add: vga_entry_color_def)
  moreover have "tty_inv (terminal_initialize t)" by (simp add: terminal_initialize_def Let_def tty_inv_nat)
  moreover have "screen_rows (terminal_initialize t) = replicate 25 (blank_row 0x0A)"
    using calculation(1)
    by (auto simp: screen_rows_nth blank_row_def initialize_cell intro!: nth_equalityI
        simp del: of_nat_add of_nat_mult)
  ultimately show ?thesis by (simp add: screen_of_def terminal_initialize_def Let_def)
qed

end
