(* ===== verification/Printf.thy ===== *)
theory Printf
  imports Tty
begin

text \<open>
  Integer formatting and formatted output of \<^verbatim>\<open>src/libc/stdio\<close>: the \<^verbatim>\<open>itoa\<close> family,
  \<^verbatim>\<open>putchar\<close>, \<^verbatim>\<open>vprintf\<close> (which writes to the terminal) and \<^verbatim>\<open>vsnprintf\<close> (which writes
  to a buffer). A C string is the list of its characters without the terminator. A
  variadic argument is a 32-bit stack word or a pointer to a string; a 64-bit
  argument is two words, low half first. Reading an argument that is not there or
  is of the other kind, moving the format pointer past its terminator and writing
  outside the destination buffer are undefined behaviour in C: there the model's value
  is \<open>None\<close>.
\<close>

section \<open>Integer to text\<close>

definition digit_chars :: string where
  "digit_chars = ''zyxwvutsrqponmlkjihgfedcba9876543210123456789abcdefghijklmnopqrstuvwxyz''"

text \<open>
  The digit loops \<^verbatim>\<open>do { *p++ = chars[35 + i % base]; i /= base; } while (i)\<close>. The callers
  have checked \<open>2 \<le> base\<close>; the test here only makes the recursion terminate.
\<close>

function itoa_loop :: "int \<Rightarrow> int \<Rightarrow> string" where
  "itoa_loop i base =
     (if base < 2 then []
      else digit_chars ! nat (35 + i smod base)
           # (if i sdiv base = 0 then [] else itoa_loop (i sdiv base) base))"
  by pat_completeness auto
termination
proof (relation "measure (\<lambda>(i, base). nat \<bar>i\<bar>)")
  fix i base :: int
  assume b: "\<not> base < 2" and nz: "i sdiv base \<noteq> 0"
  have "\<bar>i sdiv base\<bar> = \<bar>i\<bar> div base"
    using b by (auto simp: signed_divide_int_def abs_mult sgn_if abs_of_nonneg
        pos_imp_zdiv_nonneg_iff)
  moreover have "i \<noteq> 0" using nz by (auto simp: signed_divide_int_def)
  moreover have "\<bar>i\<bar> div base < \<bar>i\<bar>"
    using b \<open>i \<noteq> 0\<close> by (intro int_div_less_self) auto
  ultimately show "((i sdiv base, base), i, base) \<in> measure (\<lambda>(i, base). nat \<bar>i\<bar>)" by simp
qed simp

function utoa_loop :: "nat \<Rightarrow> nat \<Rightarrow> string" where
  "utoa_loop i base =
     (if base < 2 then []
      else digit_chars ! (35 + i mod base)
           # (if i div base = 0 then [] else utoa_loop (i div base) base))"
  by pat_completeness auto
termination
proof (relation "measure fst")
  fix i base :: nat
  assume "\<not> base < 2" "i div base \<noteq> 0"
  moreover from this have "0 < i" by (cases i) auto
  ultimately show "((i div base, base), i, base) \<in> measure fst" by simp
qed simp

function reverse_loop :: "string \<Rightarrow> nat \<Rightarrow> nat \<Rightarrow> string" where
  "reverse_loop s strreverse strptr =
     (if strreverse < strptr
      then reverse_loop (s[strreverse := s ! strptr, strptr := s ! strreverse])
             (strreverse + 1) (strptr - 1)
      else s)"
  by pat_completeness auto
termination
  by (relation "measure (\<lambda>(s, l, r). r - l)") auto

declare itoa_loop.simps [simp del] utoa_loop.simps [simp del] reverse_loop.simps [simp del]

definition itoa :: "u32 \<Rightarrow> int \<Rightarrow> string" where
  "itoa i base =
     (if base < 2 \<or> base > 36 then []
      else let s = (if sint i < 0 \<and> base = 10 then ''-'' else []) @ itoa_loop (sint i) base
           in reverse_loop s 0 (length s - 1))"

definition utoa :: "u32 \<Rightarrow> int \<Rightarrow> string" where
  "utoa i base =
     (if base < 2 \<or> base > 36 then []
      else let s = utoa_loop (unat i) (nat base) in reverse_loop s 0 (length s - 1))"

text \<open>On the i686 target \<^verbatim>\<open>long\<close> has 32 bits.\<close>

definition ltoa :: "u32 \<Rightarrow> int \<Rightarrow> string" where
  "ltoa i base =
     (if base < 2 \<or> base > 36 then []
      else let s = (if sint i < 0 \<and> base = 10 then ''-'' else []) @ itoa_loop (sint i) base
           in reverse_loop s 0 (length s - 1))"

definition ultoa :: "u32 \<Rightarrow> int \<Rightarrow> string" where
  "ultoa i base =
     (if base < 2 \<or> base > 36 then []
      else let s = utoa_loop (unat i) (nat base) in reverse_loop s 0 (length s - 1))"

definition lltoa :: "u64 \<Rightarrow> int \<Rightarrow> string" where
  "lltoa i base =
     (if base < 2 \<or> base > 36 then []
      else let s = (if sint i < 0 \<and> base = 10 then ''-'' else []) @ itoa_loop (sint i) base
           in reverse_loop s 0 (length s - 1))"

definition ulltoa :: "u64 \<Rightarrow> int \<Rightarrow> string" where
  "ulltoa i base =
     (if base < 2 \<or> base > 36 then []
      else let s = utoa_loop (unat i) (nat base) in reverse_loop s 0 (length s - 1))"

section \<open>Characters and arguments\<close>

definition EOF :: int where "EOF = - 1"

definition INT_MAX :: int where "INT_MAX = 2147483647"

text \<open>Promotion of a (signed) \<^verbatim>\<open>char\<close> to \<^verbatim>\<open>int\<close>, and the conversion back.\<close>

definition char_int :: "char \<Rightarrow> int" where
  "char_int c = sint (of_char c :: u8)"

definition int_char :: "int \<Rightarrow> char" where
  "int_char i = char_of (uint (word_of_int i :: u8))"

definition putchar :: "int \<Rightarrow> 'a tty_scheme \<Rightarrow> int \<times> 'a tty_scheme" where
  "putchar ic t = (ic, terminal_write [int_char ic] t)"

datatype va_arg = ArgW u32 | ArgS string

fun va_arg32 :: "va_arg list \<Rightarrow> (u32 \<times> va_arg list) option" where
  "va_arg32 (ArgW w # ap) = Some (w, ap)"
| "va_arg32 _ = None"

fun va_arg64 :: "va_arg list \<Rightarrow> (u64 \<times> va_arg list) option" where
  "va_arg64 (ArgW lo # ArgW hi # ap) = Some (ucast lo OR push_bit 32 (ucast hi), ap)"
| "va_arg64 _ = None"

fun va_argS :: "va_arg list \<Rightarrow> (string \<times> va_arg list) option" where
  "va_argS (ArgS s # ap) = Some (takeWhile (\<lambda>c. c \<noteq> CHR 0x00) s, ap)"
| "va_argS _ = None"

section \<open>vprintf\<close>

text \<open>Either the function returns from inside the loop or formatting goes on.\<close>

datatype 's run = Return int 's | Continue int 's

primrec put_loop :: "string \<Rightarrow> int \<Rightarrow> 'a tty_scheme \<Rightarrow> 'a tty_scheme run" where
  "put_loop [] written t = Continue written t"
| "put_loop (c # str) written t =
     (let (r, t') = putchar (char_int c) t
      in if r = EOF then Return (- 1) t' else put_loop str (written + 1) t')"

definition put_str :: "string \<Rightarrow> int \<Rightarrow> 'a tty_scheme \<Rightarrow> 'a tty_scheme run" where
  "put_str str written t =
     (if INT_MAX - written < int (length str) then Return (- 1) t else put_loop str written t)"

text \<open>The conversions whose text is written with an overflow check: \<^verbatim>\<open>%s %d %u %i %x\<close>.\<close>

definition conv_text :: "char \<Rightarrow> va_arg list \<Rightarrow> (string \<times> va_arg list) option" where
  "conv_text d ap =
     (if d = CHR ''s'' then va_argS ap
      else if d = CHR ''d'' then map_option (\<lambda>(i, ap). (itoa i 10, ap)) (va_arg32 ap)
      else if d = CHR ''u'' \<or> d = CHR ''i''
           then map_option (\<lambda>(i, ap). (utoa i 10, ap)) (va_arg32 ap)
      else map_option (\<lambda>(i, ap). (utoa i 16, ap)) (va_arg32 ap))"

text \<open>The conversion after \<^verbatim>\<open>%ll\<close>: \<^verbatim>\<open>u\<close> and \<^verbatim>\<open>i\<close>, \<^verbatim>\<open>x\<close>, and \<^verbatim>\<open>d\<close> for everything else.\<close>

definition ll_text :: "char \<Rightarrow> u64 \<Rightarrow> string" where
  "ll_text f i =
     (if f = CHR ''u'' \<or> f = CHR ''i'' then ulltoa i 10
      else if f = CHR ''x'' then ulltoa i 16
      else lltoa i 10)"

fun vprintf_loop ::
    "string \<Rightarrow> va_arg list \<Rightarrow> int \<Rightarrow> 'a tty_scheme \<Rightarrow> (int \<times> 'a tty_scheme) option" where
  "vprintf_loop [] ap written t = Some (written, t)"
| "vprintf_loop (c # format) ap written t =
     (if c = CHR ''%'' then
        (case format of
           [] \<Rightarrow> Some (- 1, t)
         | d # format' \<Rightarrow>
             if d = CHR ''l'' then
               (case format' of
                  _ # f # format'' \<Rightarrow>
                    (case va_arg64 ap of
                       None \<Rightarrow> None
                     | Some (i, ap') \<Rightarrow>
                         (case put_str (ll_text f i) written t of
                            Return r t' \<Rightarrow> Some (r, t')
                          | Continue w t' \<Rightarrow> vprintf_loop format'' ap' w t'))
                | _ \<Rightarrow> None)
             else if d = CHR ''c'' then
               (case va_arg32 ap of
                  None \<Rightarrow> None
                | Some (i, ap') \<Rightarrow>
                    if INT_MAX - written = 0 then Some (- 1, t)
                    else vprintf_loop format' ap' (written + 1)
                           (snd (putchar (char_int (int_char (sint i))) t)))
             else if d \<in> set ''sduix'' then
               (case conv_text d ap of
                  None \<Rightarrow> None
                | Some (str, ap') \<Rightarrow>
                    (case put_str str written t of
                       Return r t' \<Rightarrow> Some (r, t')
                     | Continue w t' \<Rightarrow> vprintf_loop format' ap' w t'))
             else
               (if INT_MAX - written = 0 then Some (- 1, t)
                else vprintf_loop format' ap (written + 1)
                       (snd (putchar (char_int (CHR ''%'')) t))))
      else
        (if INT_MAX - written = 0 then Some (- 1, t)
         else vprintf_loop format ap (written + 1) (snd (putchar (char_int c) t))))"

definition vprintf :: "string \<Rightarrow> va_arg list \<Rightarrow> 'a tty_scheme \<Rightarrow> (int \<times> 'a tty_scheme) option" where
  "vprintf format ap t = vprintf_loop (takeWhile (\<lambda>c. c \<noteq> CHR 0x00) format) ap 0 t"

definition printf :: "string \<Rightarrow> va_arg list \<Rightarrow> 'a tty_scheme \<Rightarrow> (int \<times> 'a tty_scheme) option" where
  "printf format ap t = vprintf format ap t"

definition puts :: "string \<Rightarrow> 'a tty_scheme \<Rightarrow> (int \<times> 'a tty_scheme) option" where
  "puts str t = printf (''%s'' @ [CHR 0x0A]) [ArgS str] t"

text \<open>
  A call of \<^verbatim>\<open>printf\<close> as a statement, as the kernel makes it: only the effect on the
  terminal remains.
\<close>

definition kprint :: "string \<Rightarrow> va_arg list \<Rightarrow> 'a tty_scheme \<Rightarrow> 'a tty_scheme" where
  "kprint format ap t = (case printf format ap t of None \<Rightarrow> t | Some (_, t') \<Rightarrow> t')"

section \<open>vsnprintf\<close>

text \<open>The destination buffer is a list; a store outside it is undefined behaviour.\<close>

definition buf_store :: "string \<Rightarrow> int \<Rightarrow> char \<Rightarrow> string option" where
  "buf_store s i c = (if 0 \<le> i \<and> nat i < length s then Some (s[nat i := c]) else None)"

fun sn_loop :: "string \<Rightarrow> u32 \<Rightarrow> int \<Rightarrow> string \<Rightarrow> (int \<times> string) option" where
  "sn_loop [] n written s = Some (written, s)"
| "sn_loop (c # str) n written s =
     (if written < sint n - 1
      then (case buf_store s written c of
              None \<Rightarrow> None
            | Some s' \<Rightarrow> sn_loop str n (written + 1) s')
      else Some (written, s))"

definition sn_conv_text :: "char \<Rightarrow> va_arg list \<Rightarrow> (string \<times> va_arg list) option" where
  "sn_conv_text d ap =
     (if d = CHR ''s'' then va_argS ap
      else if d = CHR ''d'' \<or> d = CHR ''i''
           then map_option (\<lambda>(i, ap). (itoa i 10, ap)) (va_arg32 ap)
      else map_option (\<lambda>(i, ap). (utoa i 16, ap)) (va_arg32 ap))"

fun vsnprintf_loop ::
    "u32 \<Rightarrow> string \<Rightarrow> va_arg list \<Rightarrow> int \<Rightarrow> string \<Rightarrow> (int \<times> string) option" where
  "vsnprintf_loop n [] ap written s =
     map_option (\<lambda>s'. (written, s')) (buf_store s written (CHR 0x00))"
| "vsnprintf_loop n (c # format) ap written s =
     (if \<not> written < uint (n - 1)
      then map_option (\<lambda>s'. (written, s')) (buf_store s written (CHR 0x00))
      else if c = CHR ''%'' then
        (case format of
           [] \<Rightarrow> Some (- 1, s)
         | d # format' \<Rightarrow>
             if d = CHR ''c'' then
               (case va_arg32 ap of
                  None \<Rightarrow> None
                | Some (i, ap') \<Rightarrow>
                    if INT_MAX - written = 0 then Some (- 1, s)
                    else (case buf_store s written (int_char (sint i)) of
                            None \<Rightarrow> None
                          | Some s' \<Rightarrow> vsnprintf_loop n format' ap' (written + 1) s'))
             else if d \<in> set ''sdix'' then
               (case sn_conv_text d ap of
                  None \<Rightarrow> None
                | Some (str, ap') \<Rightarrow>
                    if INT_MAX - written < int (length str) then Some (- 1, s)
                    else (case sn_loop str n written s of
                            None \<Rightarrow> None
                          | Some (w, s') \<Rightarrow> vsnprintf_loop n format' ap' w s'))
             else
               (if INT_MAX - written = 0 then Some (- 1, s)
                else (case buf_store s written (CHR ''%'') of
                        None \<Rightarrow> None
                      | Some s' \<Rightarrow> vsnprintf_loop n format' ap (written + 1) s')))
      else
        (if INT_MAX - written = 0 then Some (- 1, s)
         else (case buf_store s written c of
                 None \<Rightarrow> None
               | Some s' \<Rightarrow> vsnprintf_loop n format ap (written + 1) s')))"

definition vsnprintf ::
    "string \<Rightarrow> u32 \<Rightarrow> string \<Rightarrow> va_arg list \<Rightarrow> (int \<times> string) option" where
  "vsnprintf s n format ap =
     vsnprintf_loop n (takeWhile (\<lambda>c. c \<noteq> CHR 0x00) format) ap 0 s"

definition vsprintf :: "string \<Rightarrow> string \<Rightarrow> va_arg list \<Rightarrow> (int \<times> string) option" where
  "vsprintf s format ap = vsnprintf s (word_of_int INT_MAX) format ap"

definition snprintf :: "string \<Rightarrow> u32 \<Rightarrow> string \<Rightarrow> va_arg list \<Rightarrow> (int \<times> string) option" where
  "snprintf s n format ap = vsnprintf s n format ap"

definition sprintf :: "string \<Rightarrow> string \<Rightarrow> va_arg list \<Rightarrow> (int \<times> string) option" where
  "sprintf s format ap = vsprintf s format ap"

section \<open>What a format means\<close>

text \<open>
  A format as the caller means it: literal characters and conversions, each with its argument.
  The text of a number is written from its value, most significant digit first.
\<close>

definition digit_text :: "nat \<Rightarrow> char" where
  "digit_text d = char_of (if d < 10 then 48 + d else 87 + d)"

fun num_text :: "nat \<Rightarrow> nat \<Rightarrow> string" where
  "num_text base n = (if base < 2 \<or> n < base then [digit_text n] else num_text base (n div base) @ [digit_text (n mod base)])"

declare num_text.simps [simp del]

definition int_text :: "int \<Rightarrow> string" where
  "int_text i = (if i < 0 then ''-'' else []) @ num_text 10 (nat \<bar>i\<bar>)"

datatype directive = Lit char | Percent | Conv_c u32 | Conv_s string | Conv_d u32 | Conv_i u32 | Conv_u u32 | Conv_x u32
  | Conv_lld u64 | Conv_lli u64 | Conv_llu u64 | Conv_llx u64

fun directive_format :: "directive \<Rightarrow> string" where
  "directive_format (Lit c) = [c]"
| "directive_format Percent = ''%%''"
| "directive_format (Conv_c i) = ''%c''"
| "directive_format (Conv_s s) = ''%s''"
| "directive_format (Conv_d i) = ''%d''"
| "directive_format (Conv_i i) = ''%i''"
| "directive_format (Conv_u i) = ''%u''"
| "directive_format (Conv_x i) = ''%x''"
| "directive_format (Conv_lld i) = ''%lld''"
| "directive_format (Conv_lli i) = ''%lli''"
| "directive_format (Conv_llu i) = ''%llu''"
| "directive_format (Conv_llx i) = ''%llx''"

definition words64 :: "u64 \<Rightarrow> va_arg list" where
  "words64 i = [ArgW (ucast i), ArgW (ucast (drop_bit 32 i))]"

fun directive_args :: "directive \<Rightarrow> va_arg list" where
  "directive_args (Conv_c i) = [ArgW i]"
| "directive_args (Conv_s s) = [ArgS s]"
| "directive_args (Conv_d i) = [ArgW i]"
| "directive_args (Conv_i i) = [ArgW i]"
| "directive_args (Conv_u i) = [ArgW i]"
| "directive_args (Conv_x i) = [ArgW i]"
| "directive_args (Conv_lld i) = words64 i"
| "directive_args (Conv_lli i) = words64 i"
| "directive_args (Conv_llu i) = words64 i"
| "directive_args (Conv_llx i) = words64 i"
| "directive_args _ = []"

text \<open>The text each directive stands for, by the meaning of the conversions in C.\<close>

fun directive_text :: "directive \<Rightarrow> string" where
  "directive_text (Lit c) = [c]"
| "directive_text Percent = ''%''"
| "directive_text (Conv_c i) = [char_of (take_bit 8 (unat i))]"
| "directive_text (Conv_s s) = s"
| "directive_text (Conv_d i) = int_text (sint i)"
| "directive_text (Conv_i i) = int_text (sint i)"
| "directive_text (Conv_u i) = num_text 10 (unat i)"
| "directive_text (Conv_x i) = num_text 16 (unat i)"
| "directive_text (Conv_lld i) = int_text (sint i)"
| "directive_text (Conv_lli i) = int_text (sint i)"
| "directive_text (Conv_llu i) = num_text 10 (unat i)"
| "directive_text (Conv_llx i) = num_text 16 (unat i)"

text \<open>
  The text the library writes for it, which is another one for negative numbers: \<^verbatim>\<open>%d\<close> puts the sign
  behind the digits, \<^verbatim>\<open>%i\<close> takes the number for an unsigned one.
\<close>

fun directive_out :: "directive \<Rightarrow> string" where
  "directive_out (Conv_d i) = num_text 10 (nat \<bar>sint i\<bar>) @ (if sint i < 0 then ''-'' else [])"
| "directive_out (Conv_i i) = num_text 10 (unat i)"
| "directive_out (Conv_lld i) = num_text 10 (nat \<bar>sint i\<bar>) @ (if sint i < 0 then ''-'' else [])"
| "directive_out (Conv_lli i) = num_text 10 (unat i)"
| "directive_out d = directive_text d"

fun prints_negative :: "directive \<Rightarrow> bool" where
  "prints_negative (Conv_d i) = (sint i < 0)"
| "prints_negative (Conv_i i) = (sint i < 0)"
| "prints_negative (Conv_lld i) = (sint i < 0)"
| "prints_negative (Conv_lli i) = (sint i < 0)"
| "prints_negative _ = False"

text \<open>Characters that stand for themselves, and C strings without the byte 0xFF.\<close>

fun directive_ok :: "directive \<Rightarrow> bool" where
  "directive_ok (Lit c) = (c \<noteq> CHR ''%'' \<and> c \<noteq> CHR 0x00)"
| "directive_ok (Conv_s s) = (CHR 0x00 \<notin> set s \<and> CHR 0xFF \<notin> set s)"
| "directive_ok _ = True"

text \<open>The text that \<^verbatim>\<open>vsnprintf\<close> fits into its buffer, with the conversions of the library as they are.\<close>

fun sn_text :: "string \<Rightarrow> va_arg list \<Rightarrow> string option" where
  "sn_text [] ap = Some []"
| "sn_text (c # format) ap =
     (if c = CHR ''%'' then
        (case format of
           [] \<Rightarrow> None
         | d # format' \<Rightarrow>
             if d = CHR ''c'' then
               (case va_arg32 ap of
                  None \<Rightarrow> None
                | Some (i, ap') \<Rightarrow> map_option (\<lambda>r. int_char (sint i) # r) (sn_text format' ap'))
             else if d \<in> set ''sdix'' then
               (case sn_conv_text d ap of
                  None \<Rightarrow> None
                | Some (str, ap') \<Rightarrow> map_option (\<lambda>r. str @ r) (sn_text format' ap'))
             else map_option (\<lambda>r. CHR ''%'' # r) (sn_text format' ap))
      else map_option (\<lambda>r. c # r) (sn_text format ap))"

text \<open>
  The buffer \<open>pre @ rest\<close>, of which \<open>pre\<close> is written, after the text \<open>out\<close> was written
  behind \<open>pre\<close> as far as \<open>N\<close> bytes allow and terminated.
\<close>

definition sn_result :: "nat \<Rightarrow> string \<Rightarrow> string \<Rightarrow> string \<Rightarrow> int \<times> string" where
  "sn_result N pre out rest =
     (let k = min (length (pre @ out)) (N - 1)
      in (int k, take k (pre @ out) @ CHR 0x00 # drop (Suc k - length pre) rest))"

section \<open>Reading numerals back\<close>

text \<open>The value of a digit and of a numeral in positional notation, as a reader sees it.\<close>

definition digit_val :: "char \<Rightarrow> nat" where
  "digit_val c = (let n = of_char c :: nat in if n < 58 then n - 48 else n - 87)"

definition parse_num :: "nat \<Rightarrow> string \<Rightarrow> nat" where
  "parse_num base s = foldl (\<lambda>a c. a * base + digit_val c) 0 s"

section \<open>Lemmas on the digit loops\<close>

lemma reverse_loop_length [simp]: "length (reverse_loop s l r) = length s"
  by (induction s l r rule: reverse_loop.induct) (simp add: reverse_loop.simps)

lemma reverse_loop_nth:
  "r < length s \<Longrightarrow> k < length s \<Longrightarrow>
   reverse_loop s l r ! k = (if l \<le> k \<and> k \<le> r then s ! (l + r - k) else s ! k)"
proof (induction s l r rule: reverse_loop.induct)
  case (1 s l r)
  show ?case
  proof (cases "l < r")
    case True
    let ?s = "s[l := s ! r, r := s ! l]"
    have "reverse_loop s l r ! k = reverse_loop ?s (l + 1) (r - 1) ! k"
      using True by (subst reverse_loop.simps) simp
    also have "\<dots> = (if l + 1 \<le> k \<and> k \<le> r - 1 then ?s ! (l + 1 + (r - 1) - k) else ?s ! k)"
      using True "1.prems" by (intro "1.IH") auto
    finally show ?thesis using True "1.prems" by (auto simp: nth_list_update)
  next
    case False
    then have "l + r - k = k" if "l \<le> k" "k \<le> r"
      using that by linarith
    then show ?thesis using False "1.prems" by (subst reverse_loop.simps) auto
  qed
qed

lemma mod_base: "2 \<le> base \<Longrightarrow> base \<le> 36 \<Longrightarrow> i mod base < (36 :: nat)"
  by (rule less_le_trans [OF mod_less_divisor]) auto

lemma reverse_loop_rev: "s \<noteq> [] \<Longrightarrow> reverse_loop s 0 (length s - 1) = rev s"
  by (rule nth_equalityI) (auto simp: reverse_loop_nth rev_nth)

lemma digit_chars_mirror:
  assumes "d < 36"
  shows "digit_chars ! (35 - d) = digit_chars ! (35 + d)"
    and "digit_val (digit_chars ! (35 + d)) = d"
proof -
  have "\<forall>d \<in> set [0..<36]. digit_chars ! (35 - d) = digit_chars ! (35 + d) \<and>
      digit_val (digit_chars ! (35 + d)) = d"
    by code_simp
  then show "digit_chars ! (35 - d) = digit_chars ! (35 + d)"
    and "digit_val (digit_chars ! (35 + d)) = d"
    using assms by simp_all
qed

lemma utoa_loop_not_Nil [simp]: "2 \<le> base \<Longrightarrow> utoa_loop i base \<noteq> []"
  by (simp add: utoa_loop.simps [of i])

lemma itoa_loop_utoa:
  assumes "2 \<le> base" "base \<le> 36"
  shows "itoa_loop i base = utoa_loop (nat \<bar>i\<bar>) (nat base)"
  using assms
proof (induction i base rule: itoa_loop.induct)
  case (1 i base)
  have quot: "nat \<bar>i sdiv base\<bar> = nat \<bar>i\<bar> div nat base"
    using "1.prems" by (auto simp: signed_divide_int_def abs_mult sgn_if nat_div_distrib
        abs_of_nonneg pos_imp_zdiv_nonneg_iff)
  have zero: "(i sdiv base = 0) = (nat \<bar>i\<bar> div nat base = 0)"
    by (simp flip: quot)
  let ?d = "nat \<bar>i\<bar> mod nat base"
  have d: "?d < 36" using "1.prems" by (intro mod_base) auto
  have "digit_chars ! nat (35 + i smod base) = digit_chars ! (35 + ?d)"
  proof (cases "0 \<le> i")
    case True
    then have "nat (35 + i smod base) = 35 + ?d"
      using "1.prems" by (simp add: smod_int_alt_def sgn_if nat_add_distrib nat_mod_distrib)
    then show ?thesis by simp
  next
    case False
    then have "i smod base = - int ?d"
      using "1.prems" by (simp add: smod_int_alt_def sgn_if zmod_int)
    then have "35 + i smod base = int (35 - ?d)" using d by (simp add: of_nat_diff)
    then have "nat (35 + i smod base) = 35 - ?d" by (simp only: nat_int)
    then show ?thesis using digit_chars_mirror(1) [OF d] by simp
  qed
  then show ?case
    using "1.prems" "1.IH" zero quot
    by (subst itoa_loop.simps, subst utoa_loop.simps) auto
qed

lemma utoa_loop_val:
  assumes "2 \<le> base" "base \<le> 36"
  shows "parse_num base (rev (utoa_loop i base)) = i"
  using assms
proof (induction i base rule: utoa_loop.induct)
  case (1 i base)
  have d: "digit_val (digit_chars ! (35 + i mod base)) = i mod base"
    using "1.prems" by (intro digit_chars_mirror mod_base)
  show ?case
  proof (cases "i div base = 0")
    case True
    then have "i mod base = i" by (simp add: mod_eq_self_iff_div_eq_0)
    then show ?thesis using True "1.prems" d
      by (subst utoa_loop.simps) (simp add: parse_num_def)
  next
    case False
    then have "parse_num base (rev (utoa_loop (i div base) base)) = i div base"
      using "1.prems" by (intro "1.IH") auto
    then show ?thesis using False "1.prems" d
      by (subst utoa_loop.simps) (simp add: parse_num_def)
  qed
qed

lemma utoa_loop_length:
  assumes "2 \<le> base" "i < base ^ k" "0 < k"
  shows "length (utoa_loop i base) \<le> k"
  using assms
proof (induction i base arbitrary: k rule: utoa_loop.induct)
  case (1 i base)
  show ?case
  proof (cases "i div base = 0")
    case True
    then show ?thesis using "1.prems" by (subst utoa_loop.simps) simp
  next
    case False
    obtain j where k: "k = Suc j" using "1.prems"(3) by (cases k) auto
    have "i div base < base ^ j"
      using "1.prems" k by (simp add: less_mult_imp_div_less mult.commute)
    moreover have "0 < j" using calculation False by (cases j) auto
    ultimately have "length (utoa_loop (i div base) base) \<le> j"
      using "1.prems" False by (intro "1.IH") auto
    then show ?thesis using k by (subst utoa_loop.simps) simp
  qed
qed

lemma digit_chars_text:
  assumes "d < 36"
  shows "digit_chars ! (35 + d) = digit_text d" "digit_text d \<noteq> CHR 0xFF" "digit_text d \<noteq> CHR ''-''"
proof -
  have "\<forall>d\<in>set [0..<36]. digit_chars ! (35 + d) = digit_text d \<and> digit_text d \<noteq> CHR 0xFF \<and> digit_text d \<noteq> CHR ''-''"
    by code_simp
  then show "digit_chars ! (35 + d) = digit_text d" "digit_text d \<noteq> CHR 0xFF" "digit_text d \<noteq> CHR ''-''"
    using assms by simp_all
qed

lemma utoa_loop_text:
  assumes "2 \<le> base" "base \<le> 36"
  shows "rev (utoa_loop n base) = num_text base n"
  using assms
proof (induction base n rule: num_text.induct)
  case (1 base n)
  have d: "digit_chars ! (35 + n mod base) = digit_text (n mod base)" using "1.prems" by (intro digit_chars_text mod_base)
  show ?case
  proof (cases "n < base")
    case True
    then show ?thesis using "1.prems" d by (subst utoa_loop.simps, subst num_text.simps) simp
  next
    case False
    then have "n div base \<noteq> 0" using "1.prems" by (simp add: div_eq_0_iff)
    then show ?thesis using False "1.prems" "1.IH" d by (subst utoa_loop.simps, subst num_text.simps) simp
  qed
qed

lemma num_text_chars:
  assumes "2 \<le> base" "base \<le> 36"
  shows "num_text base n \<noteq> []" "c \<in> set (num_text base n) \<Longrightarrow> c \<noteq> CHR 0xFF \<and> c \<noteq> CHR ''-''"
proof -
  show "num_text base n \<noteq> []" by (subst num_text.simps) simp
  show "c \<in> set (num_text base n) \<Longrightarrow> c \<noteq> CHR 0xFF \<and> c \<noteq> CHR ''-''" using assms
  proof (induction base n rule: num_text.induct)
    case (1 base n)
    have "n mod base < 36" using "1.prems" by (intro mod_base)
    moreover have "n < 36" if "n < base" using that "1.prems" by simp
    ultimately show ?case using 1 digit_chars_text(2,3)
      by (subst (asm) (2) num_text.simps) (auto split: if_splits)
  qed
qed

lemma to_text:
  "utoa i 10 = num_text 10 (unat i)" "utoa i 16 = num_text 16 (unat i)" "ulltoa j 10 = num_text 10 (unat j)" "ulltoa j 16 = num_text 16 (unat j)"
  by (simp_all add: utoa_def ulltoa_def Let_def reverse_loop_rev [unfolded One_nat_def] utoa_loop_text)

lemma signed_to_text:
  "itoa i 10 = num_text 10 (nat \<bar>sint i\<bar>) @ (if sint i < 0 then ''-'' else [])"
  "lltoa j 10 = num_text 10 (nat \<bar>sint j\<bar>) @ (if sint j < 0 then ''-'' else [])"
proof -
  have "reverse_loop (c # s) 0 (length s) = rev s @ [c]" for c s
    using reverse_loop_rev [of "c # s"] by simp
  then show "itoa i 10 = num_text 10 (nat \<bar>sint i\<bar>) @ (if sint i < 0 then ''-'' else [])"
    "lltoa j 10 = num_text 10 (nat \<bar>sint j\<bar>) @ (if sint j < 0 then ''-'' else [])"
    by (simp_all add: itoa_def lltoa_def Let_def itoa_loop_utoa reverse_loop_rev [unfolded One_nat_def] utoa_loop_text)
qed

section \<open>Lemmas on formatted output\<close>

lemma uint_of_char: "uint (of_char c :: u8) = of_char c"
proof -
  have "(of_char c :: u8) = of_nat (of_char c)" by (simp add: of_nat_of_char)
  then have "uint (of_char c :: u8) = int (take_bit 8 (of_char c))"
    by (simp only: unsigned_of_nat) simp
  also have "take_bit 8 (of_char c :: nat) = of_char c"
    by (simp add: take_bit_eq_mod)
  finally show ?thesis by (simp add: of_nat_of_char)
qed

lemma int_char_int [simp]: "int_char (char_int c) = c"
  by (simp add: int_char_def char_int_def uint_of_char)

lemma putchar_char [simp]: "putchar (char_int c) t = (char_int c, terminal_write [c] t)"
  by (simp add: putchar_def)

lemma char_int_EOF: "(char_int c = EOF) = (c = CHR 0xFF)"
proof
  assume "char_int c = EOF"
  then have "int_char (char_int c) = int_char (- 1)" by (simp add: EOF_def)
  also have "int_char (- 1) = CHR 0xFF" by (simp add: int_char_def) code_simp
  finally show "c = CHR 0xFF" by simp
qed (simp add: char_int_def EOF_def)

lemma terminal_write_Cons: "terminal_write (c # s) t = terminal_write s (terminal_write [c] t)"
  by (simp add: terminal_write_def)

lemma put_loop_text:
  "CHR 0xFF \<notin> set str \<Longrightarrow>
   put_loop str w t = Continue (w + int (length str)) (terminal_write str t)"
proof (induction str arbitrary: w t)
  case Nil
  then show ?case by simp
next
  case (Cons c str)
  then show ?case by (auto simp: char_int_EOF terminal_write_Cons [of c str])
qed

lemma put_loop_eof:
  "CHR 0xFF \<notin> set str \<Longrightarrow>
   put_loop (str @ CHR 0xFF # rest) w t = Return (- 1) (terminal_write (str @ [CHR 0xFF]) t)"
proof (induction str arbitrary: w t)
  case Nil
  have "put_loop (CHR 0xFF # rest) w t = Return (- 1) (terminal_write [CHR 0xFF] t)"
    unfolding put_loop.simps putchar_char by (simp add: char_int_EOF)
  then show ?case by simp
next
  case (Cons c str)
  then show ?case by (auto simp: char_int_EOF terminal_write_Cons [of c "str @ _"])
qed

lemma put_str_text:
  "CHR 0xFF \<notin> set str \<Longrightarrow> w + int (length str) \<le> INT_MAX \<Longrightarrow>
   put_str str w t = Continue (w + int (length str)) (terminal_write str t)"
  by (simp add: put_str_def put_loop_text)

lemma va_arg64_words [simp]: "va_arg64 (words64 i @ ap) = Some (i, ap)"
proof -
  have "(ucast (ucast i :: u32) :: u64) OR push_bit 32 (ucast (ucast (drop_bit 32 i) :: u32)) = i"
    by (rule bit_word_eqI) (auto simp: bit_simps)
  then show ?thesis by (simp add: words64_def)
qed

lemma char_arg: "int_char (sint i) = char_of (take_bit 8 (unat (i :: u32)))"
proof -
  have "(word_of_int (sint i) :: u8) = ucast i" by (rule bit_word_eqI) (auto simp: bit_simps)
  then have "int_char (sint i) = char_of (int (take_bit 8 (unat i)))"
    by (simp add: int_char_def unsigned_ucast_eq of_nat_take_bit)
  then show ?thesis by (simp add: char_of_nat)
qed

lemma sign_first: "num_text 10 n @ xs \<noteq> CHR ''-'' # ys" "num_text 10 n \<noteq> CHR ''-'' # ys"
  using num_text_chars(1) [where base = 10 and n = n] num_text_chars(2) [where base = 10 and n = n and c = "CHR ''-''"]
  by (cases "num_text 10 n"; auto)+

lemma nonneg_value:
  fixes i :: "'a::len word"
  assumes "\<not> sint i < 0"
  shows "nat (sint i) = unat i"
proof -
  have "sint i < 2 ^ LENGTH('a)" by (rule less_le_trans [OF sint_less]) simp
  then have "take_bit LENGTH('a) (sint i) = sint i" using assms by (simp add: take_bit_int_eq_self)
  then have "uint i = sint i" by (simp add: uint_sint)
  then show ?thesis by (simp flip: nat_uint_eq)
qed

lemma directive_out_text: "directive_out d = directive_text d \<longleftrightarrow> \<not> prints_negative d"
  by (cases d) (auto simp: int_text_def nonneg_value sign_first)

lemma num_text_ff: "CHR 0xFF \<notin> set (num_text 10 n)" "CHR 0xFF \<notin> set (num_text 16 n)"
  using num_text_chars(2) [where c = "CHR 0xFF"] by force+

lemma directive_out_chars: "directive_ok d \<Longrightarrow> \<forall>c. d \<noteq> Lit c \<Longrightarrow> \<forall>i. d \<noteq> Conv_c i \<Longrightarrow> CHR 0xFF \<notin> set (directive_out d)"
  by (cases d) (simp_all add: num_text_ff)

lemma vprintf_loop_directive:
  assumes "directive_ok d" "0 \<le> w" "w + int (length (directive_out d)) \<le> INT_MAX"
  shows "vprintf_loop (directive_format d @ format) (directive_args d @ ap) w t =
    vprintf_loop format ap (w + int (length (directive_out d))) (terminal_write (directive_out d) t)"
proof (cases d)
  case (Conv_s s)
  moreover have "takeWhile (\<lambda>c. c \<noteq> CHR 0x00) s = s" using assms(1) Conv_s by (auto simp: takeWhile_eq_all_conv)
  ultimately show ?thesis using assms by (simp add: conv_text_def put_str_text del: takeWhile_eq_all_conv)
next
  case (Conv_c i)
  then show ?thesis using assms by (simp add: char_arg)
qed (use assms directive_out_chars [OF assms(1)] in \<open>simp_all add: conv_text_def ll_text_def put_str_text to_text signed_to_text\<close>)

lemma vprintf_loop_directives:
  assumes "\<forall>d\<in>set ds. directive_ok d" "0 \<le> w" "w + int (length (concat (map directive_out ds))) \<le> INT_MAX"
  shows "vprintf_loop (concat (map directive_format ds)) (concat (map directive_args ds)) w t =
    Some (w + int (length (concat (map directive_out ds))), terminal_write (concat (map directive_out ds)) t)"
  using assms
proof (induction ds arbitrary: w t)
  case (Cons d ds)
  then show ?case by (simp add: vprintf_loop_directive terminal_write_append [symmetric] add.assoc)
qed simp

text \<open>Whatever is printed, the terminal only receives characters.\<close>

definition printed :: "'a tty_scheme \<Rightarrow> 'a tty_scheme \<Rightarrow> bool" where
  "printed t t' \<longleftrightarrow> (\<exists>out. t' = terminal_write out t)"

lemma printed_refl [simp]: "printed t t"
  unfolding printed_def by (metis terminal_write_Nil)

lemma printed_write [simp]: "printed t (terminal_write out t)"
  unfolding printed_def by blast

lemma printed_trans: "printed t t' \<Longrightarrow> printed t' t'' \<Longrightarrow> printed t t''"
  unfolding printed_def by (metis terminal_write_append)

lemma printed_more: "printed t t' \<Longrightarrow> tty.more t' = tty.more t"
  unfolding printed_def by auto

lemma printed_inv: "printed t t' \<Longrightarrow> tty_inv t \<Longrightarrow> tty_inv t'"
  unfolding printed_def by (auto intro: terminal_write_inv)

lemma printed_write_then: "printed (terminal_write out t) t' \<Longrightarrow> printed t t'"
  by (rule printed_trans [OF printed_write])

lemma put_loop_printed:
  "(case put_loop str w t of Return r t' \<Rightarrow> printed t t' | Continue w' t' \<Rightarrow> printed t t')"
proof (induction str arbitrary: w t)
  case Nil
  then show ?case by simp
next
  case (Cons c str)
  have "(case put_loop str (w + 1) (terminal_write [c] t) of
      Return r t' \<Rightarrow> printed t t' | Continue w' t' \<Rightarrow> printed t t')"
    using Cons [where w = "w + 1" and t = "terminal_write [c] t"]
    by (auto split: run.splits dest: printed_write_then)
  then show ?case by simp
qed

lemma put_str_return: "put_str str w t = Return r t' \<Longrightarrow> printed t t'"
  using put_loop_printed [where str = str and w = w and t = t] by (auto simp: put_str_def split: if_splits)

lemma put_str_then: "put_str str w t = Continue w' t1 \<Longrightarrow> printed t1 t' \<Longrightarrow> printed t t'"
  using put_loop_printed [where str = str and w = w and t = t]
  by (auto simp: put_str_def split: if_splits intro: printed_trans)

lemma vprintf_loop_printed: "vprintf_loop format ap w t = Some (r, t') \<Longrightarrow> printed t t'"
proof (induction format ap w t rule: vprintf_loop.induct)
  case (1 ap w t)
  then show ?case by simp
next
  case (2 c format ap w t)
  show ?case
  proof (cases "c = CHR ''%''")
    case False
    then show ?thesis using "2.prems" "2.IH"(5) [OF False]
      by (auto split: if_splits dest: printed_write_then)
  next
    case pct: True
    show ?thesis
    proof (cases format)
      case Nil
      then show ?thesis using pct "2.prems" by simp
    next
      case f: (Cons d f)
      consider (l) "d = CHR ''l''" | (c) "d = CHR ''c''"
        | (conv) "d \<noteq> CHR ''l''" "d \<noteq> CHR ''c''" "d \<in> set ''sduix''"
        | (other) "d \<noteq> CHR ''l''" "d \<noteq> CHR ''c''" "d \<notin> set ''sduix''" by blast
      then show ?thesis
      proof cases
        case l
        then obtain e g h i ap' where g: "f = e # g # h" "va_arg64 ap = Some (i, ap')"
          using pct f "2.prems" by (auto split: list.splits option.splits)
        show ?thesis
        proof (cases "put_str (ll_text g i) w t")
          case (Return r' t1)
          then show ?thesis using pct f l g "2.prems" put_str_return [OF Return] by simp
        next
          case (Continue w' t1)
          then have "printed t1 t'" using pct f l g "2.prems" "2.IH"(1) by simp
          then show ?thesis by (rule put_str_then [OF Continue])
        qed
      next
        case c
        then obtain i ap' where g: "va_arg32 ap = Some (i, ap')"
          using pct f "2.prems" by (auto split: option.splits)
        show ?thesis
        proof (cases "INT_MAX - w = 0")
          case True
          then show ?thesis using pct f c g "2.prems" by simp
        next
          case False
          then have "printed (terminal_write [int_char (sint i)] t) t'"
            using pct f c g "2.prems" "2.IH"(2) by simp
          then show ?thesis by (rule printed_write_then)
        qed
      next
        case conv
        then obtain str ap' where g: "conv_text d ap = Some (str, ap')"
          using pct f "2.prems" by (auto split: option.splits simp del: list.set)
        show ?thesis
        proof (cases "put_str str w t")
          case (Return r' t1)
          then show ?thesis using pct f conv g "2.prems" put_str_return [OF Return]
            by (simp del: list.set)
        next
          case (Continue w' t1)
          then have "printed t1 t'" using pct f conv g "2.prems" "2.IH"(3) by (simp del: list.set)
          then show ?thesis by (rule put_str_then [OF Continue])
        qed
      next
        case other
        then show ?thesis using pct f "2.prems" "2.IH"(4)
          by (auto split: if_splits dest: printed_write_then simp del: list.set)
      qed
    qed
  qed
qed

lemma kprint_printed [simp]: "printed t (kprint format ap t)"
  by (auto simp: kprint_def printf_def vprintf_def dest: vprintf_loop_printed split: option.splits)

lemmas kprint_more [simp] = printed_more [OF kprint_printed]

section \<open>Lemmas on output to a buffer\<close>

lemma sn_result_more:
  assumes "length (pre @ str) \<le> N - 1"
  shows "sn_result N (pre @ str) out (drop (length str) rest) = sn_result N pre (str @ out) rest"
proof -
  define k where "k = min (length pre + (length str + length out)) (N - Suc 0)"
  have "length str + (Suc k - (length pre + length str)) = Suc k - length pre"
    using assms by (auto simp: k_def)
  then show ?thesis by (simp add: sn_result_def Let_def add.commute [of _ "length str"] add.assoc flip: k_def)
qed

lemma sn_result_full:
  assumes "length pre = N - 1" "rest \<noteq> []"
  shows "sn_result N pre out rest = (int (N - 1), pre @ CHR 0x00 # tl rest)"
  using assms by (cases rest) (simp_all add: sn_result_def)

lemma buf_store_next:
  assumes "rest \<noteq> []"
  shows "buf_store (pre @ rest) (int (length pre)) c = Some ((pre @ [c]) @ tl rest)"
  using assms by (cases rest) (simp_all add: buf_store_def)

lemma sn_loop_text:
  assumes "length pre \<le> N - 1" "N \<le> length (pre @ rest)" "sint n = int N" "0 < N"
  shows "\<exists>k. k = min (length (pre @ str)) (N - 1) \<and>
    sn_loop str n (int (length pre)) (pre @ rest) =
      Some (int k, take k (pre @ str) @ drop (k - length pre) rest)"
  using assms
proof (induction str arbitrary: pre rest)
  case (Cons c str)
  show ?case
  proof (cases "length pre < N - 1")
    case True
    then have "rest \<noteq> []" "int (length pre) < sint n - 1" using Cons.prems by auto
    moreover have "\<exists>k. k = min (length ((pre @ [c]) @ str)) (N - 1) \<and>
      sn_loop str n (int (length (pre @ [c]))) ((pre @ [c]) @ tl rest) =
      Some (int k, take k ((pre @ [c]) @ str) @ drop (k - length (pre @ [c])) (tl rest))"
      using True Cons.prems \<open>rest \<noteq> []\<close> by (intro Cons.IH) auto
    ultimately show ?thesis using True
      by (simp add: buf_store_next drop_Suc [symmetric] Suc_diff_Suc add.commute min_def)
  next
    case False
    then have "length pre = N - 1" using Cons.prems by simp
    then show ?thesis using Cons.prems by simp
  qed
qed auto


lemma sn_loop_stop:
  assumes "length pre = N - 1" "rest \<noteq> []" "uint (n - 1) = int N - 1" "0 < N"
  shows "vsnprintf_loop n format ap (int (length pre)) (pre @ rest) = Some (sn_result N pre out rest)"
  using assms buf_store_next [OF assms(2), of pre "CHR 0x00"]
  by (cases format) (simp_all add: sn_result_full)

text \<open>Writing one more character, or a whole converted argument, and going on.\<close>

lemma sn_char:
  assumes "\<And>pre rest. length pre \<le> N - 1 \<Longrightarrow> N \<le> length (pre @ rest) \<Longrightarrow>
      int (length (pre @ out)) \<le> INT_MAX \<Longrightarrow>
      vsnprintf_loop n format ap (int (length pre)) (pre @ rest) = Some (sn_result N pre out rest)"
    and "length pre < N - 1" "N \<le> length (pre @ rest)" "int (length (pre @ c # out)) \<le> INT_MAX"
  shows "(case buf_store (pre @ rest) (int (length pre)) c of None \<Rightarrow> None
    | Some s' \<Rightarrow> vsnprintf_loop n format ap (int (length pre) + 1) s') = Some (sn_result N pre (c # out) rest)"
proof -
  have "rest \<noteq> []" using assms(2,3) by auto
  moreover have "vsnprintf_loop n format ap (int (length (pre @ [c]))) ((pre @ [c]) @ tl rest) =
      Some (sn_result N (pre @ [c]) out (tl rest))"
    using assms(2-4) by (intro assms(1)) (cases rest; auto)+
  ultimately show ?thesis
    using sn_result_more [of pre "[c]" N out rest] assms(2)
    by (simp add: buf_store_next drop_Suc add.commute)
qed

lemma sn_string:
  assumes "\<And>pre rest. length pre \<le> N - 1 \<Longrightarrow> N \<le> length (pre @ rest) \<Longrightarrow>
      int (length (pre @ out)) \<le> INT_MAX \<Longrightarrow>
      vsnprintf_loop n format ap (int (length pre)) (pre @ rest) = Some (sn_result N pre out rest)"
    and "length pre < N - 1" "N \<le> length (pre @ rest)" "int (length (pre @ str @ out)) \<le> INT_MAX"
    and "sint n = int N" "uint (n - 1) = int N - 1"
  shows "(case sn_loop str n (int (length pre)) (pre @ rest) of None \<Rightarrow> None
    | Some (w, s') \<Rightarrow> vsnprintf_loop n format ap w s') = Some (sn_result N pre (str @ out) rest)"
proof -
  obtain k where k: "k = min (length (pre @ str)) (N - 1)"
    "sn_loop str n (int (length pre)) (pre @ rest) = Some (int k, take k (pre @ str) @ drop (k - length pre) rest)"
    using sn_loop_text [of pre N rest n str] assms by auto
  have len: "length (take k (pre @ str)) = k" using k(1) unfolding length_take by linarith
  show ?thesis
  proof (cases "length (pre @ str) \<le> N - 1")
    case True
    then have "take k (pre @ str) = pre @ str" "k - length pre = length str" using k(1) by auto
    then show ?thesis
      using assms(1) [of "pre @ str" "drop (length str) rest"] sn_result_more [OF True, of out rest]
        True assms(3,4) k len by simp
  next
    case False
    then have "k = N - 1" "drop (k - length pre) rest \<noteq> []" using k(1) assms(2,3) by auto
    moreover have "sn_result N pre (str @ out) rest =
        (int (N - 1), take k (pre @ str) @ CHR 0x00 # tl (drop (k - length pre) rest))"
    proof -
      have "N - length pre = Suc (N - Suc (length pre))" using assms(2) by simp
      then show ?thesis
        using False assms(2) calculation(1) by (simp add: sn_result_def min_def drop_Suc tl_drop)
    qed
    ultimately show ?thesis
      using sn_loop_stop [of "take k (pre @ str)" N "drop (k - length pre) rest" n format ap]
        sn_result_full [of "take k (pre @ str)" N "drop (k - length pre) rest"] k(2) len assms(2,6)
      by simp
  qed
qed

lemma vsnprintf_loop_out:
  assumes "sn_text format ap = Some out" "length pre \<le> N - 1" "N \<le> length (pre @ rest)"
    and "int (length (pre @ out)) \<le> INT_MAX"
    and n: "sint n = int N" "uint (n - 1) = int N - 1" "0 < N"
  shows "vsnprintf_loop n format ap (int (length pre)) (pre @ rest) = Some (sn_result N pre out rest)"
  using assms(1-4)
proof (induction format ap arbitrary: pre rest out rule: sn_text.induct)
  case (1 ap)
  then have "rest \<noteq> []" using n(3) by auto
  then show ?case using 1 n(3) buf_store_next [of rest pre "CHR 0x00"]
    by (cases rest) (simp_all add: sn_result_def)
next
  case (2 c format ap)
  show ?case
  proof (cases "length pre < N - 1")
    case False
    then show ?thesis using "2.prems" n by (intro sn_loop_stop) auto
  next
    case room: True
    then have w: "int (length pre) < uint (n - 1)" using n by simp
    have max: "INT_MAX - int (length pre) \<noteq> 0 \<or> out = []" using "2.prems"(4) by auto
    note steps = sn_char [OF _ room "2.prems"(3)] sn_string [OF _ room "2.prems"(3) _ n(1,2)]
    show ?thesis
    proof (cases "c = CHR ''%''")
      case False
      with "2.prems" obtain r where "out = c # r" "sn_text format ap = Some r" by auto
      then show ?thesis using False w max "2.prems"(4) steps(1) "2.IH"(4) [OF False] by simp
    next
      case pct: True
      with "2.prems" obtain d f where f: "format = d # f" by (cases format) auto
      consider (c) "d = CHR ''c''" | (conv) "d \<noteq> CHR ''c''" "d \<in> set ''sdix''"
        | (other) "d \<noteq> CHR ''c''" "d \<notin> set ''sdix''" by blast
      then show ?thesis
      proof cases
        case c
        with "2.prems" pct f obtain i ap' r where
          "va_arg32 ap = Some (i, ap')" "sn_text f ap' = Some r" "out = int_char (sint i) # r"
          by (auto split: option.splits)
        then show ?thesis using c pct f w max "2.prems"(4) steps(1) "2.IH"(1) by simp
      next
        case conv
        with "2.prems" pct f obtain str ap' r where
          "sn_conv_text d ap = Some (str, ap')" "sn_text f ap' = Some r" "out = str @ r"
          by (auto simp del: list.set split: option.splits)
        then show ?thesis using conv pct f w max "2.prems"(4) steps(2) "2.IH"(2)
          by (simp del: list.set)
      next
        case other
        with "2.prems" pct f obtain r where "sn_text f ap = Some r" "out = CHR ''%'' # r"
          by (auto simp del: list.set)
        then show ?thesis using other pct f w max "2.prems"(4) steps(1) "2.IH"(3)
          by (simp del: list.set)
      qed
    qed
  qed
qed

section \<open>Properties\<close>

text \<open>
  C38: \<^verbatim>\<open>utoa\<close> and \<^verbatim>\<open>ulltoa\<close> print a numeral that reads back as the value, in every base
  from 2 to 36, and it fits the 33 and 65 byte buffers the callers pass.
\<close>

theorem utoa_roundtrip:
  assumes "2 \<le> base" "base \<le> 36"
  shows "parse_num (nat base) (utoa i base) = unat i \<and> length (utoa i base) < 33 \<and>
    parse_num (nat base) (ulltoa j base) = unat j \<and> length (ulltoa j base) < 65"
proof -
  have b: "2 \<le> nat base" "nat base \<le> 36" using assms by auto
  have len: "length (utoa_loop x (nat base)) \<le> k" if "x < 2 ^ k" "0 < k" for x k
    using b(1) less_le_trans [OF that(1) power_mono [OF b(1)]] that(2) by (intro utoa_loop_length) auto
  show ?thesis
    using b assms len [OF unsigned_less [of i]] len [OF unsigned_less [of j]]
    by (simp add: utoa_def ulltoa_def Let_def reverse_loop_rev [unfolded One_nat_def] utoa_loop_val)
qed

theorem utoa_roundtrip_witness:
  "parse_num 16 (utoa 0xBEEF 16) = 0xBEEF \<and> parse_num 16 (ulltoa 0x123456789AB 16) = 0x123456789AB"
  using utoa_roundtrip [of 16 "0xBEEF" "0x123456789AB"] by simp

text \<open>
  C36: A format of literal characters and conversions makes \<^verbatim>\<open>vprintf\<close> write, in order, the characters,
  the string arguments and the numbers in decimal or hexadecimal notation, and return the length,
  as long as no string has a 0xFF byte and the length fits an \<^verbatim>\<open>int\<close>. The text written for a conversion
  is the one it stands for in C except for negative numbers: there \<^verbatim>\<open>%d\<close> and \<^verbatim>\<open>%lld\<close> write the minus sign
  behind the digits, and \<^verbatim>\<open>%i\<close> and \<^verbatim>\<open>%lli\<close> write the number as if it were unsigned, against \<^verbatim>\<open>stdio.h\<close>.
\<close>

theorem vprintf_output:
  assumes "\<forall>d\<in>set ds. directive_ok d" "int (length (concat (map directive_out ds))) \<le> INT_MAX"
  shows "vprintf (concat (map directive_format ds)) (concat (map directive_args ds)) t =
      Some (int (length (concat (map directive_out ds))), terminal_write (concat (map directive_out ds)) t) \<and>
    (\<forall>d\<in>set ds. directive_out d = directive_text d \<longleftrightarrow> \<not> prints_negative d)"
proof -
  have "CHR 0x00 \<notin> set (directive_format d)" if "directive_ok d" for d using that by (cases d) auto
  then have tw: "takeWhile (\<lambda>c. c \<noteq> CHR 0x00) (concat (map directive_format ds)) = concat (map directive_format ds)"
    using assms(1) by (subst takeWhile_eq_all_conv) auto
  have "vprintf_loop (concat (map directive_format ds)) (concat (map directive_args ds)) 0 t =
      Some (int (length (concat (map directive_out ds))), terminal_write (concat (map directive_out ds)) t)"
    using vprintf_loop_directives [OF assms(1), of 0 t] assms(2) by simp
  then show ?thesis unfolding vprintf_def tw directive_out_text by simp
qed

lemma sample_texts:
  "num_text 16 0xA1 = ''a1''" "num_text 10 42 = ''42''" "num_text 10 12 = ''12''" "num_text 10 1 = ''1''" "num_text 10 4294967295 = ''4294967295''"
  by (simp_all add: num_text.simps digit_text_def char_of_def bit_Suc_0_iff)

lemma sample_values: "sint (0xFFFFFFF4 :: u32) = - 12" "sint (0xFFFFFFFF :: u32) = - 1" "char_of (33 :: nat) = CHR ''!''"
  by (simp_all add: char_of_def bit_Suc_0_iff)

theorem vprintf_output_witness:
  "vprintf ''f%xx: %s%c %d %d %i'' [ArgW 0xA1, ArgS ''ok'', ArgW 33, ArgW 42, ArgW 0xFFFFFFF4, ArgW 0xFFFFFFFF] sample_tty =
     Some (27, terminal_write ''fa1x: ok! 42 12- 4294967295'' sample_tty) \<and>
   directive_text (Conv_d 0xFFFFFFF4) = ''-12'' \<and> directive_text (Conv_i 0xFFFFFFFF) = ''-1''"
proof -
  define ds where "ds = [Lit (CHR ''f''), Conv_x 0xA1, Lit (CHR ''x''), Lit (CHR '':''), Lit (CHR '' ''), Conv_s ''ok'', Conv_c 33,
    Lit (CHR '' ''), Conv_d 42, Lit (CHR '' ''), Conv_d 0xFFFFFFF4, Lit (CHR '' ''), Conv_i 0xFFFFFFFF]"
  have out: "concat (map directive_out ds) = ''fa1x: ok! 42 12- 4294967295''"
    by (simp add: ds_def sample_texts [unfolded One_nat_def] sample_values)
  have f: "concat (map directive_format ds) = ''f%xx: %s%c %d %d %i''"
    "concat (map directive_args ds) = [ArgW 0xA1, ArgS ''ok'', ArgW 33, ArgW 42, ArgW 0xFFFFFFF4, ArgW 0xFFFFFFFF]"
    "\<forall>d\<in>set ds. directive_ok d" by (simp_all add: ds_def)
  have "directive_text (Conv_d 0xFFFFFFF4) = ''-12''" "directive_text (Conv_i 0xFFFFFFFF) = ''-1''"
    by (simp_all add: sample_texts [unfolded One_nat_def] sample_values int_text_def)
  moreover have "int (length ''fa1x: ok! 42 12- 4294967295'') \<le> INT_MAX" by (simp add: INT_MAX_def)
  ultimately show ?thesis using vprintf_output [OF f(3), of sample_tty, unfolded out f(1,2)] by simp
qed

text \<open>
  A string argument with a 0xFF byte stops \<^verbatim>\<open>printf\<close> behind that byte with the result
  -1, since \<^verbatim>\<open>putchar\<close> returns the sign-extended character and that is \<^verbatim>\<open>EOF\<close>.
\<close>

theorem printf_stops_at_ff:
  assumes "CHR 0xFF \<notin> set a" "CHR 0x00 \<notin> set (a @ b)" "int (length a + length b) < INT_MAX"
  shows "printf ''%s'' [ArgS (a @ CHR 0xFF # b)] t = Some (- 1, terminal_write (a @ [CHR 0xFF]) t)"
proof -
  have arg: "takeWhile (\<lambda>c. c \<noteq> CHR 0x00) b = b" "\<forall>c\<in>set a. c \<noteq> CHR 0x00"
    using assms(2) by (auto simp: takeWhile_eq_all_conv)
  then show ?thesis
    using assms put_loop_eof [OF assms(1), of b 0 t]
    by (simp add: printf_def vprintf_def conv_text_def put_str_def arg)
qed

theorem printf_stops_at_ff_witness:
  "printf ''%s'' [ArgS ([CHR ''a'', CHR 0xFF, CHR ''b''])] sample_tty =
     Some (- 1, terminal_write [CHR ''a'', CHR 0xFF] sample_tty)"
  using printf_stops_at_ff [of "''a''" "''b''" sample_tty] by (simp add: INT_MAX_def)

text \<open>
  C37: with a buffer of at least \<open>n \<ge> 1\<close> bytes \<^verbatim>\<open>vsnprintf\<close> writes the formatted text, cut
  to \<open>n - 1\<close> characters, and a terminator, touches no byte behind it and returns the number
  of characters written.
\<close>

theorem vsnprintf_bounded:
  assumes "sn_text (takeWhile (\<lambda>c. c \<noteq> CHR 0x00) format) ap = Some out"
    and "1 \<le> unat n" "unat n < 2 ^ 31" "unat n \<le> length s" "int (length out) \<le> INT_MAX"
  shows "vsnprintf s n format ap =
    (let k = min (length out) (unat n - 1)
     in Some (int k, take k out @ [CHR 0x00] @ drop (Suc k) s))"
proof -
  have n1: "unat (n - 1) = unat n - 1" using assms(2) by (simp add: unat_sub_u32)
  have "uint (n - 1) = int (unat (n - 1))" by simp
  then have u: "uint (n - 1) = int (unat n) - 1"
    unfolding n1 of_nat_diff [OF assms(2)] by simp
  have "int (unat n) < int (2 ^ 31)" using assms(3) by (simp only: of_nat_less_iff)
  then have "sint n = int (unat n)"
    by (subst sint_uint) (simp add: signed_take_bit_int_eq_self_iff order_trans [OF _ unsigned_greater_eq])
  then show ?thesis
    using vsnprintf_loop_out [OF assms(1), of "[]" "unat n" s n] assms u
    by (simp add: vsnprintf_def sn_result_def Let_def)
qed

theorem vsnprintf_bounded_witness:
  "vsnprintf ''.......'' 6 ''%s-%x'' [ArgS ''abc'', ArgW 0x1F] = Some (5, ''abc-1'' @ [CHR 0x00, CHR ''.''])"
proof -
  have "sn_text (takeWhile (\<lambda>c. c \<noteq> CHR 0x00) ''%s-%x'') [ArgS ''abc'', ArgW 0x1F] = Some ''abc-1f''"
    by code_simp
  from vsnprintf_bounded [OF this, of 6 "''.......''"] show ?thesis by (simp add: INT_MAX_def)
qed

end
