(* ===== verification/Common.thy ===== *)
theory Common
  imports Printf
begin

text \<open>
  Helpers of \<^verbatim>\<open>src/kernel/kernel/core/common.c\<close> that the other components call:
  \<^verbatim>\<open>panic\<close>, which prints and halts the processor with interrupts disabled, and the
  small printing routines. A routine that may panic returns an \<open>outcome\<close>.
\<close>

datatype 's outcome = Running 's | Halted 's

abbreviation nl :: string where "nl \<equiv> [CHR 0x0A]"

definition panic :: "string \<Rightarrow> 'a tty_scheme \<Rightarrow> 'a tty_scheme outcome" where
  "panic message s = Halted (kprint message [] (kprint ''kernel panic: '' [] s))"

definition gdb_stop :: "'a tty_scheme \<Rightarrow> 'a tty_scheme" where
  "gdb_stop s = kprint (''gdb stop'' @ nl) [] s"

text \<open>The loop bound \<^verbatim>\<open>len - str_len\<close> is unsigned.\<close>

definition print_with_leading_zeros :: "u32 \<Rightarrow> string \<Rightarrow> 'a tty_scheme \<Rightarrow> 'a tty_scheme" where
  "print_with_leading_zeros len str s =
     (let str_len = of_nat (length (takeWhile (\<lambda>c. c \<noteq> CHR 0x00) str)) :: u32;
          s = fold (\<lambda>_ s. kprint ''0'' [] s) [0..<unat (len - str_len)] s
      in kprint nl [] (kprint str [] s))"

text \<open>The interrupt frame, \<^verbatim>\<open>struct int_regs\<close> of \<^verbatim>\<open>src/kernel/include/core/isr.h\<close>.\<close>

record int_regs =
  r_edi :: u32
  r_esi :: u32
  r_ebp :: u32
  r_esp :: u32
  r_ebx :: u32
  r_edx :: u32
  r_ecx :: u32
  r_eax :: u32
  r_int_no :: u32
  r_err_code :: u32
  r_eip :: u32
  r_cs :: u32
  r_eflags :: u32
  r_useresp :: u32
  r_ss :: u32

section \<open>Lemmas\<close>

primrec outcome_state :: "'s outcome \<Rightarrow> 's" where
  "outcome_state (Running s) = s"
| "outcome_state (Halted s) = s"

lemma panic_more [simp]: "tty.more (outcome_state (panic msg s)) = tty.more s"
  by (simp add: panic_def)

lemma panic_halts [simp]: "panic msg s \<noteq> Running s'"
  by (simp add: panic_def)

end
