(* ===== verification/Cmem.thy ===== *)
theory Cmem
  imports Prelude
begin

text \<open>
  Byte-addressed memory of the i686 target and the memory and string routines of
  \<^verbatim>\<open>src/libc/string\<close>. Addresses are 32-bit and wrap; multi-byte objects are stored
  little-endian, as the compiler lays out the kernel's packed structures. A routine
  whose loop has no bound (\<^verbatim>\<open>strlen\<close>, \<^verbatim>\<open>strcmp\<close>) is a partial function whose value
  \<open>None\<close> means that it never returns.
\<close>

section \<open>Memory and machine accesses\<close>

type_synonym mem = "u32 \<Rightarrow> u8"

definition load16 :: "mem \<Rightarrow> u32 \<Rightarrow> u16" where
  "load16 m a = ucast (m a) OR push_bit 8 (ucast (m (a + 1)))"

definition load32 :: "mem \<Rightarrow> u32 \<Rightarrow> u32" where
  "load32 m a = ucast (m a) OR push_bit 8 (ucast (m (a + 1)))
     OR push_bit 16 (ucast (m (a + 2))) OR push_bit 24 (ucast (m (a + 3)))"

definition load64 :: "mem \<Rightarrow> u32 \<Rightarrow> u64" where
  "load64 m a = ucast (load32 m a) OR push_bit 32 (ucast (load32 m (a + 4)))"

definition store32 :: "mem \<Rightarrow> u32 \<Rightarrow> u32 \<Rightarrow> mem" where
  "store32 m a v = m(a := ucast v, a + 1 := ucast (drop_bit 8 v),
     a + 2 := ucast (drop_bit 16 v), a + 3 := ucast (drop_bit 24 v))"

definition store64 :: "mem \<Rightarrow> u32 \<Rightarrow> u64 \<Rightarrow> mem" where
  "store64 m a v = store32 (store32 m a (ucast v)) (a + 4) (ucast (drop_bit 32 v))"

definition bytes_at :: "mem \<Rightarrow> u32 \<Rightarrow> nat \<Rightarrow> u8 list" where
  "bytes_at m a n = map (\<lambda>i. m (a + of_nat i)) [0..<n]"

text \<open>The bytes of a C string, up to and excluding its terminator.\<close>

definition cstring_at :: "mem \<Rightarrow> u32 \<Rightarrow> u8 list \<Rightarrow> bool" where
  "cstring_at m a s \<longleftrightarrow> length s < 2 ^ 32 \<and> bytes_at m a (length s) = s
     \<and> m (a + of_nat (length s)) = 0 \<and> 0 \<notin> set s"

text \<open>The effect a copy of \<open>n\<close> bytes is meant to have, whatever overlaps.\<close>

definition block_copy :: "u32 \<Rightarrow> u32 \<Rightarrow> nat \<Rightarrow> mem \<Rightarrow> mem" where
  "block_copy dst src n m = (\<lambda>a. if unat (a - dst) < n then m (src + (a - dst)) else m a)"

definition block_fill :: "u32 \<Rightarrow> u8 \<Rightarrow> nat \<Rightarrow> mem \<Rightarrow> mem" where
  "block_fill buf v n m = (\<lambda>a. if unat (a - buf) < n then v else m a)"

text \<open>Lexicographic comparison of byte strings of equal length.\<close>

fun lex_sign :: "u8 list \<Rightarrow> u8 list \<Rightarrow> int" where
  "lex_sign (x # xs) (y # ys) = (if x < y then - 1 else if y < x then 1 else lex_sign xs ys)"
| "lex_sign _ _ = 0"

section \<open>libc string routines\<close>

definition memcpy :: "u32 \<Rightarrow> u32 \<Rightarrow> u32 \<Rightarrow> mem \<Rightarrow> mem" where
  "memcpy dst src sz m =
     fold (\<lambda>i m. m(dst + of_nat i := m (src + of_nat i))) [0..<unat sz] m"

definition memmove :: "u32 \<Rightarrow> u32 \<Rightarrow> u32 \<Rightarrow> mem \<Rightarrow> mem" where
  "memmove dst src sz m =
     (if dst < src
      then fold (\<lambda>i m. m(dst + of_nat i := m (src + of_nat i))) [0..<unat sz] m
      else fold (\<lambda>i m. m(dst + of_nat i := m (src + of_nat i))) (rev [0..<unat sz]) m)"

definition memset :: "u32 \<Rightarrow> u32 \<Rightarrow> u32 \<Rightarrow> mem \<Rightarrow> mem" where
  "memset buf value sz m = fold (\<lambda>i m. m(buf + of_nat i := ucast value)) [0..<unat sz] m"

fun memcmp_loop :: "mem \<Rightarrow> u32 \<Rightarrow> u32 \<Rightarrow> nat \<Rightarrow> int" where
  "memcmp_loop m a b 0 = 0"
| "memcmp_loop m a b (Suc n) =
     (if m a < m b then - 1 else if m b < m a then 1 else memcmp_loop m (a + 1) (b + 1) n)"

definition memcmp :: "mem \<Rightarrow> u32 \<Rightarrow> u32 \<Rightarrow> u32 \<Rightarrow> int" where
  "memcmp m aptr bptr sz = memcmp_loop m aptr bptr (unat sz)"

fun strncmp_loop :: "mem \<Rightarrow> u32 \<Rightarrow> u32 \<Rightarrow> nat \<Rightarrow> int" where
  "strncmp_loop m a b 0 = 0"
| "strncmp_loop m a b (Suc n) =
     (if m a < m b then - 1 else if m b < m a then 1 else strncmp_loop m (a + 1) (b + 1) n)"

definition strncmp :: "mem \<Rightarrow> u32 \<Rightarrow> u32 \<Rightarrow> u32 \<Rightarrow> int" where
  "strncmp m aptr bptr sz = strncmp_loop m aptr bptr (unat sz)"

partial_function (option) strlen_loop :: "mem \<Rightarrow> u32 \<Rightarrow> u32 \<Rightarrow> u32 option" where
  "strlen_loop m str len = (if m (str + len) \<noteq> 0 then strlen_loop m str (len + 1) else Some len)"

definition strlen :: "mem \<Rightarrow> u32 \<Rightarrow> u32 option" where
  "strlen m str = strlen_loop m str 0"

partial_function (option) strcmp_loop :: "mem \<Rightarrow> u32 \<Rightarrow> u32 \<Rightarrow> u32 \<Rightarrow> int option" where
  "strcmp_loop m a b i =
     (if m (a + i) < m (b + i) then Some (- 1)
      else if m (b + i) < m (a + i) then Some 1
      else if m (a + i) = 0 then Some 0
      else strcmp_loop m a b (i + 1))"

definition strcmp :: "mem \<Rightarrow> u32 \<Rightarrow> u32 \<Rightarrow> int option" where
  "strcmp m aptr bptr = strcmp_loop m aptr bptr 0"

section \<open>Loads and stores\<close>

named_theorems mem_simps \<open>loads over stores\<close>

lemma word_split_bytes:
  "ucast (ucast (v :: u32) :: u8) OR push_bit 8 (ucast (ucast (drop_bit 8 v) :: u8))
     OR push_bit 16 (ucast (ucast (drop_bit 16 v) :: u8))
     OR push_bit 24 (ucast (ucast (drop_bit 24 v) :: u8)) = v" (is "?l = v")
proof (rule bit_word_eqI)
  fix n assume "n < LENGTH(32)"
  then have n: "n < 32" by simp
  consider "n < 8" | "8 \<le> n" "n < 16" | "16 \<le> n" "n < 24" | "24 \<le> n" by linarith
  then show "bit ?l n = bit v n"
    using n by cases (auto simp: bit_simps)
qed

lemma store32_self [mem_simps]: "load32 (store32 m a v) a = v"
  by (simp add: load32_def store32_def word_split_bytes)

lemma store32_byte:
  assumes "k < 2 ^ 32" "p + 4 \<le> 2 ^ 32" "k < p \<or> p + 4 \<le> k"
  shows "store32 m (of_nat p) v (of_nat k) = m (of_nat k)"
proof -
  have "(of_nat k :: u32) \<noteq> of_nat (p + i)" if "i < 4" for i
    using assms that by (subst of_nat_eq_u32) auto
  from this [of 0] this [of 1] this [of 2] this [of 3] show ?thesis
    by (simp add: store32_def add.commute)
qed

text \<open>Two words of memory that do not overlap, at addresses that do not wrap.\<close>

lemma store32_other [mem_simps]:
  assumes "q + 4 \<le> 2 ^ 32" "p + 4 \<le> 2 ^ 32" "q + 4 \<le> p \<or> p + 4 \<le> q"
  shows "load32 (store32 m (of_nat p) v) (of_nat q) = load32 m (of_nat q)"
proof -
  have "store32 m (of_nat p) v (of_nat (q + i)) = m (of_nat (q + i))" if "i < 4" for i
    using assms that by (intro store32_byte) auto
  from this [of 0] this [of 1] this [of 2] this [of 3] show ?thesis
    by (simp add: load32_def add.commute)
qed

section \<open>Copying\<close>

lemma unat_diff_Suc:
  "(unat ((a :: u32) - d) < Suc i) = (unat (a - d) < i \<or> a = d + of_nat i)" if "i < 2 ^ 32"
proof -
  have "(unat (a - d) = i) = (a - d = of_nat i)"
    using that by (metis unat_of_nat_u32 of_nat_unat_u32)
  also have "\<dots> = (a = d + of_nat i)" by (auto simp: algebra_simps)
  finally show ?thesis by (auto simp: less_Suc_eq)
qed

lemma copy_forward:
  assumes "n \<le> 2 ^ 32" and "unat (src - dst) + n \<le> 2 ^ 32"
  shows "fold (\<lambda>i m. m(dst + of_nat i := m (src + of_nat i))) [0..<n] m = block_copy dst src n m"
proof (rule fold_upt_inv [where I = "\<lambda>i m'. m' = block_copy dst src i m"])
  fix i m' assume i: "i < n" and m': "m' = block_copy dst src i m"
  have "src + of_nat i - dst = of_nat (unat (src - dst) + i)" by simp
  then have "unat (src + of_nat i - dst) = unat (src - dst) + i"
    using assms i by (simp add: unat_of_nat_u32 del: of_nat_add)
  then have "m' (src + of_nat i) = m (src + of_nat i)"
    by (simp add: m' block_copy_def)
  then show "m'(dst + of_nat i := m' (src + of_nat i)) = block_copy dst src (Suc i) m"
    using i assms by (auto simp: m' block_copy_def fun_eq_iff unat_diff_Suc)
qed (simp_all add: block_copy_def)

definition copied_above :: "u32 \<Rightarrow> u32 \<Rightarrow> nat \<Rightarrow> nat \<Rightarrow> mem \<Rightarrow> mem" where
  "copied_above dst src k n m =
     (\<lambda>a. if k \<le> unat (a - dst) \<and> unat (a - dst) < n then m (src + (a - dst)) else m a)"

lemma copy_backward_step:
  assumes "unat (dst - src) + n \<le> 2 ^ 32" "k \<le> n"
  shows "fold (\<lambda>i m. m(dst + of_nat i := m (src + of_nat i))) (rev [k..<n]) m =
         copied_above dst src k n m"
  using assms(2)
proof (induction "n - k" arbitrary: k)
  case 0
  then show ?case by (auto simp: copied_above_def fun_eq_iff)
next
  case (Suc d)
  then have k: "k < n" by simp
  then have up: "rev [k..<n] = rev [Suc k..<n] @ [k]" by (simp add: upt_conv_Cons)
  have IH: "fold (\<lambda>i m. m(dst + of_nat i := m (src + of_nat i))) (rev [Suc k..<n]) m =
      copied_above dst src (Suc k) n m"
    by (rule Suc.hyps) (use Suc in auto)
  have k32: "k < 2 ^ 32" using k assms by simp
  have "\<not> (Suc k \<le> unat (src + of_nat k - dst) \<and> unat (src + of_nat k - dst) < n)"
  proof (cases "unat (dst - src) \<le> k")
    case True
    have "src + of_nat k - dst = of_nat k - (dst - src)" by simp
    then have "unat (src + of_nat k - dst) = k - unat (dst - src)"
      using True k32 by (metis unat_of_nat_u32 unat_sub_u32)
    then show ?thesis by auto
  next
    case False
    let ?w = "dst - src - of_nat k"
    have w: "unat ?w = unat (dst - src) - k"
      using False k32 by (metis nat_le_linear unat_of_nat_u32 unat_sub_u32)
    have "src + of_nat k - dst = - ?w" by simp
    then have "unat (src + of_nat k - dst) = 2 ^ 32 - unat ?w"
      using w False by (metis diff_is_0_eq unat_0 unat_uminus_u32)
    then show ?thesis using w False assms k by auto
  qed
  then have "copied_above dst src (Suc k) n m (src + of_nat k) = m (src + of_nat k)"
    by (auto simp: copied_above_def)
  moreover have "(k \<le> unat (a - dst)) = (Suc k \<le> unat (a - dst) \<or> a = dst + of_nat k)" for a
    using unat_diff_Suc [OF k32, of a dst] k32 by (auto simp: unat_of_nat_u32)
  moreover have "unat ((of_nat k :: u32)) < n" using k k32 by (simp add: unat_of_nat_u32)
  ultimately show ?case
    unfolding up fold_append comp_apply IH
    by (auto simp: copied_above_def fun_eq_iff)
qed

lemma copy_backward:
  assumes "unat (dst - src) + n \<le> 2 ^ 32"
  shows "fold (\<lambda>i m. m(dst + of_nat i := m (src + of_nat i))) (rev [0..<n]) m =
         block_copy dst src n m"
  using copy_backward_step [OF assms, of 0 m] by (simp add: copied_above_def block_copy_def)

lemma block_copy_bytes:
  assumes "n \<le> 2 ^ 32"
  shows "bytes_at (block_copy dst src n m) dst n = bytes_at m src n"
  using assms by (auto simp: bytes_at_def block_copy_def unat_of_nat_u32)

lemma memset_fill: "memset buf v sz m = block_fill buf (ucast v) (unat sz) m"
  unfolding memset_def
proof (rule fold_upt_inv [where I = "\<lambda>i m'. m' = block_fill buf (ucast v) i m"])
  fix i m' assume "i < unat sz" and "m' = block_fill buf (ucast v) i m"
  moreover from this have "i < 2 ^ 32" using unat_u32_less [of sz] by simp
  ultimately show "m'(buf + of_nat i := ucast v) = block_fill buf (ucast v) (Suc i) m"
    by (auto simp: block_fill_def fun_eq_iff unat_diff_Suc)
qed (simp_all add: block_fill_def)

lemma memcpy_copy:
  assumes "unat (src - dst) + unat sz \<le> 2 ^ 32"
  shows "memcpy dst src sz m = block_copy dst src (unat sz) m"
  unfolding memcpy_def using assms by (intro copy_forward) simp_all

lemma memmove_copy:
  assumes "unat dst + unat sz \<le> 2 ^ 32" and "unat src + unat sz \<le> 2 ^ 32"
  shows "memmove dst src sz m = block_copy dst src (unat sz) m"
proof (cases "dst < src")
  case True
  then have "unat (src - dst) = unat src - unat dst"
    by (simp add: unat_sub_u32 word_less_nat_alt)
  then show ?thesis
    using True assms unfolding memmove_def by (auto intro!: copy_forward)
next
  case False
  then have "unat (dst - src) = unat dst - unat src"
    by (simp add: unat_sub_u32 word_less_nat_alt)
  then show ?thesis
    using False assms unfolding memmove_def by (auto intro!: copy_backward)
qed

section \<open>Comparing and measuring\<close>

lemma bytes_at_Suc: "bytes_at m a (Suc n) = m a # bytes_at m (a + 1) n"
  unfolding bytes_at_def upt_conv_Cons [OF zero_less_Suc] map_Suc_upt [symmetric] list.map map_map
  by (simp add: comp_def algebra_simps)

lemma memcmp_lex: "memcmp_loop m a b n = lex_sign (bytes_at m a n) (bytes_at m b n)"
  by (induction n arbitrary: a b) (simp_all add: bytes_at_Suc bytes_at_def [where n = 0])

lemma strncmp_memcmp: "strncmp_loop m a b n = memcmp_loop m a b n"
  by (induction n arbitrary: a b) simp_all

lemma lex_sign_zero: "length xs = length ys \<Longrightarrow> (lex_sign xs ys = 0) = (xs = ys)"
  by (induction xs ys rule: lex_sign.induct) auto

lemma cstring_at_nonzero: "cstring_at m a s \<Longrightarrow> i < length s \<Longrightarrow> m (a + of_nat i) \<noteq> 0"
  unfolding cstring_at_def bytes_at_def by (metis (no_types, lifting) add.left_neutral
      diff_zero length_map length_upt nth_map nth_mem nth_upt)

lemma strlen_loop_stop:
  assumes "cstring_at m a s" "i \<le> length s"
  shows "strlen_loop m a (of_nat i) = Some (of_nat (length s))"
  using assms(2)
proof (induction "length s - i" arbitrary: i)
  case 0
  then show ?case using assms(1)
    by (subst strlen_loop.simps) (simp add: cstring_at_def)
next
  case (Suc d)
  have "strlen_loop m a (of_nat (Suc i)) = Some (of_nat (length s))"
    by (rule Suc.hyps(1)) (use Suc in auto)
  moreover have "m (a + of_nat i) \<noteq> 0"
    using cstring_at_nonzero [OF assms(1)] Suc by simp
  ultimately show ?case
    by (subst strlen_loop.simps) (simp add: add.commute)
qed

lemma strlen_cstring: "cstring_at m a s \<Longrightarrow> strlen m a = Some (of_nat (length s))"
  using strlen_loop_stop [of m a s 0] by (simp add: strlen_def)

lemma cstring_at_byte:
  assumes "cstring_at m a s" "i \<le> length s"
  shows "m (a + of_nat i) = (s @ [0]) ! i"
proof (cases "i = length s")
  case True
  then show ?thesis using assms(1) by (simp add: cstring_at_def)
next
  case False
  with assms(2) have i: "i < length s" by simp
  have "s ! i = bytes_at m a (length s) ! i" using assms(1) by (simp add: cstring_at_def)
  with i show ?thesis by (simp add: bytes_at_def nth_append)
qed

lemma strcmp_loop_lex:
  assumes a: "cstring_at m a s" and b: "cstring_at m b t"
  shows "i \<le> length s \<Longrightarrow> i \<le> length t \<Longrightarrow>
    strcmp_loop m a b (of_nat i) = Some (lex_sign (drop i (s @ [0])) (drop i (t @ [0])))"
proof (induction "length s - i" arbitrary: i)
  case 0
  then have "drop i (s @ [0]) = [0]" by simp
  moreover have "drop i (t @ [0]) = (t @ [0]) ! i # drop (Suc i) (t @ [0])"
    using 0 by (simp add: Cons_nth_drop_Suc del: drop_append)
  moreover have "m (a + of_nat i) = 0" "m (b + of_nat i) = (t @ [0]) ! i"
    using cstring_at_byte [OF a, of i] cstring_at_byte [OF b, of i] 0 by auto
  ultimately show ?case
    by (subst strcmp_loop.simps) (simp add: word_less_nat_alt unat_0_iff)
next
  case (Suc d)
  then have i: "i < length s" by simp
  have xs: "drop i (s @ [0]) = (s @ [0]) ! i # drop (Suc i) (s @ [0])"
    "drop i (t @ [0]) = (t @ [0]) ! i # drop (Suc i) (t @ [0])"
    using i Suc.prems by (simp_all add: Cons_nth_drop_Suc del: drop_append)
  have bytes: "m (a + of_nat i) = (s @ [0]) ! i" "m (b + of_nat i) = (t @ [0]) ! i"
    using cstring_at_byte [OF a, of i] cstring_at_byte [OF b, of i] Suc.prems by simp_all
  have nz: "m (a + of_nat i) \<noteq> 0" using cstring_at_nonzero [OF a i] .
  show ?case
  proof (cases "m (a + of_nat i) = m (b + of_nat i)")
    case True
    with nz bytes have "i \<noteq> length t" by auto
    with Suc have "strcmp_loop m a b (of_nat (Suc i)) =
        Some (lex_sign (drop (Suc i) (s @ [0])) (drop (Suc i) (t @ [0])))"
      by (intro Suc.hyps(1)) auto
    then show ?thesis using True nz bytes xs
      by (subst strcmp_loop.simps) (simp add: add.commute del: drop_append)
  next
    case False
    then show ?thesis using bytes xs
      by (subst strcmp_loop.simps) (auto simp del: drop_append)
  qed
qed

lemma lex_sign_cstrings:
  assumes "0 \<notin> set s" "0 \<notin> set t"
  shows "(lex_sign (s @ [0]) (t @ [0]) = 0) = (s = t)"
  using assms
proof (induction s t rule: list_induct2')
  case (2 x xs)
  then show ?case by (auto simp: word_less_nat_alt unat_0_iff)
next
  case (3 y ys)
  then show ?case by (auto simp: word_less_nat_alt unat_0_iff)
qed auto

section \<open>Properties\<close>

text \<open>
  C39: \<^verbatim>\<open>memmove\<close> copies correctly whether or not the regions overlap: afterwards the
  destination holds what the source held before, and no byte outside it changed.
\<close>

theorem memmove_correct:
  assumes "unat dst + unat sz \<le> 2 ^ 32" "unat src + unat sz \<le> 2 ^ 32"
  shows "bytes_at (memmove dst src sz m) dst (unat sz) = bytes_at m src (unat sz) \<and>
    (\<forall>a. \<not> unat (a - dst) < unat sz \<longrightarrow> memmove dst src sz m a = m a)"
  unfolding memmove_copy [OF assms]
  using block_copy_bytes [of "unat sz"] unat_u32_less [of sz] by (simp add: block_copy_def)

theorem memmove_correct_witness:
  "bytes_at (memmove 0x102 0x100 3 ((\<lambda>_. 0)(0x100 := 1, 0x101 := 2, 0x102 := 3))) 0x102 3 = [1, 2, 3]"
  using memmove_correct [of "0x102" 3 "0x100" "(\<lambda>_. 0)(0x100 := 1, 0x101 := 2, 0x102 := 3)"]
  by (simp add: bytes_at_def upt_rec)

text \<open>
  C40: \<^verbatim>\<open>strlen\<close> and \<^verbatim>\<open>strcmp\<close> return on C strings: the length, and the sign of the
  lexicographic comparison of the unsigned bytes, which is 0 exactly for equal strings.
\<close>

theorem strlen_strcmp_correct:
  assumes "cstring_at m a s" "cstring_at m b t"
  shows "strlen m a = Some (of_nat (length s)) \<and>
    strcmp m a b = Some (lex_sign (s @ [0]) (t @ [0])) \<and> (strcmp m a b = Some 0 \<longleftrightarrow> s = t)"
proof -
  have "strcmp m a b = Some (lex_sign (s @ [0]) (t @ [0]))"
    using strcmp_loop_lex [OF assms, of 0] by (simp add: strcmp_def)
  moreover have "0 \<notin> set s" "0 \<notin> set t" using assms by (simp_all add: cstring_at_def)
  ultimately show ?thesis using strlen_cstring [OF assms(1)] lex_sign_cstrings [of s t] by simp
qed

theorem strlen_strcmp_correct_witness:
  "strlen ((\<lambda>_. 0)(0x10 := 65, 0x11 := 66, 0x20 := 65)) 0x10 = Some 2 \<and>
   strcmp ((\<lambda>_. 0)(0x10 := 65, 0x11 := 66, 0x20 := 65)) 0x10 0x20 = Some 1"
proof -
  let ?m = "(\<lambda>_. 0)(0x10 := 65, 0x11 := 66, 0x20 := 65) :: mem"
  have "cstring_at ?m 0x10 [65, 66]" "cstring_at ?m 0x20 [65]"
    by (simp_all add: cstring_at_def bytes_at_def)
  from strlen_strcmp_correct [OF this] show ?thesis by simp
qed

text \<open>
  \<^verbatim>\<open>strncmp\<close> compares like \<^verbatim>\<open>memcmp\<close>: all \<^verbatim>\<open>size\<close> bytes count, also those behind a
  terminator, and the result is 0 exactly when all of them agree.
\<close>

theorem strncmp_compares_all:
  "strncmp m a b sz = memcmp m a b sz \<and>
   strncmp m a b sz = lex_sign (bytes_at m a (unat sz)) (bytes_at m b (unat sz)) \<and>
   (strncmp m a b sz = 0 \<longleftrightarrow> bytes_at m a (unat sz) = bytes_at m b (unat sz))"
proof -
  have "length (bytes_at m a (unat sz)) = length (bytes_at m b (unat sz))" by (simp add: bytes_at_def)
  from lex_sign_zero [OF this] show ?thesis
    by (simp add: strncmp_def memcmp_def strncmp_memcmp memcmp_lex)
qed

end
