(* ===== verification/Frames.thy ===== *)
theory Frames
  imports Common Cmem
begin

text \<open>
  The physical frame allocator of \<^verbatim>\<open>src/kernel/kernel/mm/paging.c\<close>: a bitmap with one bit
  per 4 KiB frame of the 4 GiB physical address space, \<^verbatim>\<open>alloc_pages\<close>, \<^verbatim>\<open>free_pages\<close>,
  \<^verbatim>\<open>reserve\<close> and the walk over the Multiboot memory map. The search loop of
  \<^verbatim>\<open>alloc_pages\<close> does not always end (its counter wraps in the high-memory case), so it is
  a partial function: \<open>None\<close> is "never returns".
\<close>

section \<open>Constants and macros\<close>

definition PAGE_SIZE :: u32 where "PAGE_SIZE = 0x1000"

definition PAGE_TABLE_SIZE :: u32 where "PAGE_TABLE_SIZE = 0x400000"

definition EOM :: u32 where "EOM = 0xFFFFFFFF"

definition KERN_START_TBL :: nat where "KERN_START_TBL = 768"

definition KERN_HIGHMEM_START_TBL :: nat where "KERN_HIGHMEM_START_TBL = 992"

definition KERN_IDENTITY_PHYS_END :: u32 where
  "KERN_IDENTITY_PHYS_END =
     of_nat (KERN_HIGHMEM_START_TBL - KERN_START_TBL) * PAGE_TABLE_SIZE"

definition PAGE_FRAME :: "u32 \<Rightarrow> u32" where "PAGE_FRAME x = x div 0x1000"

definition PAGE_FRAME_BITMAP_IDX :: "u32 \<Rightarrow> u32" where "PAGE_FRAME_BITMAP_IDX x = x div 8"

definition PAGE_FRAME_BITMAP_OFF :: "u32 \<Rightarrow> u32" where "PAGE_FRAME_BITMAP_OFF x = x mod 8"

definition PAGE_PADDR :: "u32 \<Rightarrow> u32" where "PAGE_PADDR x = x * 0x1000"

definition PAGE_ROUND_DOWN :: "u32 \<Rightarrow> u32" where "PAGE_ROUND_DOWN x = x AND 0xFFFFF000"

definition PAGE_ROUND_UP :: "u32 \<Rightarrow> u32" where
  "PAGE_ROUND_UP x = (if x mod 0x1000 \<noteq> 0 then (x AND 0xFFFFF000) + 0x1000 else x)"

definition KV2P :: "u32 \<Rightarrow> u32" where "KV2P x = x - 0xC0000000"

definition KP2V :: "u32 \<Rightarrow> u32" where "KP2V x = x + 0xC0000000"

definition PMM_FLAGS_DEFAULT :: u8 where "PMM_FLAGS_DEFAULT = 0"

definition PMM_FLAGS_HIGHMEM :: u8 where "PMM_FLAGS_HIGHMEM = 1"

section \<open>Bitmap\<close>

record pmm = tty +
  framemap :: "u32 \<Rightarrow> u8"

definition set_frame :: "u32 \<Rightarrow> 'a pmm_scheme \<Rightarrow> 'a pmm_scheme" where
  "set_frame addr s =
     (let frame = PAGE_FRAME addr;
          index = PAGE_FRAME_BITMAP_IDX frame;
          offset = PAGE_FRAME_BITMAP_OFF frame
      in s\<lparr>framemap := (framemap s)(index := framemap s index OR push_bit (unat offset) 1)\<rparr>)"

definition clear_frame :: "u32 \<Rightarrow> 'a pmm_scheme \<Rightarrow> 'a pmm_scheme" where
  "clear_frame addr s =
     (let frame = PAGE_FRAME addr;
          index = PAGE_FRAME_BITMAP_IDX frame;
          offset = PAGE_FRAME_BITMAP_OFF frame
      in s\<lparr>framemap := (framemap s)(index := framemap s index AND NOT (push_bit (unat offset) 1))\<rparr>)"

definition test_frame :: "u32 \<Rightarrow> 'a pmm_scheme \<Rightarrow> bool" where
  "test_frame addr s =
     (let frame = PAGE_FRAME addr;
          index = PAGE_FRAME_BITMAP_IDX frame;
          offset = PAGE_FRAME_BITMAP_OFF frame
      in framemap s index AND push_bit (unat offset) 1 \<noteq> 0)"

section \<open>Allocation\<close>

partial_function (option) alloc_loop ::
    "'a pmm_scheme \<Rightarrow> u32 \<Rightarrow> u32 \<Rightarrow> u32 \<Rightarrow> u32 \<Rightarrow> (u32 \<times> 'a pmm_scheme) option" where
  "alloc_loop s count limit paddr contig =
     (if paddr < limit
      then if \<not> test_frame paddr s
           then if contig + 1 = count
                then (let base = paddr - PAGE_PADDR (count - 1)
                      in Some (base, fold (\<lambda>i. set_frame (base + of_nat i * PAGE_SIZE))
                                       [0..<unat count] s))
                else alloc_loop s count limit (paddr + PAGE_SIZE) (contig + 1)
           else alloc_loop s count limit (paddr + PAGE_SIZE) 0
      else Some (0, s))"

definition alloc_pages :: "u8 \<Rightarrow> u32 \<Rightarrow> 'a pmm_scheme \<Rightarrow> (u32 \<times> 'a pmm_scheme) option" where
  "alloc_pages flags count s =
     (if flags AND PMM_FLAGS_HIGHMEM \<noteq> 0
      then alloc_loop s count EOM KERN_IDENTITY_PHYS_END 0
      else alloc_loop s count KERN_IDENTITY_PHYS_END 0 0)"

definition free_pages :: "u32 \<Rightarrow> u32 \<Rightarrow> 'a pmm_scheme \<Rightarrow> 'a pmm_scheme" where
  "free_pages frame count s =
     (let paddr = frame * PAGE_SIZE
      in fold (\<lambda>i. clear_frame (paddr + of_nat i * PAGE_SIZE)) [0..<unat count] s)"

section \<open>Reservation\<close>

text \<open>The loop counter of \<^verbatim>\<open>reserve\<close> has 64 bits and cannot wrap.\<close>

function reserve_loop :: "nat \<Rightarrow> nat \<Rightarrow> 'a pmm_scheme \<Rightarrow> 'a pmm_scheme" where
  "reserve_loop addr limit s =
     (if addr < limit then reserve_loop (addr + 4096) limit (set_frame (of_nat addr) s) else s)"
  by pat_completeness auto
termination
  by (relation "measure (\<lambda>(addr, limit, s). limit - addr)") auto

declare reserve_loop.simps [simp del]

definition reserve :: "u32 \<Rightarrow> u32 \<Rightarrow> 'a pmm_scheme \<Rightarrow> 'a pmm_scheme" where
  "reserve start len s =
     (let start = PAGE_ROUND_DOWN start;
          len = PAGE_ROUND_UP len;
          limit = start + len - 1
      in reserve_loop (unat start) (unat limit) s)"

definition mmap_type_name :: "u32 \<Rightarrow> string" where
  "mmap_type_name ty =
     (if ty = 1 then ''Available'' else if ty = 2 then ''Reserved''
      else if ty = 3 then ''ACPI Reclaimable'' else if ty = 4 then ''NVS''
      else if ty = 5 then ''Bad Memory'' else ''Unknown'')"

text \<open>
  One entry of the memory map, \<^verbatim>\<open>struct multiboot_mmap_entry\<close>: \<^verbatim>\<open>size\<close>, \<^verbatim>\<open>addr_low\<close>,
  \<^verbatim>\<open>addr_high\<close>, \<^verbatim>\<open>len_low\<close>, \<^verbatim>\<open>len_high\<close>, \<^verbatim>\<open>type\<close> at offsets 0 to 20.
\<close>

definition reserve_entry :: "mem \<Rightarrow> u32 \<Rightarrow> 'a pmm_scheme \<Rightarrow> 'a pmm_scheme" where
  "reserve_entry m mmap s =
     (let addr_low = load32 m (mmap + 4); addr_high = load32 m (mmap + 8);
          len_low = load32 m (mmap + 12); len_high = load32 m (mmap + 16);
          ty = load32 m (mmap + 20);
          s = kprint (''Base Address: 0x%x%x | Length: 0x%x%x | Type: %s'' @ nl)
                [ArgW addr_high, ArgW addr_low, ArgW len_high, ArgW len_low,
                 ArgS (mmap_type_name ty)] s
      in if ty \<noteq> 1 then reserve addr_low len_low s else s)"

partial_function (option) mem_map_loop ::
    "mem \<Rightarrow> u32 \<Rightarrow> u32 \<Rightarrow> u32 \<Rightarrow> 'a pmm_scheme \<Rightarrow> 'a pmm_scheme option" where
  "mem_map_loop m mmap_addr mmap_length i s =
     (if i < mmap_length
      then mem_map_loop m mmap_addr mmap_length (i + 24)
             (reserve_entry m (mmap_addr + i + 0xC0000000) s)
      else Some s)"

text \<open>The Multiboot information structure: \<^verbatim>\<open>flags\<close> at 0, \<^verbatim>\<open>mmap_length\<close> at 44, \<^verbatim>\<open>mmap_addr\<close> at 48.\<close>

definition reserve_mem_map :: "mem \<Rightarrow> u32 \<Rightarrow> 'a pmm_scheme \<Rightarrow> 'a pmm_scheme outcome option" where
  "reserve_mem_map m mbd s =
     (let mbd = mbd + 0xC0000000
      in if load32 m mbd AND 0x20 = 0
         then Some (panic ''No memory map provided'' s)
         else map_option Running
                (mem_map_loop m (load32 m (mbd + 48)) (load32 m (mbd + 44)) 0 s))"

section \<open>Frames as numbers\<close>

text \<open>The bitmap read as a predicate on frame numbers below \<open>2 ^ 20\<close>.\<close>

definition frame_used :: "'a pmm_scheme \<Rightarrow> nat \<Rightarrow> bool" where
  "frame_used s f = bit (framemap s (of_nat (f div 8))) (f mod 8)"

definition free_run :: "'a pmm_scheme \<Rightarrow> nat \<Rightarrow> nat \<Rightarrow> bool" where
  "free_run s f n \<longleftrightarrow> (\<forall>i<n. \<not> frame_used s (f + i))"

abbreviation LOW_FRAMES :: nat where "LOW_FRAMES \<equiv> 0x38000"

abbreviation ALL_FRAMES :: nat where "ALL_FRAMES \<equiv> 0x100000"

text \<open>
  The contract of the allocator, on frame numbers: the first run of \<open>c\<close> frames free
  in \<open>[lo, hi)\<close>.
\<close>

definition first_fit :: "'a pmm_scheme \<Rightarrow> nat \<Rightarrow> nat \<Rightarrow> nat \<Rightarrow> nat option" where
  "first_fit s lo hi c = find (\<lambda>f. free_run s f c) [lo..<Suc hi - c]"

text \<open>\<open>marked s s' f c\<close>: \<open>s'\<close> is \<open>s\<close> with exactly the frames \<open>[f, f + c)\<close> taken.\<close>

definition marked :: "'a pmm_scheme \<Rightarrow> 'a pmm_scheme \<Rightarrow> nat \<Rightarrow> nat \<Rightarrow> bool" where
  "marked s s' f c \<longleftrightarrow> s' = s\<lparr>framemap := framemap s'\<rparr> \<and>
     (\<forall>g<ALL_FRAMES. frame_used s' g = (f \<le> g \<and> g < f + c \<or> frame_used s g))"

definition frame_addr :: "nat \<Rightarrow> u32" where
  "frame_addr f = of_nat (f * 4096)"

section \<open>Lemmas on the bitmap\<close>

lemma identity_end: "KERN_IDENTITY_PHYS_END = 0x38000000"
  by (simp add: KERN_IDENTITY_PHYS_END_def KERN_HIGHMEM_START_TBL_def KERN_START_TBL_def
      PAGE_TABLE_SIZE_def)

lemma unat_PAGE_FRAME: "unat (PAGE_FRAME a) = unat a div 4096"
  by (simp add: PAGE_FRAME_def unat_div)

lemma bitmap_index: "PAGE_FRAME_BITMAP_IDX (PAGE_FRAME a) = of_nat (unat a div 4096 div 8)"
  unfolding word_unat_eq_iff PAGE_FRAME_BITMAP_IDX_def unat_div unat_PAGE_FRAME
  using unat_u32_less [of a] by (simp add: unat_of_nat_u32)

lemma bitmap_offset: "unat (PAGE_FRAME_BITMAP_OFF (PAGE_FRAME a)) = unat a div 4096 mod 8"
  by (simp add: PAGE_FRAME_BITMAP_OFF_def unat_mod unat_PAGE_FRAME)

lemma frame_number_less: "unat (a :: u32) div 4096 < ALL_FRAMES"
  using unat_u32_less [of a] by (simp add: div_less_iff_less_mult)

lemma test_frame_used: "test_frame a s = frame_used s (unat a div 4096)"
proof -
  have "(w AND push_bit n 1 \<noteq> 0) = bit w n" if "n < 8" for w :: u8 and n
    using that by (simp add: bit_iff_and_push_bit_not_eq_0)
  then show ?thesis
    by (simp add: test_frame_def frame_used_def bitmap_index bitmap_offset Let_def)
qed

lemma same_cell:
  assumes "f < ALL_FRAMES" "g < ALL_FRAMES"
  shows "((of_nat (f div 8) :: u32) = of_nat (g div 8)) = (f div 8 = g div 8)"
  using assms by (intro of_nat_eq_u32) auto

lemma frame_eq_iff: "(f = g) = (f div 8 = g div 8 \<and> f mod 8 = g mod (8 :: nat))"
  by (metis div_mult_mod_eq)

lemma frame_used_set:
  assumes "f < ALL_FRAMES"
  shows "frame_used (set_frame a s) f = (f = unat a div 4096 \<or> frame_used s f)"
  using same_cell [OF assms frame_number_less, of a] frame_eq_iff [of f "unat a div 4096"]
  by (auto simp: set_frame_def frame_used_def bitmap_index bitmap_offset Let_def bit_simps)

lemma frame_used_clear:
  assumes "f < ALL_FRAMES"
  shows "frame_used (clear_frame a s) f = (f \<noteq> unat a div 4096 \<and> frame_used s f)"
  using same_cell [OF assms frame_number_less, of a] frame_eq_iff [of f "unat a div 4096"]
  by (auto simp: clear_frame_def frame_used_def bitmap_index bitmap_offset Let_def bit_simps)

lemma bitmap_in_bounds: "unat (PAGE_FRAME_BITMAP_IDX (PAGE_FRAME a)) < ALL_FRAMES div 8"
  using frame_number_less [of a] unat_u32_less [of a]
  by (simp add: bitmap_index unat_of_nat_u32 div_less_iff_less_mult)

lemma unat_frame_addr: "f < ALL_FRAMES \<Longrightarrow> unat (frame_addr f) = f * 4096"
  unfolding frame_addr_def by (rule unat_of_nat_u32) simp

lemma frame_addr_add: "frame_addr f + of_nat i * PAGE_SIZE = frame_addr (f + i)"
  by (simp add: frame_addr_def PAGE_SIZE_def algebra_simps)

lemma frame_addr_next: "frame_addr f + PAGE_SIZE = frame_addr (Suc f)"
  using frame_addr_add [of f 1] by simp

lemma frame_used_set_run:
  assumes "f < ALL_FRAMES" "b + n \<le> ALL_FRAMES"
  shows "frame_used (fold (\<lambda>i. set_frame (frame_addr b + of_nat i * PAGE_SIZE)) [0..<n] s) f =
         ((b \<le> f \<and> f < b + n) \<or> frame_used s f)"
  using assms(2)
proof (induction n)
  case (Suc n)
  then have "unat (frame_addr (b + n)) div 4096 = b + n" by (simp add: unat_frame_addr)
  with Suc assms(1) show ?case
    by (auto simp: frame_used_set frame_addr_add)
qed auto

lemma frame_used_clear_run:
  assumes "f < ALL_FRAMES" "b + n \<le> ALL_FRAMES"
  shows "frame_used (fold (\<lambda>i. clear_frame (frame_addr b + of_nat i * PAGE_SIZE)) [0..<n] s) f =
         (\<not> (b \<le> f \<and> f < b + n) \<and> frame_used s f)"
  using assms(2)
proof (induction n)
  case (Suc n)
  then have "unat (frame_addr (b + n)) div 4096 = b + n" by (simp add: unat_frame_addr)
  with Suc assms(1) show ?case
    by (auto simp: frame_used_clear frame_addr_add)
qed auto
section \<open>The search loop\<close>

text \<open>
  The state of the search between two frames: \<open>k\<close> free frames end at \<open>p\<close>, and
  before them lies a used frame or the start \<open>lo\<close> of the region.
\<close>

definition searching :: "'a pmm_scheme \<Rightarrow> nat \<Rightarrow> nat \<Rightarrow> nat \<Rightarrow> bool" where
  "searching s lo p k \<longleftrightarrow> lo + k \<le> p \<and> free_run s (p - k) k \<and> (p - k = lo \<or> frame_used s (p - k - 1))"

lemma searching_start: "searching s lo lo 0"
  by (simp add: searching_def free_run_def)

lemma searching_free:
  assumes "searching s lo p k" "\<not> frame_used s p"
  shows "searching s lo (Suc p) (Suc k)"
  using assms by (auto simp: searching_def free_run_def less_Suc_eq)

lemma searching_used: "frame_used s p \<Longrightarrow> lo \<le> p \<Longrightarrow> searching s lo (Suc p) 0"
  by (simp add: searching_def free_run_def)

lemma searching_le: "searching s lo p k \<Longrightarrow> lo \<le> p"
  by (simp add: searching_def)

lemma used_before_run: "frame_used s p \<Longrightarrow> free_run s f c \<Longrightarrow> p < f + c \<Longrightarrow> p < f"
  by (rule ccontr) (auto simp: free_run_def not_less le_iff_add)

text \<open>A run of \<open>c > k\<close> free frames cannot end at \<open>p\<close>.\<close>

lemma searching_no_run:
  assumes "searching s lo p k" "k < c" "lo \<le> f" "f + c = p"
  shows "\<not> free_run s f c"
proof
  assume run: "free_run s f c"
  from assms have "p - k \<noteq> lo" "p - k - 1 - f < c" "f + (p - k - 1 - f) = p - k - 1"
    by (auto simp: searching_def)
  moreover from this have "frame_used s (p - k - 1)"
    using assms by (auto simp: searching_def)
  ultimately show False using run by (metis free_run_def)
qed

lemma alloc_loop_step:
  assumes "p < ALL_FRAMES" "frame_addr p < limit" "Suc k \<le> unat count"
  shows "alloc_loop s count limit (frame_addr p) (of_nat k) =
    (if frame_used s p then alloc_loop s count limit (frame_addr (Suc p)) 0
     else if Suc k = unat count
          then (let base = frame_addr p - PAGE_PADDR (count - 1)
                in Some (base, fold (\<lambda>i. set_frame (base + of_nat i * PAGE_SIZE)) [0..<unat count] s))
          else alloc_loop s count limit (frame_addr (Suc p)) (of_nat (Suc k)))"
proof -
  have "test_frame (frame_addr p) s = frame_used s p"
    using assms(1) by (simp add: test_frame_used unat_frame_addr)
  moreover have suc: "of_nat k + 1 = (of_nat (Suc k) :: u32)" by simp
  moreover have "(of_nat (Suc k) = count) = (Suc k = unat count)"
  proof -
    have "Suc k < 2 ^ 32" "unat count < 2 ^ 32" using assms(3) unat_u32_less [of count] by auto
    from of_nat_eq_u32 [OF this] show ?thesis by (simp only: of_nat_unat_u32)
  qed
  ultimately show ?thesis
    using assms(2)
    by (subst alloc_loop.simps) (simp del: of_nat_Suc add: frame_addr_next suc)
qed

lemma alloc_base:
  assumes "0 < unat count" "f + unat count = Suc p"
  shows "frame_addr p - PAGE_PADDR (count - 1) = frame_addr f"
proof -
  have "unat (count - 1) = unat count - 1" using assms(1) by (simp add: unat_sub_u32)
  then have "PAGE_PADDR (count - 1) = of_nat ((unat count - 1) * 4096)"
    by (metis PAGE_PADDR_def of_nat_mult of_nat_numeral of_nat_unat_u32)
  moreover have "p = f + (unat count - 1)" using assms by simp
  ultimately show ?thesis by (simp add: frame_addr_def algebra_simps)
qed

text \<open>The search finds the first run that is long enough.\<close>

lemma alloc_loop_hit:
  assumes "searching s lo p k" "k < unat count" "hi \<le> ALL_FRAMES"
    and "\<And>q. q < hi \<Longrightarrow> frame_addr q < limit"
    and "free_run s f (unat count)" "p < f + unat count" "f + unat count \<le> hi"
    and "\<And>g. lo \<le> g \<Longrightarrow> free_run s g (unat count) \<Longrightarrow> f \<le> g" "lo \<le> f"
  shows "alloc_loop s count limit (frame_addr p) (of_nat k) =
    Some (frame_addr f, fold (\<lambda>i. set_frame (frame_addr f + of_nat i * PAGE_SIZE)) [0..<unat count] s)"
  using assms(1,2,6)
proof (induction "hi - p" arbitrary: p k rule: less_induct)
  case less
  have p: "p < hi" "p < ALL_FRAMES" using less.prems(3) assms(3,7) by auto
  note step = alloc_loop_step [OF p(2) assms(4) [OF p(1)], of k count s]
  consider "frame_used s p" | "\<not> frame_used s p" "Suc k < unat count"
    | "\<not> frame_used s p" "Suc k = unat count"
    using less.prems(2) by linarith
  then show ?case
  proof cases
    case 1
    have "p < f" using 1 assms(5) less.prems(3) by (rule used_before_run)
    then have "Suc p < f + unat count" using less.prems(2) by simp
    moreover have "searching s lo (Suc p) 0"
      using 1 searching_le [OF less.prems(1)] by (rule searching_used)
    ultimately show ?thesis using less.hyps [of "Suc p" 0] p 1 step less.prems(2) by simp
  next
    case 2
    have next_run: "searching s lo (Suc p) (Suc k)"
      using less.prems(1) 2(1) by (rule searching_free)
    then have "Suc p \<noteq> f + unat count"
      using searching_no_run [OF next_run 2(2) assms(9)] assms(5) by auto
    then show ?thesis using less.hyps [of "Suc p" "Suc k"] p 2 step less.prems next_run by simp
  next
    case 3
    then have next_run: "searching s lo (Suc p) (unat count)"
      using searching_free [OF less.prems(1)] by simp
    then have "f \<le> Suc p - unat count" "unat count \<le> Suc p"
      using assms(8) [of "Suc p - unat count"] by (auto simp: searching_def)
    then have "f + unat count = Suc p" using less.prems(3) by simp
    then show ?thesis using 3 step alloc_base [of count f p] by (simp add: Let_def)
  qed
qed

lemma alloc_loop_miss:
  assumes "searching s lo p k" "k < unat count" "hi \<le> ALL_FRAMES" "p \<le> hi"
    and "\<And>q. q < hi \<Longrightarrow> frame_addr q < limit"
    and "\<And>g. lo \<le> g \<Longrightarrow> g + unat count \<le> hi \<Longrightarrow> \<not> free_run s g (unat count)"
  shows "\<exists>k'. k' < unat count \<and> searching s lo hi k' \<and>
    alloc_loop s count limit (frame_addr p) (of_nat k) =
    alloc_loop s count limit (frame_addr hi) (of_nat k')"
  using assms(1,2,4)
proof (induction "hi - p" arbitrary: p k rule: less_induct)
  case less
  show ?case
  proof (cases "p = hi")
    case False
    with less.prems(3) have p: "p < hi" "p < ALL_FRAMES" using assms(3) by auto
    note step = alloc_loop_step [OF p(2) assms(5) [OF p(1)], of k count s]
    show ?thesis
    proof (cases "frame_used s p")
      case True
      then have "searching s lo (Suc p) 0"
        using searching_le [OF less.prems(1)] by (rule searching_used)
      then show ?thesis using less.hyps [of "Suc p" 0] p True step less.prems(2) by simp
    next
      case free: False
      have next_run: "searching s lo (Suc p) (Suc k)" using less.prems(1) free by (rule searching_free)
      have "Suc k \<noteq> unat count"
        using next_run assms(6) [of "Suc p - Suc k"] p(1) by (auto simp: searching_def)
      then show ?thesis using less.hyps [of "Suc p" "Suc k"] p free step less.prems next_run by simp
    qed
  qed (use less.prems in auto)
qed


section \<open>Allocation\<close>

lemma first_fit_Some:
  "first_fit s lo hi c = Some f \<longleftrightarrow>
     lo \<le> f \<and> f + c < Suc hi \<and> free_run s f c \<and> (\<forall>g. lo \<le> g \<longrightarrow> g < f \<longrightarrow> \<not> free_run s g c)"
proof
  assume "first_fit s lo hi c = Some f"
  then obtain i where i: "i < length [lo..<Suc hi - c]" "free_run s ([lo..<Suc hi - c] ! i) c"
    "f = [lo..<Suc hi - c] ! i" "\<forall>j<i. \<not> free_run s ([lo..<Suc hi - c] ! j) c"
    unfolding first_fit_def find_Some_iff by blast
  have "\<not> free_run s g c" if "lo \<le> g" "g < f" for g
    using i(1,3,4) that by (auto dest: spec [of _ "g - lo"])
  with i show "lo \<le> f \<and> f + c < Suc hi \<and> free_run s f c \<and> (\<forall>g. lo \<le> g \<longrightarrow> g < f \<longrightarrow> \<not> free_run s g c)"
    by auto
next
  assume "lo \<le> f \<and> f + c < Suc hi \<and> free_run s f c \<and> (\<forall>g. lo \<le> g \<longrightarrow> g < f \<longrightarrow> \<not> free_run s g c)"
  then show "first_fit s lo hi c = Some f"
    unfolding first_fit_def find_Some_iff by (intro exI [of _ "f - lo"]) auto
qed

lemma first_fit_None:
  "first_fit s lo hi c = None \<longleftrightarrow> (\<forall>g. lo \<le> g \<longrightarrow> g + c \<le> hi \<longrightarrow> \<not> free_run s g c)"
  unfolding first_fit_def find_None_iff by auto

lemma set_frame_more: "set_frame a s = s\<lparr>framemap := framemap (set_frame a s)\<rparr>"
  by (simp add: set_frame_def Let_def)

lemma clear_frame_more: "clear_frame a s = s\<lparr>framemap := framemap (clear_frame a s)\<rparr>"
  by (simp add: clear_frame_def Let_def)

lemma fold_framemap:
  assumes "\<And>i s. g i s = s\<lparr>framemap := framemap (g i s)\<rparr>"
  shows "fold g xs s = s\<lparr>framemap := framemap (fold g xs s)\<rparr>"
proof (induction xs arbitrary: s)
  case (Cons x xs)
  have "fold g (x # xs) s = (g x s)\<lparr>framemap := framemap (fold g (x # xs) s)\<rparr>"
    using Cons by simp
  also have "\<dots> = s\<lparr>framemap := framemap (fold g (x # xs) s)\<rparr>"
    by (subst assms) simp
  finally show ?case .
qed simp

lemma marked_run:
  assumes "f + c \<le> ALL_FRAMES"
  shows "marked s (fold (\<lambda>i. set_frame (frame_addr f + of_nat i * PAGE_SIZE)) [0..<c] s) f c"
  unfolding marked_def
  using fold_framemap [where g = "\<lambda>i. set_frame (frame_addr f + of_nat i * PAGE_SIZE)"]
    set_frame_more frame_used_set_run [OF _ assms] by blast

lemma marked_used:
  "marked s s' f c \<Longrightarrow> g < ALL_FRAMES \<Longrightarrow> frame_used s' g = (f \<le> g \<and> g < f + c \<or> frame_used s g)"
  by (simp add: marked_def)

lemma frame_addr_0 [simp]: "frame_addr 0 = 0"
  by (simp add: frame_addr_def)

lemma frame_addr_LOW: "frame_addr LOW_FRAMES = KERN_IDENTITY_PHYS_END"
  by (simp add: frame_addr_def identity_end)

lemma frame_addr_ALL: "frame_addr ALL_FRAMES = 0"
  by (simp add: frame_addr_def word_unat_eq_iff)

lemma low_limit: "q < LOW_FRAMES \<Longrightarrow> frame_addr q < KERN_IDENTITY_PHYS_END"
  by (simp add: word_less_nat_alt unat_frame_addr identity_end)

lemma high_limit: "q < ALL_FRAMES \<Longrightarrow> frame_addr q < EOM"
  by (simp add: word_less_nat_alt unat_frame_addr EOM_def)

lemma alloc_loop_first_fit:
  assumes "first_fit s lo hi (unat count) = Some f" "0 < count" "hi \<le> ALL_FRAMES"
    and "\<And>q. q < hi \<Longrightarrow> frame_addr q < limit"
  shows "\<exists>s'. alloc_loop s count limit (frame_addr lo) 0 = Some (frame_addr f, s') \<and>
    marked s s' f (unat count)"
proof -
  have c: "0 < unat count" using assms(2) by (simp add: word_less_nat_alt)
  note f = assms(1) [unfolded first_fit_Some]
  have least: "f \<le> g" if "lo \<le> g" "free_run s g (unat count)" for g
    using f that not_less by blast
  have "f + unat count \<le> hi" "lo < f + unat count" using f c by auto
  then show ?thesis
    using alloc_loop_hit [OF searching_start c assms(3,4) _ _ _ least] f
      marked_run [of f "unat count" s] assms(3) by auto
qed

lemma alloc_default_hit:
  assumes "first_fit s 0 LOW_FRAMES (unat count) = Some f" "0 < count"
  shows "\<exists>s'. alloc_pages PMM_FLAGS_DEFAULT count s = Some (frame_addr f, s') \<and>
    marked s s' f (unat count)"
  using alloc_loop_first_fit [OF assms _ low_limit]
  by (simp add: alloc_pages_def PMM_FLAGS_DEFAULT_def)

lemma alloc_default_miss:
  assumes "first_fit s 0 LOW_FRAMES (unat count) = None" "0 < count"
  shows "alloc_pages PMM_FLAGS_DEFAULT count s = Some (0, s)"
proof -
  have c: "0 < unat count" using assms(2) by (simp add: word_less_nat_alt)
  have "\<not> frame_addr LOW_FRAMES < KERN_IDENTITY_PHYS_END"
    by (simp add: frame_addr_def identity_end)
  then have "alloc_loop s count KERN_IDENTITY_PHYS_END (frame_addr LOW_FRAMES) k = Some (0, s)" for k
    by (subst alloc_loop.simps) simp
  then show ?thesis
    using alloc_loop_miss [OF searching_start [of s 0] c _ _ low_limit, of LOW_FRAMES] assms(1)
    by (auto simp: alloc_pages_def PMM_FLAGS_DEFAULT_def first_fit_None)
qed

lemma alloc_high_hit:
  assumes "first_fit s LOW_FRAMES ALL_FRAMES (unat count) = Some f" "0 < count"
  shows "\<exists>s'. alloc_pages PMM_FLAGS_HIGHMEM count s = Some (frame_addr f, s') \<and>
    marked s s' f (unat count)"
  using alloc_loop_first_fit [OF assms order_refl high_limit]
  by (simp add: alloc_pages_def PMM_FLAGS_HIGHMEM_def frame_addr_def identity_end)

text \<open>When the high frames are used up the counter wraps to address 0.\<close>

lemma alloc_high_wraps:
  assumes "\<forall>f. LOW_FRAMES \<le> f \<longrightarrow> f < ALL_FRAMES \<longrightarrow> frame_used s f" "0 < count"
  shows "alloc_pages PMM_FLAGS_HIGHMEM count s = alloc_loop s count EOM 0 0"
proof -
  have c: "0 < unat count" using assms(2) by (simp add: word_less_nat_alt)
  have none: "\<not> free_run s g (unat count)" if "LOW_FRAMES \<le> g" "g + unat count \<le> ALL_FRAMES" for g
    using that c assms(1) by (auto simp: free_run_def intro: exI [of _ 0])
  have k: "k = 0" if "searching s LOW_FRAMES ALL_FRAMES k" for k
  proof (rule ccontr)
    assume "k \<noteq> 0"
    with that have "\<not> frame_used s (ALL_FRAMES - k)" "LOW_FRAMES + k \<le> ALL_FRAMES"
      by (auto simp: searching_def free_run_def dest: spec [of _ 0])
    with \<open>k \<noteq> 0\<close> assms(1) show False by auto
  qed
  obtain k' where "searching s LOW_FRAMES ALL_FRAMES k'"
    "alloc_loop s count EOM (frame_addr LOW_FRAMES) 0 =
     alloc_loop s count EOM (frame_addr ALL_FRAMES) (of_nat k')"
    using alloc_loop_miss [OF searching_start [of s LOW_FRAMES] c order_refl _ high_limit none] by auto
  moreover from this k have "k' = 0" by blast
  ultimately show ?thesis
    by (simp add: alloc_pages_def PMM_FLAGS_HIGHMEM_def frame_addr_LOW frame_addr_ALL)
qed

lemma alloc_high_low:
  assumes "\<forall>f. LOW_FRAMES \<le> f \<longrightarrow> f < ALL_FRAMES \<longrightarrow> frame_used s f" "0 < count"
    and "first_fit s 0 ALL_FRAMES (unat count) = Some f"
  shows "\<exists>s'. alloc_pages PMM_FLAGS_HIGHMEM count s = Some (frame_addr f, s') \<and>
    marked s s' f (unat count)"
  using alloc_loop_first_fit [OF assms(3,2) order_refl high_limit]
  by (simp add: alloc_high_wraps [OF assms(1,2)])

text \<open>With no free frame at all the search never ends.\<close>

lemma alloc_high_diverges:
  assumes "\<forall>f<ALL_FRAMES. frame_used s f"
  shows "alloc_pages PMM_FLAGS_HIGHMEM count s = None"
proof -
  have "limit = EOM \<longrightarrow> \<not> (unat p mod 4096 = 0 \<and> s' = s)"
    if "alloc_loop s' count limit p k = Some r" for s' count limit p k r
  proof (rule alloc_loop.raw_induct [OF _ that], goal_cases)
    case (1 loop s' count limit p k r)
    show ?case
    proof (intro impI notI, elim conjE)
      assume a: "limit = EOM" "unat p mod 4096 = 0" "s' = s"
      have "unat p \<noteq> 4294967295" using a(2) by force
      then have "p < EOM" using unat_u32_le [of p] by (simp add: word_less_nat_alt EOM_def)
      moreover have "unat (p + PAGE_SIZE) mod 4096 = 0"
        using a(2) by (simp add: unat_word_ariths PAGE_SIZE_def mod_mod_cancel)
      moreover have "test_frame p s" using assms frame_number_less by (simp add: test_frame_used)
      ultimately show False
        using 1(1) [of s count EOM "p + PAGE_SIZE" 0 r] 1(2) a by simp
    qed
  qed
  from this [of s count EOM KERN_IDENTITY_PHYS_END 0]
  have "alloc_loop s count EOM KERN_IDENTITY_PHYS_END 0 \<noteq> Some r" for r
    by (cases r) (auto simp: identity_end)
  then show ?thesis
    by (simp add: alloc_pages_def PMM_FLAGS_HIGHMEM_def not_Some_eq [symmetric] del: not_Some_eq)
qed

section \<open>Release and reservation\<close>

lemma free_pages_used:
  assumes "unat frame + unat count \<le> ALL_FRAMES" "g < ALL_FRAMES"
  shows "frame_used (free_pages frame count s) g =
         (\<not> (unat frame \<le> g \<and> g < unat frame + unat count) \<and> frame_used s g)"
proof -
  have "frame * PAGE_SIZE = frame_addr (unat frame)"
    by (simp add: frame_addr_def PAGE_SIZE_def)
  with frame_used_clear_run [OF assms(2,1), of s] show ?thesis
    by (simp add: free_pages_def Let_def)
qed

lemma free_pages_more: "free_pages frame count s = s\<lparr>framemap := framemap (free_pages frame count s)\<rparr>"
  unfolding free_pages_def Let_def by (rule fold_framemap) (rule clear_frame_more)

lemma reserve_loop_used:
  assumes "f < ALL_FRAMES" "b + n \<le> ALL_FRAMES" "n = 0 \<longrightarrow> limit \<le> b * 4096"
    and "0 < n \<longrightarrow> (b + n - 1) * 4096 < limit" "limit \<le> (b + n) * 4096"
  shows "frame_used (reserve_loop (b * 4096) limit s) f = (b \<le> f \<and> f < b + n \<or> frame_used s f)"
  using assms(2-)
proof (induction n arbitrary: b s)
  case 0
  then show ?case by (subst reserve_loop.simps) auto
next
  case (Suc n)
  then have "b * 4096 < limit" by (cases n) auto
  moreover have "of_nat (b * 4096) = frame_addr b" by (simp add: frame_addr_def)
  moreover have "b * 4096 + 4096 = Suc b * 4096" by simp
  ultimately have "reserve_loop (b * 4096) limit s =
      reserve_loop (Suc b * 4096) limit (set_frame (frame_addr b) s)"
    by (subst reserve_loop.simps) (simp only: if_True)
  moreover have "frame_used (set_frame (frame_addr b) s) f = (f = b \<or> frame_used s f)"
    using Suc.prems(1) by (simp add: frame_used_set [OF assms(1)] unat_frame_addr)
  ultimately show ?case using Suc.IH [of "Suc b" "set_frame (frame_addr b) s"] Suc.prems
    by (cases n) auto
qed

lemma unat_round_down: "unat (PAGE_ROUND_DOWN x) = unat x div 4096 * 4096"
proof -
  have mask: "(0xFFFFF000 :: u32) = NOT (mask 12)" by (simp add: mask_eq_exp_minus_1)
  have "PAGE_ROUND_DOWN x = push_bit 12 (drop_bit 12 x)"
    unfolding PAGE_ROUND_DOWN_def mask by (intro bit_word_eqI) (auto simp: bit_simps)
  moreover have "unat (drop_bit 12 x) = unat x div 4096" by (simp add: drop_bit_eq_div unat_div)
  ultimately show ?thesis
    using unat_mult_u32 [of "drop_bit 12 x" 4096] unat_u32_less [of x]
    by (simp add: push_bit_eq_mult less_mult_imp_div_less)
qed

lemma round_down: "PAGE_ROUND_DOWN x = of_nat (unat x div 4096 * 4096)"
  by (metis of_nat_unat_u32 unat_round_down)

lemma round_up: "PAGE_ROUND_UP x = of_nat ((unat x + 4095) div 4096 * 4096)"
proof (cases "unat x mod 4096 = 0")
  case True
  then obtain q where "unat x = 4096 * q" by auto
  then have "x = of_nat (4096 * q)" "(unat x + 4095) div 4096 = q" by (metis of_nat_unat_u32, simp)
  moreover have "x mod 0x1000 = 0" using True by (simp add: word_unat_eq_iff unat_mod)
  ultimately show ?thesis by (simp add: PAGE_ROUND_UP_def mult.commute)
next
  case False
  then have "x mod 0x1000 \<noteq> 0" by (simp add: word_unat_eq_iff unat_mod)
  then have "PAGE_ROUND_UP x = of_nat (unat x div 4096 * 4096) + of_nat 4096"
    unfolding PAGE_ROUND_UP_def PAGE_ROUND_DOWN_def [symmetric] round_down by simp
  moreover have "(unat x + 4095) div 4096 = Suc (unat x div 4096)"
    using ceil_div [of 4096 "unat x"] False by simp
  ultimately show ?thesis by (simp only: mult_Suc add.commute flip: of_nat_add)
qed

text \<open>
  \<^verbatim>\<open>reserve\<close> marks the pages its rounded-down start and rounded-up length name, as long as
  they end within the 4 GiB.
\<close>

lemma reserve_used:
  assumes "f < ALL_FRAMES" "0 < len" "unat start div 4096 + (unat len + 4095) div 4096 \<le> ALL_FRAMES"
  shows "frame_used (reserve start len s) f =
    (unat start div 4096 \<le> f \<and> f < unat start div 4096 + (unat len + 4095) div 4096 \<or> frame_used s f)"
proof -
  define b where "b = unat start div 4096"
  define n where "n = (unat len + 4095) div 4096"
  have "0 < unat len" using assms(2) by (simp add: word_less_nat_alt)
  then have n: "0 < n" "b + n \<le> ALL_FRAMES" using assms(3) by (auto simp: n_def b_def)
  have "PAGE_ROUND_DOWN start + PAGE_ROUND_UP len - 1 = of_nat ((b + n) * 4096 - 1)"
    using n(1) by (simp add: round_down round_up of_nat_diff algebra_simps flip: b_def n_def)
  moreover have "(b + n) * 4096 - 1 < 2 ^ 32" using n by simp
  ultimately have "unat (PAGE_ROUND_DOWN start + PAGE_ROUND_UP len - 1) = (b + n) * 4096 - 1"
    by (simp only: unat_of_nat_u32)
  then have "reserve start len s = reserve_loop (b * 4096) ((b + n) * 4096 - 1) s"
    by (simp add: reserve_def unat_round_down b_def)
  then show ?thesis
    using reserve_loop_used [OF assms(1) n(2), of "(b + n) * 4096 - 1" s] n(1)
    by (simp flip: b_def n_def)
qed

section \<open>The allocator's interface\<close>

text \<open>
  What a client of the frame allocator relies on: \<open>claim c s\<close> returns a base address and a
  state, or address 0 when it has nothing to give; \<open>release\<close> takes a frame number.
\<close>

definition frames :: "u32 \<Rightarrow> u32 \<Rightarrow> nat set" where
  "frames a c = {unat a div 4096..<unat a div 4096 + unat c}"

definition used_frames :: "'a pmm_scheme \<Rightarrow> nat set" where
  "used_frames s = {f. f < ALL_FRAMES \<and> frame_used s f}"

text \<open>Frame 0 is never handed out, so a base address of 0 means failure.\<close>

definition null_reserved :: "'a pmm_scheme \<Rightarrow> bool" where
  "null_reserved s \<longleftrightarrow> frame_used s 0"

fun claim_all :: "(u32 \<Rightarrow> 's \<Rightarrow> (u32 \<times> 's) option) \<Rightarrow> u32 list \<Rightarrow> 's \<Rightarrow>
    ((u32 \<times> u32) list \<times> 's) option" where
  "claim_all claim [] s = Some ([], s)"
| "claim_all claim (c # cs) s =
     (case claim c s of None \<Rightarrow> None
      | Some (a, s') \<Rightarrow> (case claim_all claim cs s' of None \<Rightarrow> None
          | Some (rs, s'') \<Rightarrow> Some ((a, c) # rs, s'')))"

locale frame_source =
  fixes claim :: "u32 \<Rightarrow> 's \<Rightarrow> (u32 \<times> 's) option"
    and release :: "u32 \<Rightarrow> u32 \<Rightarrow> 's \<Rightarrow> 's"
    and used :: "'s \<Rightarrow> nat set"
    and valid :: "'s \<Rightarrow> bool"
  assumes claim_returns: "0 < c \<Longrightarrow> \<exists>r. claim c s = Some r"
    and claim_fresh: "0 < c \<Longrightarrow> valid s \<Longrightarrow> claim c s = Some (a, s') \<Longrightarrow> a \<noteq> 0 \<Longrightarrow>
      frames a c \<inter> used s = {} \<and> used s' = used s \<union> frames a c \<and> valid s'"
    and claim_fails: "0 < c \<Longrightarrow> valid s \<Longrightarrow> claim c s = Some (0, s') \<Longrightarrow> s' = s"
    and claim_aligned: "0 < c \<Longrightarrow> claim c s = Some (a, s') \<Longrightarrow>
      unat a mod 4096 = 0 \<and> unat a div 4096 + unat c \<le> ALL_FRAMES \<or> a = 0"
    and release_used: "unat f + unat c \<le> ALL_FRAMES \<Longrightarrow>
      used (release f c s) = used s - {unat f..<unat f + unat c}"
begin

lemma claims_disjoint:
  assumes "valid s" "0 < c" "0 < d" "claim c s = Some (a, s')" "a \<noteq> 0"
    and "claim d s' = Some (b, s'')" "b \<noteq> 0"
  shows "frames a c \<inter> frames b d = {}"
  using claim_fresh [OF assms(2,1,4,5)] claim_fresh [OF assms(3) _ assms(6,7)] by auto

lemma release_claim:
  assumes "valid s" "0 < c" "claim c s = Some (a, s')" "a \<noteq> 0"
  shows "used (release (PAGE_FRAME a) c s') = used s"
  using claim_fresh [OF assms(2,1,3,4)] claim_aligned [OF assms(2,3)] assms(4)
    release_used [of "PAGE_FRAME a" c s']
  by (auto simp: unat_PAGE_FRAME frames_def)

text \<open>Any sequence of successful claims hands out pairwise disjoint ranges.\<close>

lemma claim_all_fresh:
  assumes "valid s" "\<forall>c\<in>set cs. 0 < c" "claim_all claim cs s = Some (rs, s')" "\<forall>(a, c)\<in>set rs. a \<noteq> 0"
  shows "(\<forall>(a, c)\<in>set rs. frames a c \<inter> used s = {}) \<and> used s \<subseteq> used s' \<and>
    (\<forall>i<length rs. \<forall>j<i. case_prod frames (rs ! i) \<inter> case_prod frames (rs ! j) = {})"
  using assms
proof (induction cs arbitrary: s rs)
  case (Cons c cs)
  then obtain a t rs' where step: "claim c s = Some (a, t)" "claim_all claim cs t = Some (rs', s')"
    "rs = (a, c) # rs'"
    by (auto split: option.splits prod.splits)
  then have fresh: "frames a c \<inter> used s = {} \<and> used t = used s \<union> frames a c \<and> valid t"
    using claim_fresh [OF _ Cons.prems(1) step(1)] Cons.prems(2,4) by simp
  have IH: "(\<forall>(a, c)\<in>set rs'. frames a c \<inter> used t = {}) \<and> used t \<subseteq> used s' \<and>
    (\<forall>i<length rs'. \<forall>j<i. case_prod frames (rs' ! i) \<inter> case_prod frames (rs' ! j) = {})"
    using Cons.IH [of t rs'] Cons.prems step fresh by simp
  have "case_prod frames (rs ! i) \<inter> case_prod frames (rs ! j) = {}" if "i < length rs" "j < i" for i j
  proof (cases j)
    case 0
    with that step have "rs ! i \<in> set rs'" by (cases i) auto
    with IH fresh 0 step show ?thesis by (cases "rs ! i") fastforce
  next
    case (Suc j')
    with that step IH show ?thesis by (cases i) auto
  qed
  with IH fresh step show ?case by fastforce
qed simp

end

lemma frames_addr: "f + unat c \<le> ALL_FRAMES \<Longrightarrow> 0 < c \<Longrightarrow> frames (frame_addr f) c = {f..<f + unat c}"
  by (simp add: frames_def unat_frame_addr word_less_nat_alt)

lemma alloc_default_cases:
  assumes "alloc_pages PMM_FLAGS_DEFAULT c s = Some (a, s')" "0 < c"
  shows "(a, s') = (0, s) \<or> (\<exists>f. a = frame_addr f \<and> marked s s' f (unat c) \<and> free_run s f (unat c) \<and>
    f + unat c \<le> LOW_FRAMES)"
proof (cases "first_fit s 0 LOW_FRAMES (unat c)")
  case None
  from alloc_default_miss [OF this assms(2)] assms(1) show ?thesis by simp
next
  case (Some f)
  with assms alloc_default_hit [OF Some assms(2)] show ?thesis by (auto simp: first_fit_Some)
qed

lemma alloc_default_fresh:
  assumes "0 < c" "null_reserved s" "alloc_pages PMM_FLAGS_DEFAULT c s = Some (a, s')" "a \<noteq> 0"
  shows "frames a c \<inter> used_frames s = {} \<and> used_frames s' = used_frames s \<union> frames a c \<and> null_reserved s'"
proof -
  from alloc_default_cases [OF assms(3,1)] assms(4) obtain f where f: "a = frame_addr f"
    "marked s s' f (unat c)" "free_run s f (unat c)" "f + unat c \<le> LOW_FRAMES"
    by auto
  then have a: "frames a c = {f..<f + unat c}" using assms(1) by (simp add: frames_addr)
  have "g \<notin> used_frames s" if "f \<le> g" "g < f + unat c" for g
    using f(3) that by (auto simp: free_run_def used_frames_def le_iff_add)
  moreover have "g \<in> used_frames s' \<longleftrightarrow> g \<in> used_frames s \<or> f \<le> g \<and> g < f + unat c" for g
    using f(4) by (auto simp: marked_used [OF f(2)] used_frames_def)
  moreover have "null_reserved s'" using assms(2) by (simp add: null_reserved_def marked_used [OF f(2)])
  ultimately show ?thesis using a by auto
qed

lemma alloc_default_fails:
  assumes "0 < c" "null_reserved s" "alloc_pages PMM_FLAGS_DEFAULT c s = Some (0, s')"
  shows "s' = s"
proof (rule ccontr)
  assume "s' \<noteq> s"
  with alloc_default_cases [OF assms(3,1)] obtain f where "0 = frame_addr f" "free_run s f (unat c)"
    "f + unat c \<le> LOW_FRAMES" by auto
  moreover from this have "f = 0" using unat_frame_addr [of f] assms(1)
    by (simp add: word_less_nat_alt)
  ultimately show False using assms(1,2)
    by (auto simp: free_run_def null_reserved_def word_less_nat_alt)
qed

interpretation low_frames:
  frame_source "alloc_pages PMM_FLAGS_DEFAULT" free_pages used_frames null_reserved
proof (unfold_locales, goal_cases)
  case (1 c s)
  then show ?case
    using alloc_default_hit [of s c] alloc_default_miss [of s c]
    by (cases "first_fit s 0 LOW_FRAMES (unat c)") auto
next
  case (2 c s a s')
  then show ?case by (rule alloc_default_fresh)
next
  case (3 c s s')
  then show ?case by (rule alloc_default_fails)
next
  case (4 c s a s')
  then show ?case using alloc_default_cases [OF 4(2,1)]
    by (auto simp: unat_frame_addr word_less_nat_alt)
next
  case (5 f c s)
  then show ?case using free_pages_used [of f c _ s] by (auto simp: used_frames_def)
qed
section \<open>Properties\<close>

definition sample_pmm :: "(u32 \<Rightarrow> u8) \<Rightarrow> pmm" where
  "sample_pmm fm = \<lparr>terminal_row = 0, terminal_column = 0, terminal_color = 7,
     terminal_buffer = (\<lambda>_. 0), framemap = fm\<rparr>"

text \<open>Frames 0 to 3 and 6 used, everything else free.\<close>

definition sample_map :: "u32 \<Rightarrow> u8" where
  "sample_map i = (if i = 0 then 0x4F else 0)"

lemma sample_used:
  assumes "f < ALL_FRAMES"
  shows "frame_used (sample_pmm sample_map) f = (f < 4 \<or> f = 6)"
proof -
  have "((of_nat (f div 8) :: u32) = 0) = (f < 8)"
    using of_nat_eq_u32 [of "f div 8" 0] assms by (auto simp: div_less_iff_less_mult)
  moreover have "bit (0x4F :: u8) f = (f < 4 \<or> f = 6)" if "f < 8"
    using that by (auto simp: less_Suc_eq numeral_eq_Suc)
  ultimately show ?thesis by (auto simp: frame_used_def sample_map_def sample_pmm_def)
qed

lemma sample_first_fit: "first_fit (sample_pmm sample_map) 0 LOW_FRAMES 3 = Some 7"
proof -
  have "free_run (sample_pmm sample_map) 7 3" by (simp add: free_run_def sample_used)
  moreover have "\<not> free_run (sample_pmm sample_map) g 3" if "g < 7" for g
    using that sample_used [of g] sample_used [of "g + 1"] sample_used [of "g + 2"]
    by (auto simp: free_run_def numeral_3_eq_3 less_Suc_eq all_conj_distrib)
  ultimately show ?thesis by (simp add: first_fit_Some)
qed

lemma sample_null: "null_reserved (sample_pmm sample_map)"
  by (simp add: null_reserved_def sample_used)

text \<open>
  C25: a low-memory allocation of \<open>count\<close> frames always returns; it returns the first run
  of \<open>count\<close> free frames below 896 MiB with exactly these frames newly marked and nothing
  else changed, or 0 with the state unchanged when there is no such run.
\<close>

theorem alloc_pages_first_fit:
  assumes "0 < count"
  shows "case first_fit s 0 LOW_FRAMES (unat count) of
      None \<Rightarrow> alloc_pages PMM_FLAGS_DEFAULT count s = Some (0, s)
    | Some f \<Rightarrow> \<exists>s'. alloc_pages PMM_FLAGS_DEFAULT count s = Some (frame_addr f, s') \<and>
        marked s s' f (unat count)"
  using alloc_default_hit [OF _ assms, of s] alloc_default_miss [OF _ assms, of s]
  by (cases "first_fit s 0 LOW_FRAMES (unat count)") simp_all

theorem alloc_pages_first_fit_witness:
  "(0 :: u32) < 3 \<and> (\<exists>s'. alloc_pages PMM_FLAGS_DEFAULT 3 (sample_pmm sample_map) = Some (0x7000, s') \<and>
     marked (sample_pmm sample_map) s' 7 3)"
  using alloc_pages_first_fit [of 3 "sample_pmm sample_map"] sample_first_fit
  by (simp add: frame_addr_def)

text \<open>
  A high-memory allocation takes the first run of \<open>count\<close> free frames at or above
  896 MiB, when there is one.
\<close>

theorem alloc_pages_high:
  assumes "0 < count" "first_fit s LOW_FRAMES ALL_FRAMES (unat count) = Some f"
  shows "\<exists>s'. alloc_pages PMM_FLAGS_HIGHMEM count s = Some (frame_addr f, s') \<and>
    marked s s' f (unat count) \<and> KERN_IDENTITY_PHYS_END \<le> frame_addr f"
proof -
  have "LOW_FRAMES \<le> f" "f < ALL_FRAMES"
    using assms by (auto simp: first_fit_Some word_less_nat_alt)
  then have "KERN_IDENTITY_PHYS_END \<le> frame_addr f"
    by (simp add: word_le_nat_alt unat_frame_addr identity_end)
  with alloc_high_hit [OF assms(2,1)] show ?thesis by blast
qed

theorem alloc_pages_high_witness:
  "(0 :: u32) < 2 \<and> (\<exists>s'. alloc_pages PMM_FLAGS_HIGHMEM 2 (sample_pmm sample_map) = Some (0x38000000, s') \<and>
     marked (sample_pmm sample_map) s' LOW_FRAMES 2)"
proof -
  have "first_fit (sample_pmm sample_map) LOW_FRAMES ALL_FRAMES (unat (2 :: u32)) = Some LOW_FRAMES"
    by (auto simp: first_fit_Some free_run_def sample_used)
  from alloc_pages_high [OF _ this] show ?thesis by (auto simp: frame_addr_def)
qed

text \<open>
  C26: however many low-memory allocations are made one after the other, the ranges handed
  out are pairwise disjoint and disjoint from every frame that was in use before.
\<close>

theorem allocations_disjoint:
  assumes "null_reserved s" "\<forall>c\<in>set cs. 0 < c" "\<forall>(a, c)\<in>set rs. a \<noteq> 0"
    and "claim_all (alloc_pages PMM_FLAGS_DEFAULT) cs s = Some (rs, s')"
  shows "(\<forall>(a, c)\<in>set rs. frames a c \<inter> used_frames s = {}) \<and>
    (\<forall>i<length rs. \<forall>j<i. case_prod frames (rs ! i) \<inter> case_prod frames (rs ! j) = {})"
  using low_frames.claim_all_fresh [OF assms(1,2,4,3)] by (elim conjE) (intro conjI)

lemma sample_claims:
  "\<exists>s'. claim_all (alloc_pages PMM_FLAGS_DEFAULT) [3, 1] (sample_pmm sample_map) = Some ([(0x7000, 3), (0x4000, 1)], s')"
proof -
  obtain s' where s': "alloc_pages PMM_FLAGS_DEFAULT 3 (sample_pmm sample_map) = Some (0x7000, s')"
    "marked (sample_pmm sample_map) s' 7 3"
    using alloc_default_hit [of "sample_pmm sample_map" 3] sample_first_fit by (auto simp: frame_addr_def)
  have "frame_used s' g = (g < 4 \<or> 6 \<le> g \<and> g < 10)" if "g < ALL_FRAMES" for g
    using that by (auto simp: marked_used [OF s'(2)] sample_used)
  then have "first_fit s' 0 LOW_FRAMES 1 = Some 4" by (simp add: first_fit_Some free_run_def)
  then obtain s'' where "alloc_pages PMM_FLAGS_DEFAULT 1 s' = Some (0x4000, s'')"
    using alloc_default_hit [of s' 1] by (auto simp: frame_addr_def)
  with s' show ?thesis by simp
qed

theorem allocations_disjoint_witness:
  "null_reserved (sample_pmm sample_map) \<and>
   (\<exists>s'. claim_all (alloc_pages PMM_FLAGS_DEFAULT) [3, 1] (sample_pmm sample_map) =
          Some ([(0x7000, 3), (0x4000, 1)], s')) \<and> frames 0x4000 1 \<inter> frames 0x7000 3 = {}"
proof -
  obtain s' where s': "claim_all (alloc_pages PMM_FLAGS_DEFAULT) [3, 1] (sample_pmm sample_map) =
    Some ([(0x7000, 3), (0x4000, 1)], s')"
    using sample_claims by blast
  from allocations_disjoint [OF sample_null _ _ s']
  have "frames 0x4000 1 \<inter> frames 0x7000 3 = {}" by (auto simp: less_Suc_eq)
  with s' sample_null show ?thesis by blast
qed

text \<open>
  C27: \<^verbatim>\<open>free_pages\<close>, given the frame number of a range that \<^verbatim>\<open>alloc_pages\<close> returned,
  gives back exactly that range: the frames in use are those before the allocation.
\<close>

theorem alloc_free_roundtrip:
  assumes "null_reserved s" "0 < c" "a \<noteq> 0" "alloc_pages PMM_FLAGS_DEFAULT c s = Some (a, s')"
  shows "used_frames (free_pages (PAGE_FRAME a) c s') = used_frames s"
  using low_frames.release_claim [OF assms(1,2,4,3)] .

theorem alloc_free_roundtrip_witness:
  "\<exists>s'. alloc_pages PMM_FLAGS_DEFAULT 3 (sample_pmm sample_map) = Some (0x7000, s') \<and>
     used_frames (free_pages (PAGE_FRAME 0x7000) 3 s') = used_frames (sample_pmm sample_map)"
proof -
  obtain s' where s': "alloc_pages PMM_FLAGS_DEFAULT 3 (sample_pmm sample_map) = Some (0x7000, s')"
    using alloc_default_hit [of "sample_pmm sample_map" 3] sample_first_fit by (auto simp: frame_addr_def)
  from alloc_free_roundtrip [OF sample_null _ _ this] s' show ?thesis by simp
qed

text \<open>
  C28: \<^verbatim>\<open>reserve\<close> marks, besides what was marked, the pages from the one holding
  \<^verbatim>\<open>start\<close> on, as many as \<^verbatim>\<open>length\<close> rounded up to pages, whenever these end within
  the 4 GiB; so for a page-aligned start every byte of the region is in a marked frame.
\<close>

theorem reserve_exact:
  assumes "0 < len" "unat start div 4096 + (unat len + 4095) div 4096 \<le> ALL_FRAMES"
  shows "used_frames (reserve start len s) = used_frames s \<union>
      {unat start div 4096..<unat start div 4096 + (unat len + 4095) div 4096} \<and>
    (unat start mod 4096 = 0 \<longrightarrow>
      (\<forall>b<unat len. (unat start + b) div 4096 \<in> used_frames (reserve start len s)))"
proof -
  define n where "n = unat start div 4096"
  define k where "k = (unat len + 4095) div 4096"
  have le: "n + k \<le> ALL_FRAMES" using assms(2) by (simp add: n_def k_def)
  have used: "used_frames (reserve start len s) = used_frames s \<union> {n..<n + k}"
    using reserve_used [OF _ assms, of _ s] le by (auto simp: used_frames_def n_def k_def)
  moreover have "(unat start + b) div 4096 \<in> {n..<n + k}"
    if "unat start mod 4096 = 0" "b < unat len" for b
  proof -
    from that(1) obtain q where "unat start = 4096 * q" by auto
    then have "(unat start + b) div 4096 = n + b div 4096" by (simp add: n_def)
    moreover have "b div 4096 < k"
      unfolding k_def using that(2) by (simp add: less_eq_div_iff_mult_less_eq Suc_le_eq [symmetric] div_le_mono)
    ultimately show ?thesis by simp
  qed
  ultimately show ?thesis by (auto simp: n_def k_def)
qed

theorem reserve_exact_witness:
  "used_frames (reserve 0x1800 0x1000 (sample_pmm (\<lambda>_. 0))) = {1} \<and>
   used_frames (reserve 0x2000 0x1001 (sample_pmm (\<lambda>_. 0))) = {2, 3}"
proof -
  have "used_frames (sample_pmm (\<lambda>_. 0)) = {}"
    by (simp add: used_frames_def frame_used_def sample_pmm_def)
  then show ?thesis
    using reserve_exact [of "0x1000" "0x1800" "sample_pmm (\<lambda>_. 0)"]
      reserve_exact [of "0x1001" "0x2000" "sample_pmm (\<lambda>_. 0)"] by auto
qed

text \<open>
  When no frame at or above 896 MiB is free, a high-memory allocation does not fail:
  the scan address wraps past 4 GiB to 0 and the first free run of low memory is returned.
\<close>

theorem alloc_pages_high_exhausted:
  assumes "0 < count" "\<forall>f. LOW_FRAMES \<le> f \<longrightarrow> f < ALL_FRAMES \<longrightarrow> frame_used s f"
    and "first_fit s 0 ALL_FRAMES (unat count) = Some f"
  shows "f < LOW_FRAMES \<and> (\<exists>s'. alloc_pages PMM_FLAGS_HIGHMEM count s = Some (frame_addr f, s') \<and>
    marked s s' f (unat count))"
proof -
  have "\<not> frame_used s f" "f < ALL_FRAMES"
    using assms(1,3) by (auto simp: first_fit_Some free_run_def word_less_nat_alt dest: spec [of _ 0])
  then have "f < LOW_FRAMES" using assms(2) not_less by blast
  with alloc_high_low [OF assms(2,1,3)] show ?thesis by blast
qed

definition full_above :: "u32 \<Rightarrow> u8" where
  "full_above i = (if i < 0x7000 then 0 else 0xFF)"

lemma full_byte: "bit (0xFF :: u8) (f mod 8)"
proof -
  have "(0xFF :: u8) = mask 8" by (simp add: mask_eq_exp_minus_1)
  then show ?thesis by (simp only: bit_mask_iff) simp
qed

lemma full_above_used: "f < ALL_FRAMES \<Longrightarrow> frame_used (sample_pmm full_above) f = (LOW_FRAMES \<le> f)"
proof -
  assume "f < ALL_FRAMES"
  then have "((of_nat (f div 8) :: u32) < 0x7000) = (f < LOW_FRAMES)"
    by (simp add: word_less_nat_alt unat_of_nat_u32 div_less_iff_less_mult)
  then show ?thesis
    using full_byte [of f] by (simp add: frame_used_def full_above_def sample_pmm_def not_less)
qed

theorem alloc_pages_high_exhausted_witness:
  "\<exists>s'. alloc_pages PMM_FLAGS_HIGHMEM 1 (sample_pmm full_above) = Some (0, s') \<and>
     marked (sample_pmm full_above) s' 0 1"
proof -
  have "first_fit (sample_pmm full_above) 0 ALL_FRAMES (unat (1 :: u32)) = Some 0"
    by (simp add: first_fit_Some free_run_def full_above_used)
  from alloc_pages_high_exhausted [OF _ _ this] show ?thesis by (simp add: full_above_used)
qed

text \<open>
  C29: when no frame at all is free, a high-memory allocation never returns.
\<close>

theorem alloc_pages_high_hangs:
  assumes "\<forall>f<ALL_FRAMES. frame_used s f"
  shows "alloc_pages PMM_FLAGS_HIGHMEM count s = None"
  using assms by (rule alloc_high_diverges)

theorem alloc_pages_high_hangs_witness:
  "alloc_pages PMM_FLAGS_HIGHMEM 1 (sample_pmm (\<lambda>_. 0xFF)) = None"
proof -
  have "\<forall>f<ALL_FRAMES. frame_used (sample_pmm (\<lambda>_. 0xFF)) f"
    using full_byte by (simp add: frame_used_def sample_pmm_def)
  then show ?thesis by (rule alloc_pages_high_hangs)
qed
end
