(* ===== verification/Ordered_Array.thy ===== *)
theory Ordered_Array
  imports Prelude "HOL-Library.Multiset"
begin

text \<open>
  The ordered array of \<^verbatim>\<open>src/kernel/kernel/core/common.c\<close>, in which the kernel heap keeps
  the addresses of its block headers and footers. The backing storage is a list of
  the 32-bit slots; an access outside it is undefined behaviour in C and the value
  \<open>None\<close> here. The locale at the end states what a client may rely on.
\<close>

section \<open>State and operations\<close>

record ordered_array =
  oa_array :: "u32 list"
  oa_size :: u32
  oa_max_size :: u32
  oa_predicate :: "u32 \<Rightarrow> u32 \<Rightarrow> bool"

definition less_predicate :: "u32 \<Rightarrow> u32 \<Rightarrow> bool" where
  "less_predicate a b = (if a < b then True else False)"

text \<open>
  \<open>storage\<close> is the contents of the memory at \<^verbatim>\<open>addr\<close>; the byte count of the
  \<^verbatim>\<open>memset\<close> is computed in 32 bits.
\<close>

definition init_ordered_array_place :: "u32 list \<Rightarrow> u32 \<Rightarrow> ordered_array option" where
  "init_ordered_array_place storage max_size =
     (let cleared = unat (max_size * 4) div 4
      in if cleared \<le> length storage
         then Some \<lparr>oa_array = replicate cleared 0 @ drop cleared storage, oa_size = 0,
                    oa_max_size = max_size, oa_predicate = less_predicate\<rparr>
         else None)"

fun insert_loop ::
    "(u32 \<Rightarrow> u32 \<Rightarrow> bool) \<Rightarrow> u32 \<Rightarrow> u32 list \<Rightarrow> nat \<Rightarrow> (nat \<times> u32 list) option" where
  "insert_loop predicate val array 0 = Some (0, array)"
| "insert_loop predicate val array (Suc i) =
     (if length array \<le> i then None
      else if predicate val (array ! i)
           then (if length array \<le> Suc i then None
                 else insert_loop predicate val (array[Suc i := array ! i]) i)
           else Some (Suc i, array))"

definition insert_ordered_array :: "ordered_array \<Rightarrow> u32 \<Rightarrow> (u32 \<times> ordered_array) option" where
  "insert_ordered_array oa val =
     (if oa_size oa < oa_max_size oa
      then (case insert_loop (oa_predicate oa) val (oa_array oa) (unat (oa_size oa)) of
              None \<Rightarrow> None
            | Some (i, array) \<Rightarrow>
                if i < length array
                then Some (of_nat i, oa\<lparr>oa_array := array[i := val], oa_size := oa_size oa + 1\<rparr>)
                else None)
      else Some (0, oa))"

text \<open>\<open>bound\<close> is the loop bound \<^verbatim>\<open>size - 1\<close>, computed in 32 bits.\<close>

function remove_loop :: "u32 list \<Rightarrow> nat \<Rightarrow> nat \<Rightarrow> (nat \<times> u32 list) option" where
  "remove_loop array i bound =
     (if i < bound
      then (if Suc i < length array
            then remove_loop (array[i := array ! Suc i]) (Suc i) bound
            else None)
      else Some (i, array))"
  by pat_completeness auto
termination
  by (relation "measure (\<lambda>(array, i, bound). bound - i)") auto

declare remove_loop.simps [simp del]

definition remove_ordered_array :: "ordered_array \<Rightarrow> u32 \<Rightarrow> ordered_array option" where
  "remove_ordered_array oa i =
     (case remove_loop (oa_array oa) (unat i) (unat (oa_size oa - 1)) of
        None \<Rightarrow> None
      | Some (i, array) \<Rightarrow>
          if i < length array
          then Some (oa\<lparr>oa_array := array[i := 0], oa_size := oa_size oa - 1\<rparr>)
          else None)"

definition get_ordered_array :: "ordered_array \<Rightarrow> u32 \<Rightarrow> u32 option" where
  "get_ordered_array oa i =
     (if unat i < length (oa_array oa) then Some (oa_array oa ! unat i) else None)"

function find_loop :: "u32 list \<Rightarrow> u32 \<Rightarrow> nat \<Rightarrow> nat \<Rightarrow> u32 option" where
  "find_loop array val i n =
     (if i < n
      then (if i < length array
            then (if array ! i = val then Some (of_nat i) else find_loop array val (Suc i) n)
            else None)
      else Some 0xFFFFFFFF)"
  by pat_completeness auto
termination
  by (relation "measure (\<lambda>(array, val, i, n). n - i)") auto

declare find_loop.simps [simp del]

definition find_ordered_array :: "ordered_array \<Rightarrow> u32 \<Rightarrow> u32 option" where
  "find_ordered_array oa val = find_loop (oa_array oa) val 0 (unat (oa_size oa))"

section \<open>Abstraction and invariant\<close>

definition oa_list :: "ordered_array \<Rightarrow> u32 list" where
  "oa_list oa = take (unat (oa_size oa)) (oa_array oa)"

definition oa_inv :: "ordered_array \<Rightarrow> bool" where
  "oa_inv oa \<longleftrightarrow> length (oa_array oa) = unat (oa_max_size oa) \<and> oa_size oa \<le> oa_max_size oa
     \<and> oa_predicate oa = less_predicate \<and> sorted (oa_list oa)"

section \<open>Lemmas\<close>

lemma less_predicate_eq: "less_predicate a b = (a < b)"
  by (simp add: less_predicate_def)

lemma oa_inv_length: "oa_inv oa \<Longrightarrow> length (oa_list oa) = unat (oa_size oa)"
  by (simp add: oa_inv_def oa_list_def word_le_nat_alt)

text \<open>The shifting loop makes room at the right place and moves nothing else.\<close>

lemma insert_loop_shift:
  assumes "i < length array"
  shows "\<exists>k array'. insert_loop less_predicate v array i = Some (k, array') \<and> k \<le> i
    \<and> length array' = length array
    \<and> array'[k := v] = take k array @ v # drop k (take i array) @ drop (Suc i) array
    \<and> (\<forall>j. k \<le> j \<longrightarrow> j < i \<longrightarrow> v < array ! j) \<and> (0 < k \<longrightarrow> array ! (k - 1) \<le> v)"
  using assms
proof (induction i arbitrary: array)
  case 0
  then have "array[0 := v] = v # drop (Suc 0) array" by (cases array) auto
  with 0 show ?case by simp
next
  case (Suc i)
  show ?case
  proof (cases "v < array ! i")
    case True
    let ?a = "array[Suc i := array ! i]"
    have "i < length ?a" using Suc.prems by simp
    from Suc.IH [OF this] obtain k a' where k: "k \<le> i" "length a' = length ?a"
      and eq: "insert_loop less_predicate v ?a i = Some (k, a')"
      and a': "a'[k := v] = take k ?a @ v # drop k (take i ?a) @ drop (Suc i) ?a"
      and gt: "\<forall>j. k \<le> j \<longrightarrow> j < i \<longrightarrow> v < ?a ! j" and le: "0 < k \<longrightarrow> ?a ! (k - 1) \<le> v"
      by blast
    have "drop (Suc i) ?a = array ! i # drop (Suc (Suc i)) array"
      using Suc.prems by (subst Cons_nth_drop_Suc [symmetric]) auto
    then have "a'[k := v] = take k array @ v # drop k (take (Suc i) array) @ drop (Suc (Suc i)) array"
      using a' k(1) Suc.prems by (simp add: take_Suc_conv_app_nth)
    moreover have "\<forall>j. k \<le> j \<longrightarrow> j < Suc i \<longrightarrow> v < array ! j"
      using gt True by (auto simp: less_Suc_eq nth_list_update)
    moreover have "0 < k \<longrightarrow> array ! (k - 1) \<le> v" using le k(1) by simp
    moreover have "insert_loop less_predicate v array (Suc i) = Some (k, a')"
      using Suc.prems True eq by (simp add: less_predicate_eq [of v])
    ultimately show ?thesis using k by auto
  next
    case False
    have "array[Suc i := v] = take (Suc i) array @ v # drop (Suc (Suc i)) array"
      using Suc.prems by (simp add: upd_conv_take_nth_drop)
    then show ?thesis using False Suc.prems by (auto simp: less_predicate_eq [of v])
  qed
qed

lemma sorted_insert_at:
  assumes "sorted (xs :: u32 list)" "k \<le> length xs"
    and "\<forall>j. k \<le> j \<longrightarrow> j < length xs \<longrightarrow> v < xs ! j" and "0 < k \<longrightarrow> xs ! (k - 1) \<le> v"
  shows "take k xs @ v # drop k xs = insort v xs"
proof -
  have "\<forall>x \<in> set (drop k xs). v \<le> x"
    using assms(2,3) by (auto simp: in_set_conv_nth less_imp_le)
  moreover have "\<forall>x \<in> set (take k xs). x \<le> v"
  proof
    fix x assume "x \<in> set (take k xs)"
    then obtain j where "j < k" "j < length xs" "x = xs ! j" by (auto simp: in_set_conv_nth)
    then have "x \<le> xs ! (k - 1)" using assms(1,2) by (auto intro: sorted_nth_mono)
    with assms(4) \<open>j < k\<close> show "x \<le> v" by simp
  qed
  moreover have "sorted (take k xs)" "sorted (drop k xs)"
    using assms(1) by (simp_all add: sorted_wrt_take sorted_wrt_drop)
  ultimately have "sorted (take k xs @ v # drop k xs)"
    by (auto simp: sorted_append) (meson order_trans)
  moreover have "mset (take k xs @ v # drop k xs) = mset (v # xs)"
    by (metis append_take_drop_id mset.simps(2) mset_append union_mset_add_mset_right)
  ultimately have "sort (v # xs) = take k xs @ v # drop k xs"
    by (metis properties_for_sort)
  then show ?thesis using assms(1) by (simp add: sorted_sort_id)
qed

lemma insert_ordered_array_correct:
  assumes inv: "oa_inv oa" and room: "oa_size oa < oa_max_size oa"
  shows "\<exists>i oa'. insert_ordered_array oa v = Some (i, oa') \<and> oa_inv oa'
    \<and> oa_list oa' = insort v (oa_list oa) \<and> oa_max_size oa' = oa_max_size oa
    \<and> unat (oa_size oa') = Suc (unat (oa_size oa)) \<and> oa_list oa' ! unat i = v"
proof -
  let ?n = "unat (oa_size oa)" and ?a = "oa_array oa"
  have n: "?n < length ?a" "oa_predicate oa = less_predicate" "sorted (take ?n ?a)"
    and len: "length ?a = unat (oa_max_size oa)"
    using inv room by (simp_all add: oa_inv_def oa_list_def word_less_nat_alt)
  from insert_loop_shift [OF n(1), of v] obtain k a' where
    k: "insert_loop less_predicate v ?a ?n = Some (k, a')" "k \<le> ?n" "length a' = length ?a"
    and a': "a'[k := v] = take k ?a @ v # drop k (take ?n ?a) @ drop (Suc ?n) ?a"
    and pos: "\<forall>j. k \<le> j \<longrightarrow> j < ?n \<longrightarrow> v < ?a ! j" "0 < k \<longrightarrow> ?a ! (k - 1) \<le> v"
    by blast
  let ?oa = "oa\<lparr>oa_array := a'[k := v], oa_size := oa_size oa + 1\<rparr>"
  have res: "insert_ordered_array oa v = Some (of_nat k, ?oa)"
    using room n k by (simp add: insert_ordered_array_def)
  have size': "unat (oa_size oa + 1) = Suc ?n"
    using n(1) len unat_u32_less [of "oa_max_size oa"] by (simp add: unat_word_ariths)
  have kn: "unat (of_nat k :: u32) = k"
    using k(2) unat_u32_less [of "oa_size oa"] by (simp add: unat_of_nat_u32)
  have "oa_list ?oa = take k (take ?n ?a) @ v # drop k (take ?n ?a)"
    using k(2) n(1) by (simp add: oa_list_def size' a' min_def Suc_diff_le)
  also have "\<dots> = insort v (take ?n ?a)"
    using k(2) n pos by (intro sorted_insert_at) auto
  finally have list: "oa_list ?oa = insort v (oa_list oa)" by (simp add: oa_list_def)
  moreover have "oa_inv ?oa"
    using n len k(3) size' list inv
    by (simp add: oa_inv_def sorted_insort word_le_nat_alt)
  moreover have "oa_list ?oa ! k = v"
    using k n size' by (simp add: oa_list_def)
  ultimately show ?thesis using res size' kn by auto
qed

lemma remove_loop_shift:
  assumes "i \<le> bound" "bound < length array"
  shows "\<exists>array'. remove_loop array i bound = Some (bound, array') \<and> length array' = length array
    \<and> take bound array' = take i array @ take (bound - i) (drop (Suc i) array)
    \<and> drop (Suc bound) array' = drop (Suc bound) array"
  using assms
proof (induction "bound - i" arbitrary: i array)
  case 0
  then show ?case by (subst remove_loop.simps) simp
next
  case (Suc d)
  let ?a = "array[i := array ! Suc i]"
  have i: "i < bound" using Suc.hyps(2) by simp
  have d: "d = bound - Suc i" and le: "Suc i \<le> bound" and lt: "bound < length ?a"
    using Suc.hyps(2) Suc.prems i by auto
  from Suc.hyps(1) [OF d le lt] obtain array' where
    IH: "remove_loop ?a (Suc i) bound = Some (bound, array')" "length array' = length ?a"
      "take bound array' = take (Suc i) ?a @ take (bound - Suc i) (drop (Suc (Suc i)) ?a)"
      "drop (Suc bound) array' = drop (Suc bound) ?a"
    by blast
  have "take (Suc i) ?a = take i array @ [array ! Suc i]"
    using i Suc.prems by (simp add: take_Suc_conv_app_nth)
  moreover have "take (bound - i) (drop (Suc i) array) =
      array ! Suc i # take (bound - Suc i) (drop (Suc (Suc i)) array)"
  proof -
    have "drop (Suc i) array = array ! Suc i # drop (Suc (Suc i)) array"
      using i Suc.prems by (simp add: Cons_nth_drop_Suc)
    moreover have "bound - i = Suc (bound - Suc i)" using i by simp
    ultimately show ?thesis by simp
  qed
  ultimately show ?case
    using IH i Suc.prems by (subst remove_loop.simps) auto
qed

lemma sorted_remove:
  assumes "sorted xs" "k < length xs"
  shows "sorted (take k xs @ drop (Suc k) xs)"
proof -
  have "sorted (take k xs @ xs ! k # drop (Suc k) xs)"
    using assms by (simp flip: id_take_nth_drop)
  then show ?thesis by (auto simp: sorted_append)
qed

lemma remove_ordered_array_correct:
  assumes inv: "oa_inv oa" and i: "unat i < unat (oa_size oa)"
  shows "\<exists>oa'. remove_ordered_array oa i = Some oa' \<and> oa_inv oa'
    \<and> oa_list oa' = take (unat i) (oa_list oa) @ drop (Suc (unat i)) (oa_list oa)
    \<and> oa_max_size oa' = oa_max_size oa \<and> unat (oa_size oa') = unat (oa_size oa) - 1"
proof -
  let ?n = "unat (oa_size oa)" and ?a = "oa_array oa"
  have size': "unat (oa_size oa - 1) = ?n - 1"
    using i by (simp add: unat_sub_u32)
  have n: "?n \<le> length ?a" using inv by (simp add: oa_inv_def word_le_nat_alt)
  have bounds: "unat i \<le> ?n - 1" "?n - 1 < length ?a" using i n by auto
  from remove_loop_shift [OF this] obtain a' where
    a': "remove_loop ?a (unat i) (?n - 1) = Some (?n - 1, a')" "length a' = length ?a"
      "take (?n - 1) a' = take (unat i) ?a @ take (?n - 1 - unat i) (drop (Suc (unat i)) ?a)"
    by blast
  let ?oa = "oa\<lparr>oa_array := a'[?n - 1 := 0], oa_size := oa_size oa - 1\<rparr>"
  have res: "remove_ordered_array oa i = Some ?oa"
    using a' i n by (simp add: remove_ordered_array_def size')
  have list: "oa_list ?oa = take (unat i) (oa_list oa) @ drop (Suc (unat i)) (oa_list oa)"
    using a'(3) i by (simp add: oa_list_def size' min_def take_drop)
  have "sorted (oa_list ?oa)"
    unfolding list using inv i by (intro sorted_remove) (simp_all add: oa_inv_def oa_inv_length)
  then have "oa_inv ?oa"
    using inv a'(2) size' by (auto simp: oa_inv_def word_le_nat_alt)
  then show ?thesis using res list size' by auto
qed

lemma get_ordered_array_correct:
  "oa_inv oa \<Longrightarrow> unat i < unat (oa_size oa) \<Longrightarrow> get_ordered_array oa i = Some (oa_list oa ! unat i)"
  by (simp add: oa_inv_def get_ordered_array_def oa_list_def word_le_nat_alt)

lemma find_loop_absent:
  "n \<le> length array \<Longrightarrow> v \<notin> set (drop i (take n array)) \<Longrightarrow> find_loop array v i n = Some 0xFFFFFFFF"
proof (induction array v i n rule: find_loop.induct)
  case (1 array v i n)
  show ?case
  proof (cases "i < n")
    case True
    then have "drop i (take n array) = array ! i # drop (Suc i) (take n array)"
      using "1.prems" by (metis Cons_nth_drop_Suc length_take min.absorb2 nth_take)
    then show ?thesis using True 1 by (subst find_loop.simps) auto
  next
    case False
    then show ?thesis by (subst find_loop.simps) simp
  qed
qed

lemma find_loop_first:
  assumes "n \<le> length array" "k < n" "array ! k = v" "\<forall>j<k. array ! j \<noteq> v"
  shows "i \<le> k \<Longrightarrow> find_loop array v i n = Some (of_nat k)"
proof (induction "k - i" arbitrary: i)
  case 0
  then show ?case using assms by (subst find_loop.simps) simp
next
  case (Suc d)
  then have "find_loop array v (Suc i) n = Some (of_nat k)" by simp
  then show ?case using assms Suc by (subst find_loop.simps) auto
qed

lemma find_ordered_array_correct:
  assumes inv: "oa_inv oa" and list: "oa_list oa = xs @ v # ys" "v \<notin> set xs"
  shows "find_ordered_array oa v = Some (of_nat (length xs))"
proof -
  let ?n = "unat (oa_size oa)" and ?a = "oa_array oa"
  have len: "?n \<le> length ?a" "length xs < ?n"
    using inv oa_inv_length [OF inv] list(1) by (simp_all add: oa_inv_def word_le_nat_alt)
  have nth: "?a ! j = (xs @ v # ys) ! j" if "j < ?n" for j
    using that list(1) by (metis nth_take oa_list_def)
  have "\<forall>j<length xs. ?a ! j \<noteq> v"
    using nth len list(2) by (auto simp: nth_append)
  then show ?thesis
    unfolding find_ordered_array_def
    using find_loop_first [OF len(1,2), of v 0] nth [OF len(2)] by simp
qed

lemma init_ordered_array_place_correct:
  assumes "unat max_size < 2 ^ 30" "length storage = unat max_size"
  shows "\<exists>oa. init_ordered_array_place storage max_size = Some oa \<and> oa_inv oa
    \<and> oa_list oa = [] \<and> oa_max_size oa = max_size"
proof -
  have "unat (max_size * 4) = unat max_size * 4"
    using assms(1) by (simp add: unat_mult_u32)
  then show ?thesis
    using assms by (simp add: init_ordered_array_place_def oa_inv_def oa_list_def)
qed

section \<open>Interface\<close>

lemma insort_at:
  assumes "\<forall>x \<in> set xs. x < (v :: u32)" "\<forall>y \<in> set ys. v < y"
  shows "insort v (xs @ ys) = xs @ v # ys"
  using assms
proof (induction xs)
  case Nil
  then show ?case by (cases ys) auto
next
  case (Cons x xs)
  then show ?case by auto
qed

text \<open>
  A bounded store of addresses in ascending order, addressed by index. The lemmas say
  what each operation does at a known position, the form in which the heap uses them.
\<close>

locale sorted_store =
  fixes ins :: "'s \<Rightarrow> u32 \<Rightarrow> (u32 \<times> 's) option"
    and rem :: "'s \<Rightarrow> u32 \<Rightarrow> 's option"
    and get :: "'s \<Rightarrow> u32 \<Rightarrow> u32 option"
    and find :: "'s \<Rightarrow> u32 \<Rightarrow> u32 option"
    and elems :: "'s \<Rightarrow> u32 list"
    and capacity :: "'s \<Rightarrow> nat"
    and valid :: "'s \<Rightarrow> bool"
  assumes ins: "valid s \<Longrightarrow> length (elems s) < capacity s \<Longrightarrow>
      \<exists>i s'. ins s v = Some (i, s') \<and> valid s' \<and> elems s' = insort v (elems s)
        \<and> capacity s' = capacity s"
    and rem: "valid s \<Longrightarrow> unat i < length (elems s) \<Longrightarrow>
      \<exists>s'. rem s i = Some s' \<and> valid s' \<and> capacity s' = capacity s
        \<and> elems s' = take (unat i) (elems s) @ drop (Suc (unat i)) (elems s)"
    and get: "valid s \<Longrightarrow> unat i < length (elems s) \<Longrightarrow> get s i = Some (elems s ! unat i)"
    and find: "valid s \<Longrightarrow> elems s = xs @ v # ys \<Longrightarrow> v \<notin> set xs \<Longrightarrow>
      find s v = Some (of_nat (length xs))"
    and bounded: "valid s \<Longrightarrow> length (elems s) < 2 ^ 32"
begin

lemma position:
  assumes "valid s" "elems s = xs @ v # ys"
  shows "unat (of_nat (length xs) :: u32) = length xs" "length xs < length (elems s)"
  using bounded [OF assms(1)] assms(2) by (auto simp: unat_of_nat_u32)

lemma get_at: "valid s \<Longrightarrow> elems s = xs @ v # ys \<Longrightarrow> get s (of_nat (length xs)) = Some v"
  using get [of s "of_nat (length xs)"] position [of s xs v ys] by simp

lemma remove_at:
  assumes "valid s" "elems s = xs @ v # ys"
  obtains s' where "rem s (of_nat (length xs)) = Some s'" "valid s'" "elems s' = xs @ ys"
    "capacity s' = capacity s"
  using rem [OF assms(1), of "of_nat (length xs)"] position [OF assms] assms(2) by auto

lemma insert_at:
  assumes "valid s" "elems s = xs @ ys" "length (elems s) < capacity s"
    and "\<forall>x \<in> set xs. x < v" "\<forall>y \<in> set ys. v < y"
  obtains i s' where "ins s v = Some (i, s')" "valid s'" "elems s' = xs @ v # ys"
    "capacity s' = capacity s"
  using ins [OF assms(1,3), of v] insort_at [OF assms(4,5)] assms(2) by auto

end

interpretation oas: sorted_store insert_ordered_array remove_ordered_array get_ordered_array
  find_ordered_array oa_list "\<lambda>oa. unat (oa_max_size oa)" oa_inv
proof unfold_locales
  fix s v assume "oa_inv s" "length (oa_list s) < unat (oa_max_size s)"
  then show "\<exists>i s'. insert_ordered_array s v = Some (i, s') \<and> oa_inv s'
      \<and> oa_list s' = insort v (oa_list s) \<and> unat (oa_max_size s') = unat (oa_max_size s)"
    using insert_ordered_array_correct [of s v] by (auto simp: oa_inv_length word_less_nat_alt)
next
  fix s and i :: u32 assume "oa_inv s" "unat i < length (oa_list s)"
  then show "\<exists>s'. remove_ordered_array s i = Some s' \<and> oa_inv s'
      \<and> unat (oa_max_size s') = unat (oa_max_size s)
      \<and> oa_list s' = take (unat i) (oa_list s) @ drop (Suc (unat i)) (oa_list s)"
    using remove_ordered_array_correct [of s i] by (auto simp: oa_inv_length)
next
  fix s assume "oa_inv s"
  then show "length (oa_list s) < 2 ^ 32"
    using oa_inv_length unat_u32_less [of "oa_size s"] by simp
qed (simp_all add: get_ordered_array_correct oa_inv_length find_ordered_array_correct)

section \<open>Properties\<close>

text \<open>
  C33: insertion into an ordered array with room keeps the invariant, puts the value into the
  sorted sequence and returns its index; into a full array it changes nothing and returns 0.
\<close>

theorem insert_ordered_array_sorted:
  assumes "oa_inv oa"
  shows "if oa_size oa < oa_max_size oa
    then \<exists>i oa'. insert_ordered_array oa v = Some (i, oa') \<and> oa_inv oa' \<and>
      oa_list oa' = insort v (oa_list oa) \<and> oa_list oa' ! unat i = v
    else insert_ordered_array oa v = Some (0, oa)"
  using insert_ordered_array_correct [OF assms, of v] by (auto simp: insert_ordered_array_def)

definition sample_array :: ordered_array where
  "sample_array = \<lparr>oa_array = [3, 8, 0, 0], oa_size = 2, oa_max_size = 4, oa_predicate = less_predicate\<rparr>"

lemma sample_array_inv: "oa_inv sample_array"
  by (simp add: oa_inv_def sample_array_def oa_list_def)

theorem insert_ordered_array_sorted_witness:
  "oa_inv sample_array \<and> (\<exists>i oa'. insert_ordered_array sample_array 5 = Some (i, oa') \<and>
     oa_list oa' = [3, 5, 8])"
  using insert_ordered_array_sorted [OF sample_array_inv, of 5] sample_array_inv
  by (auto simp: sample_array_def oa_list_def)

text \<open>
  Looking up a stored value gives its first index, and removing that index takes out that
  one value and keeps the order; a value that is not stored is reported as -1.
\<close>

lemma find_remove_ordered_array:
  assumes "oa_inv oa"
  shows "(v \<in> set (oa_list oa) \<longrightarrow> (\<exists>i oa'. find_ordered_array oa v = Some i \<and>
      get_ordered_array oa i = Some v \<and> remove_ordered_array oa i = Some oa' \<and>
      oa_inv oa' \<and> oa_list oa' = remove1 v (oa_list oa))) \<and>
    (v \<notin> set (oa_list oa) \<longrightarrow> find_ordered_array oa v = Some 0xFFFFFFFF)"
proof (intro conjI impI)
  assume "v \<in> set (oa_list oa)"
  then obtain xs ys where v: "oa_list oa = xs @ v # ys" "v \<notin> set xs" by (metis split_list_first)
  moreover from this have "remove1 v (oa_list oa) = xs @ ys" by (simp add: remove1_append)
  ultimately show "\<exists>i oa'. find_ordered_array oa v = Some i \<and>
      get_ordered_array oa i = Some v \<and> remove_ordered_array oa i = Some oa' \<and>
      oa_inv oa' \<and> oa_list oa' = remove1 v (oa_list oa)"
    using oas.find [OF assms v] oas.get_at [OF assms v(1)] oas.remove_at [OF assms v(1)] by metis
next
  assume "v \<notin> set (oa_list oa)"
  then show "find_ordered_array oa v = Some 0xFFFFFFFF"
    using find_loop_absent [of "unat (oa_size oa)" "oa_array oa" v 0] assms
    by (simp add: find_ordered_array_def oa_list_def oa_inv_def word_le_nat_alt)
qed

end
