(* ===== verification/Kheap.thy ===== *)
theory Kheap
  imports Frames Ordered_Array "HOL-Library.Monad_Syntax"
begin

text \<open>
  The kernel heap of \<^verbatim>\<open>src/kernel/kernel/mm/kmm.c\<close>: one region of boundary-tagged blocks
  in byte memory, and two ordered arrays with the addresses of the headers and the
  footers. A header is four words (\<^verbatim>\<open>size\<close>, \<^verbatim>\<open>footer\<close>, \<^verbatim>\<open>used\<close>, \<^verbatim>\<open>magic\<close>); a footer is two
  words (\<^verbatim>\<open>header\<close>, \<^verbatim>\<open>res\<close>) and a 64-bit \<^verbatim>\<open>magic\<close>. Memory is indexed by kernel virtual
  address. An array access out of bounds is \<open>None\<close>; the lemmas show that it does not occur.
\<close>

section \<open>State\<close>

definition KHEAP_MAGIC_64 :: u64 where "KHEAP_MAGIC_64 = 0xB10CB10CB10CB10C"

definition KHEAP_MAGIC_32 :: u32 where "KHEAP_MAGIC_32 = 0xB10CB10C"

definition KHEAP_PAGES :: u32 where "KHEAP_PAGES = 1024"

record heap =
  heap_user :: u16
  heap_rw :: u16
  heap_start :: u32
  heap_end :: u32
  heap_max_addr :: u32
  heap_magic :: u64

text \<open>There is one heap, so its two array pointers are fields of the state.\<close>

record kmm = pmm +
  kmem :: mem
  kheap :: heap
  kheap_header_array :: ordered_array
  kheap_footer_array :: ordered_array

section \<open>Headers and footers\<close>

definition header_size :: "u32 \<Rightarrow> 'a kmm_scheme \<Rightarrow> u32" where
  "header_size h s = load32 (kmem s) h"

definition header_footer :: "u32 \<Rightarrow> 'a kmm_scheme \<Rightarrow> u32" where
  "header_footer h s = load32 (kmem s) (h + 4)"

definition header_used :: "u32 \<Rightarrow> 'a kmm_scheme \<Rightarrow> u32" where
  "header_used h s = load32 (kmem s) (h + 8)"

definition header_magic :: "u32 \<Rightarrow> 'a kmm_scheme \<Rightarrow> u32" where
  "header_magic h s = load32 (kmem s) (h + 12)"

definition footer_header :: "u32 \<Rightarrow> 'a kmm_scheme \<Rightarrow> u32" where
  "footer_header f s = load32 (kmem s) f"

definition footer_magic :: "u32 \<Rightarrow> 'a kmm_scheme \<Rightarrow> u64" where
  "footer_magic f s = load64 (kmem s) (f + 8)"

definition set_header_size :: "u32 \<Rightarrow> u32 \<Rightarrow> 'a kmm_scheme \<Rightarrow> 'a kmm_scheme" where
  "set_header_size h v s = s\<lparr>kmem := store32 (kmem s) h v\<rparr>"

definition set_header_footer :: "u32 \<Rightarrow> u32 \<Rightarrow> 'a kmm_scheme \<Rightarrow> 'a kmm_scheme" where
  "set_header_footer h v s = s\<lparr>kmem := store32 (kmem s) (h + 4) v\<rparr>"

definition set_header_used :: "u32 \<Rightarrow> u32 \<Rightarrow> 'a kmm_scheme \<Rightarrow> 'a kmm_scheme" where
  "set_header_used h v s = s\<lparr>kmem := store32 (kmem s) (h + 8) v\<rparr>"

definition set_header_magic :: "u32 \<Rightarrow> u32 \<Rightarrow> 'a kmm_scheme \<Rightarrow> 'a kmm_scheme" where
  "set_header_magic h v s = s\<lparr>kmem := store32 (kmem s) (h + 12) v\<rparr>"

definition set_footer_header :: "u32 \<Rightarrow> u32 \<Rightarrow> 'a kmm_scheme \<Rightarrow> 'a kmm_scheme" where
  "set_footer_header f v s = s\<lparr>kmem := store32 (kmem s) f v\<rparr>"

definition set_footer_res :: "u32 \<Rightarrow> u32 \<Rightarrow> 'a kmm_scheme \<Rightarrow> 'a kmm_scheme" where
  "set_footer_res f v s = s\<lparr>kmem := store32 (kmem s) (f + 4) v\<rparr>"

definition set_footer_magic :: "u32 \<Rightarrow> u64 \<Rightarrow> 'a kmm_scheme \<Rightarrow> 'a kmm_scheme" where
  "set_footer_magic f v s = s\<lparr>kmem := store64 (kmem s) (f + 8) v\<rparr>"

section \<open>Consistency checks\<close>

definition kmm_prechecks :: "'a kmm_scheme \<Rightarrow> bool \<times> 'a kmm_scheme" where
  "kmm_prechecks s =
     (let (ret, s) = (if heap_magic (kheap s) \<noteq> KHEAP_MAGIC_64
                      then (False, kprint (''HEAP MAGIC FAILED'' @ nl) [] s) else (True, s))
      in if oa_size (kheap_header_array s) \<noteq> oa_size (kheap_footer_array s)
         then (False, kprint (''HEADER AND FOOTER ARRAY SIZE MISMATCH'' @ nl) [] s)
         else (ret, s))"

definition kmm_checks :: "u32 \<Rightarrow> u32 \<Rightarrow> 'a kmm_scheme \<Rightarrow> bool \<times> 'a kmm_scheme" where
  "kmm_checks header footer s =
     (let (ret, s) = (if header_magic header s \<noteq> KHEAP_MAGIC_32
                      then (False, kprint (''HEADER MAGIC FAILED %x'' @ nl)
                                     [ArgW (header_magic header s)] s)
                      else (True, s));
          (ret, s) = (if footer_magic footer s \<noteq> KHEAP_MAGIC_64
                      then (False, kprint (''FOOTER MAGIC FAILED %x'' @ nl)
                                     [ArgW (ucast (footer_magic footer s)),
                                      ArgW (ucast (drop_bit 32 (footer_magic footer s)))] s)
                      else (ret, s));
          (ret, s) = (if header_footer header s \<noteq> footer
                      then (False, kprint (''HEADER DOES NOT POINT TO FOOTER %x'' @ nl)
                                     [ArgW (header_footer header s)] s)
                      else (ret, s))
      in if footer_header footer s \<noteq> header
         then (False, kprint (''FOOTER DOES NOT POINT TO HEADER %x'' @ nl)
                        [ArgW (footer_header footer s)] s)
         else (ret, s))"

fun print_blocks :: "nat list \<Rightarrow> 'a kmm_scheme \<Rightarrow> 'a kmm_scheme option" where
  "print_blocks [] s = Some s"
| "print_blocks (i # is) s =
     do {
       header \<leftarrow> get_ordered_array (kheap_header_array s) (of_nat i);
       footer \<leftarrow> get_ordered_array (kheap_footer_array s) (of_nat i);
       let block_start = (header + 0x10) AND 0xFF;
       let footer_end = (footer + 0x10) AND 0xFF;
       let used = (if header_used header s = 0 then ''free'' else ''used'');
       print_blocks is
         (kprint (''%x|%x --%s-- %x|%x'' @ nl)
            [ArgW header, ArgW block_start, ArgS used, ArgW footer, ArgW footer_end] s)
     }"

definition print_kheap :: "'a kmm_scheme \<Rightarrow> 'a kmm_scheme option" where
  "print_kheap s =
     print_blocks [0..<unat (oa_size (kheap_header_array s))]
       (kprint (''heap info - start: %x, end: %x, magic: %x'' @ nl)
          [ArgW (heap_start (kheap s)), ArgW (heap_end (kheap s)),
           ArgW (ucast (heap_magic (kheap s))), ArgW (ucast (drop_bit 32 (heap_magic (kheap s))))] s)"

section \<open>Allocation\<close>

definition insert_header :: "u32 \<Rightarrow> 'a kmm_scheme \<Rightarrow> 'a kmm_scheme option" where
  "insert_header v s =
     map_option (\<lambda>(i, oa). s\<lparr>kheap_header_array := oa\<rparr>)
       (insert_ordered_array (kheap_header_array s) v)"

definition insert_footer :: "u32 \<Rightarrow> 'a kmm_scheme \<Rightarrow> 'a kmm_scheme option" where
  "insert_footer v s =
     map_option (\<lambda>(i, oa). s\<lparr>kheap_footer_array := oa\<rparr>)
       (insert_ordered_array (kheap_footer_array s) v)"

text \<open>The memory writes of a split, in the order of the source.\<close>

definition split_block :: "u32 \<Rightarrow> u32 \<Rightarrow> u32 \<Rightarrow> 'a kmm_scheme \<Rightarrow> 'a kmm_scheme" where
  "split_block header footer sz s =
     (let new_footer = header + sz + 16;
          new_header = new_footer + 16;
          s = set_footer_header new_footer header s;
          s = set_footer_magic new_footer KHEAP_MAGIC_64 s;
          s = set_footer_res new_footer 0 s;
          s = set_header_size new_header (header_size header s - (sz + 16 + 16)) s;
          s = set_header_footer new_header footer s;
          s = set_header_used new_header 0 s;
          s = set_header_magic new_header KHEAP_MAGIC_32 s;
          s = set_footer_header footer new_header s;
          s = set_header_size header sz s;
          s = set_header_footer header new_footer s
      in set_header_used header 1 s)"

definition alloc_from_block ::
    "u32 \<Rightarrow> u32 \<Rightarrow> u32 \<Rightarrow> 'a kmm_scheme \<Rightarrow> (u32 \<times> 'a kmm_scheme) option" where
  "alloc_from_block header footer sz s =
     (if sz \<ge> header_size header s - 16 - 16 - 64
      then Some (header, set_header_used header 1 s)
      else let new_footer = header + sz + 16;
               new_header = new_footer + 16
           in do {
                s \<leftarrow> insert_header new_header (split_block header footer sz s);
                s \<leftarrow> insert_footer new_footer s;
                Some (header, s)
              })"

fun alloc_search :: "u32 \<Rightarrow> nat list \<Rightarrow> 'a kmm_scheme \<Rightarrow> (u32 \<times> 'a kmm_scheme) option" where
  "alloc_search sz [] s = Some (0, s)"
| "alloc_search sz (i # is) s =
     do {
       header \<leftarrow> get_ordered_array (kheap_header_array s) (of_nat i);
       footer \<leftarrow> get_ordered_array (kheap_footer_array s) (of_nat i);
       if header_used header s \<noteq> 0 \<or> header_size header s < sz then alloc_search sz is s
       else let (ok, s) = kmm_checks header footer s
            in if \<not> ok then alloc_search sz is s
               else if sz \<le> header_size header s
               then map_option (\<lambda>(h, s). (h + 16, s)) (alloc_from_block header footer sz s)
               else alloc_search sz is s
     }"

definition alloc :: "u32 \<Rightarrow> 'a kmm_scheme \<Rightarrow> (u32 \<times> 'a kmm_scheme) option" where
  "alloc sz s =
     (if sz = 0 then Some (0, s)
      else let (ok, s) = kmm_prechecks s
           in if \<not> ok then Some (0, s)
              else let sz = (if sz mod 16 \<noteq> 0 then sz + (16 - sz mod 16) else sz)
                   in alloc_search sz [0..<unat (oa_size (kheap_header_array s))] s)"

definition kmalloc :: "u32 \<Rightarrow> 'a kmm_scheme \<Rightarrow> (u32 \<times> 'a kmm_scheme) option" where
  "kmalloc sz s = alloc sz s"

section \<open>Release\<close>

definition remove_header :: "u32 \<Rightarrow> 'a kmm_scheme \<Rightarrow> 'a kmm_scheme option" where
  "remove_header i s =
     map_option (\<lambda>oa. s\<lparr>kheap_header_array := oa\<rparr>) (remove_ordered_array (kheap_header_array s) i)"

definition remove_footer :: "u32 \<Rightarrow> 'a kmm_scheme \<Rightarrow> 'a kmm_scheme option" where
  "remove_footer i s =
     map_option (\<lambda>oa. s\<lparr>kheap_footer_array := oa\<rparr>) (remove_ordered_array (kheap_footer_array s) i)"

definition clear_header :: "u32 \<Rightarrow> 'a kmm_scheme \<Rightarrow> 'a kmm_scheme" where
  "clear_header h s =
     set_header_magic h 0 (set_header_used h 0 (set_header_footer h 0 (set_header_size h 0 s)))"

definition clear_footer :: "u32 \<Rightarrow> 'a kmm_scheme \<Rightarrow> 'a kmm_scheme" where
  "clear_footer f s = set_footer_magic f 0 (set_footer_res f 0 (set_footer_header f 0 s))"

definition unify_left :: "u32 \<Rightarrow> u32 \<Rightarrow> 'a kmm_scheme \<Rightarrow> (u32 \<times> 'a kmm_scheme) option" where
  "unify_left header footer s =
     do {
       index \<leftarrow> find_ordered_array (kheap_header_array s) header;
       if 0 < index
       then do {
         prev_header \<leftarrow> get_ordered_array (kheap_header_array s) (index - 1);
         let prev_footer = header_footer prev_header s;
         if header_used prev_header s = 0
         then do {
           let s = kprint (''coalescing left from %x to %x'' @ nl) [ArgW prev_header, ArgW (footer + 16)] s;
           let s = set_header_size prev_header
                     (header_size prev_header s + (header_size header s + 16 + 16)) s;
           let s = set_header_footer prev_header footer s;
           let s = set_footer_header footer prev_header s;
           let s = clear_header header s;
           let s = clear_footer prev_footer s;
           s \<leftarrow> remove_footer (index - 1) s;
           s \<leftarrow> remove_header index s;
           Some (prev_header, s)
         }
         else Some (header, s)
       }
       else Some (header, s)
     }"

definition unify_right :: "u32 \<Rightarrow> u32 \<Rightarrow> 'a kmm_scheme \<Rightarrow> (u32 \<times> 'a kmm_scheme) option" where
  "unify_right header footer s =
     do {
       index \<leftarrow> find_ordered_array (kheap_header_array s) header;
       if index < oa_size (kheap_header_array s) - 1
       then do {
         next_header \<leftarrow> get_ordered_array (kheap_header_array s) (index + 1);
         let next_footer = header_footer next_header s;
         if header_used next_header s = 0
         then do {
           let s = kprint (''coalescing right from %x to %x'' @ nl) [ArgW header, ArgW (next_footer + 16)] s;
           let s = set_header_size header
                     (header_size header s + (header_size next_header s + 16 + 16)) s;
           let s = set_header_footer header next_footer s;
           let s = set_footer_header next_footer header s;
           let s = clear_footer footer s;
           let s = clear_header next_header s;
           s \<leftarrow> remove_footer index s;
           s \<leftarrow> remove_header (index + 1) s;
           Some (next_footer, s)
         }
         else Some (footer, s)
       }
       else Some (footer, s)
     }"

definition unify :: "u32 \<Rightarrow> u32 \<Rightarrow> 'a kmm_scheme \<Rightarrow> 'a kmm_scheme option" where
  "unify header footer s =
     do {
       (header, s) \<leftarrow> unify_left header footer s;
       (_, s) \<leftarrow> unify_right header footer s;
       Some (set_header_used header 0 s)
     }"

definition free :: "u32 \<Rightarrow> 'a kmm_scheme \<Rightarrow> 'a kmm_scheme option" where
  "free ptr s =
     (let header = ptr - 16;
          footer = header_footer header s;
          (ok, s) = kmm_prechecks s
      in if \<not> ok then Some s
         else let (ok, s) = kmm_checks header footer s
              in if \<not> ok then Some s else unify header footer s)"

definition kfree :: "u32 \<Rightarrow> 'a kmm_scheme \<Rightarrow> 'a kmm_scheme option" where
  "kfree ptr s = free ptr s"

section \<open>Initialisation\<close>

text \<open>The two pointer arrays are static storage of 4096 words.\<close>

definition kheap_init :: "'a kmm_scheme \<Rightarrow> 'a kmm_scheme option" where
  "kheap_init s =
     do {
       headers \<leftarrow> init_ordered_array_place (replicate 4096 0) 4096;
       footers \<leftarrow> init_ordered_array_place (replicate 4096 0) 4096;
       let s = s\<lparr>kheap_header_array := headers, kheap_footer_array := footers\<rparr>;
       (base, s) \<leftarrow> alloc_pages PMM_FLAGS_DEFAULT KHEAP_PAGES s;
       let start = KP2V base;
       let limit = start + 1024 * PAGE_SIZE;
       let init_header = start;
       let init_footer = limit - 16;
       let s = kprint (''kheap start: %x'' @ nl) [ArgW start] s;
       let s = s\<lparr>kheap := \<lparr>heap_user = 0, heap_rw = 1, heap_start = start, heap_end = limit,
                   heap_max_addr = limit, heap_magic = KHEAP_MAGIC_64\<rparr>\<rparr>;
       let s = set_header_magic init_header KHEAP_MAGIC_32 s;
       let s = set_header_size init_header (limit - (start + 16 + 16)) s;
       let s = set_header_used init_header 0 s;
       let s = set_header_footer init_header init_footer s;
       let s = set_footer_magic init_footer KHEAP_MAGIC_64 s;
       let s = set_footer_header init_footer init_header s;
       let s = set_footer_res init_footer 0 s;
       s \<leftarrow> insert_header init_header s;
       insert_footer init_footer s
     }"

section \<open>The heap as a list of blocks\<close>

text \<open>
  A heap that starts at address \<open>a\<close> is described by the sizes and the use flags of its blocks
  from left to right. A block of size \<open>n\<close> at \<open>a\<close> has its header at \<open>a\<close>, its payload at
  \<open>a + 16\<close> and its footer at \<open>a + 16 + n\<close>.
\<close>

type_synonym blocks = "(nat \<times> bool) list"

fun block_end :: "nat \<Rightarrow> blocks \<Rightarrow> nat" where
  "block_end a [] = a"
| "block_end a ((n, u) # bs) = block_end (a + n + 32) bs"

fun headers :: "nat \<Rightarrow> blocks \<Rightarrow> nat list" where
  "headers a [] = []"
| "headers a ((n, u) # bs) = a # headers (a + n + 32) bs"

fun footers :: "nat \<Rightarrow> blocks \<Rightarrow> nat list" where
  "footers a [] = []"
| "footers a ((n, u) # bs) = (a + n + 16) # footers (a + n + 32) bs"

definition word_at :: "mem \<Rightarrow> nat \<Rightarrow> u32" where
  "word_at m k = load32 m (of_nat k)"

definition block_at :: "mem \<Rightarrow> nat \<Rightarrow> nat \<Rightarrow> bool \<Rightarrow> bool" where
  "block_at m a n u \<longleftrightarrow>
     word_at m a = of_nat n \<and> word_at m (a + 4) = of_nat (a + n + 16) \<and>
     word_at m (a + 8) = of_bool u \<and> word_at m (a + 12) = KHEAP_MAGIC_32 \<and>
     word_at m (a + n + 16) = of_nat a \<and>
     word_at m (a + n + 24) = KHEAP_MAGIC_32 \<and> word_at m (a + n + 28) = KHEAP_MAGIC_32"

fun blocks_at :: "mem \<Rightarrow> nat \<Rightarrow> blocks \<Rightarrow> bool" where
  "blocks_at m a [] = True"
| "blocks_at m a ((n, u) # bs) = (16 dvd n \<and> block_at m a n u \<and> blocks_at m (a + n + 32) bs)"

definition heap_inv :: "'a kmm_scheme \<Rightarrow> nat \<Rightarrow> blocks \<Rightarrow> bool" where
  "heap_inv s a bs \<longleftrightarrow> heap_magic (kheap s) = KHEAP_MAGIC_64 \<and>
     heap_start (kheap s) = of_nat a \<and> heap_end (kheap s) = of_nat (block_end a bs) \<and>
     oa_inv (kheap_header_array s) \<and> oa_max_size (kheap_header_array s) = 4096 \<and>
     oa_list (kheap_header_array s) = map of_nat (headers a bs) \<and>
     oa_inv (kheap_footer_array s) \<and> oa_max_size (kheap_footer_array s) = 4096 \<and>
     oa_list (kheap_footer_array s) = map of_nat (footers a bs) \<and>
     16 dvd a \<and> 0 < a \<and> block_end a bs < 2 ^ 32 \<and> blocks_at (kmem s) a bs"

section \<open>Words of memory\<close>

text \<open>A sequence of word stores, and what it leaves in an aligned word or in a byte.\<close>

definition writes :: "(nat \<times> u32) list \<Rightarrow> mem \<Rightarrow> mem" where
  "writes ws m = fold (\<lambda>(p, v) m. store32 m (of_nat p) v) ws m"

lemma word_at_store:
  assumes "4 dvd p" "4 dvd q" "p < 2 ^ 32" "q < 2 ^ 32"
  shows "word_at (store32 m (of_nat p) v) q = (if q = p then v else word_at m q)"
proof (cases "q = p")
  case True
  then show ?thesis by (simp add: word_at_def store32_self)
next
  case False
  obtain i j where ij: "p = 4 * i" "q = 4 * j" using assms by (auto elim!: dvdE)
  with False assms have "q + 4 \<le> 2 ^ 32" "p + 4 \<le> 2 ^ 32" "q + 4 \<le> p \<or> p + 4 \<le> q" by auto
  then show ?thesis using False by (simp add: word_at_def store32_other)
qed

lemma word_at_writes:
  assumes "\<forall>(p, v)\<in>set ws. 4 dvd p \<and> p < 2 ^ 32" "4 dvd q" "q < 2 ^ 32"
  shows "word_at (writes ws m) q = (case map_of (rev ws) q of None \<Rightarrow> word_at m q | Some v \<Rightarrow> v)"
  using assms(1)
proof (induction ws arbitrary: m)
  case (Cons w ws)
  obtain p v where w: "w = (p, v)" by fastforce
  have "word_at (writes ws (store32 m (of_nat p) v)) q =
      (case map_of (rev ws) q of None \<Rightarrow> word_at (store32 m (of_nat p) v) q | Some v \<Rightarrow> v)"
    using Cons by auto
  then show ?case
    using Cons.prems assms(2,3)
    by (auto simp: w writes_def word_at_store map_add_def split: option.splits)
qed (simp add: writes_def)

lemma writes_outside:
  assumes "\<forall>(p, v)\<in>set ws. lo \<le> p \<and> p + 4 \<le> hi" "hi \<le> 2 ^ 32" "k < 2 ^ 32" "k < lo \<or> hi \<le> k"
  shows "writes ws m (of_nat k) = m (of_nat k)"
  using assms(1)
proof (induction ws arbitrary: m)
  case (Cons w ws)
  obtain p v where w: "w = (p, v)" by fastforce
  have "writes ws (store32 m (of_nat p) v) (of_nat k) = store32 m (of_nat p) v (of_nat k)"
    using Cons by auto
  moreover have "store32 m (of_nat p) v (of_nat k) = m (of_nat k)"
    using Cons.prems assms(2-) w by (intro store32_byte) auto
  ultimately show ?case by (simp add: w writes_def)
qed (simp add: writes_def)

definition same_outside :: "nat \<Rightarrow> nat \<Rightarrow> mem \<Rightarrow> mem \<Rightarrow> bool" where
  "same_outside lo hi m m' \<longleftrightarrow> (\<forall>k<2 ^ 32. k < lo \<or> hi \<le> k \<longrightarrow> m' (of_nat k) = m (of_nat k))"

lemma same_outside_writes:
  "\<forall>(p, v)\<in>set ws. lo \<le> p \<and> p + 4 \<le> hi \<Longrightarrow> hi \<le> 2 ^ 32 \<Longrightarrow> same_outside lo hi m (writes ws m)"
  unfolding same_outside_def using writes_outside by blast

lemma same_outside_word:
  assumes "same_outside lo hi m m'" "q + 4 \<le> 2 ^ 32" "q + 4 \<le> lo \<or> hi \<le> q"
  shows "word_at m' q = word_at m q"
proof -
  have "m' (of_nat (q + i)) = m (of_nat (q + i))" if "i < 4" for i
    using assms(1) [unfolded same_outside_def, rule_format, of "q + i"] assms(2,3) that by auto
  from this [of 0] this [of 1] this [of 2] this [of 3] show ?thesis
    by (simp add: word_at_def load32_def add.commute)
qed

section \<open>Block lists\<close>

lemma block_end_le [simp]: "a \<le> block_end a bs"
  by (induction a bs rule: block_end.induct) auto

lemma block_end_append [simp]: "block_end a (xs @ ys) = block_end (block_end a xs) ys"
  by (induction a xs rule: block_end.induct) auto

lemma headers_append [simp]: "headers a (xs @ ys) = headers a xs @ headers (block_end a xs) ys"
  by (induction a xs rule: block_end.induct) auto

lemma footers_append [simp]: "footers a (xs @ ys) = footers a xs @ footers (block_end a xs) ys"
  by (induction a xs rule: block_end.induct) auto

lemma blocks_at_append [simp]:
  "blocks_at m a (xs @ ys) \<longleftrightarrow> blocks_at m a xs \<and> blocks_at m (block_end a xs) ys"
  by (induction a xs rule: block_end.induct) auto

lemma length_headers [simp]: "length (headers a bs) = length bs" "length (footers a bs) = length bs"
  by (induction a bs rule: block_end.induct) auto

lemma headers_bounds: "h \<in> set (headers a bs) \<Longrightarrow> a \<le> h \<and> h + 32 \<le> block_end a bs"
  by (induction a bs rule: headers.induct) (auto intro: le_trans [OF _ block_end_le])

lemma footers_bounds: "f \<in> set (footers a bs) \<Longrightarrow> a + 16 \<le> f \<and> f + 16 \<le> block_end a bs"
  by (induction a bs rule: footers.induct) (auto intro: le_trans [OF _ block_end_le])

lemma block_end_aligned: "blocks_at m a bs \<Longrightarrow> 16 dvd a \<Longrightarrow> 16 dvd block_end a bs"
  by (induction a bs rule: block_end.induct) auto

text \<open>The blocks in a region that no store touches stay as they are.\<close>

lemma blocks_at_frame:
  assumes "same_outside lo hi m m'" "block_end a bs \<le> lo \<or> hi \<le> a" "block_end a bs < 2 ^ 32"
  shows "blocks_at m' a bs = blocks_at m a bs"
  using assms(2,3)
proof (induction a bs rule: block_end.induct)
  case (2 a n u bs)
  define e where "e = block_end (a + n + 32) bs"
  have e: "a + n + 32 \<le> e" "e \<le> lo \<or> hi \<le> a" "e < 2 ^ 32" using 2 by (auto simp: e_def)
  have "word_at m' q = word_at m q" if "a \<le> q" "q + 4 \<le> a + n + 32" for q
    using e that by (intro same_outside_word [OF assms(1)]) auto
  then have "block_at m' a n u = block_at m a n u" by (simp add: block_at_def)
  moreover have "blocks_at m' (a + n + 32) bs = blocks_at m (a + n + 32) bs"
    using "2.IH" e unfolding e_def by auto
  ultimately show ?case by simp
qed simp


section \<open>Accesses at block addresses\<close>

lemma writes_writes [simp]: "writes vs (writes ws m) = writes (ws @ vs) m"
  by (simp add: writes_def)

lemma header_reads:
  "header_size (of_nat a) s = word_at (kmem s) a"
  "header_footer (of_nat a) s = word_at (kmem s) (a + 4)"
  "header_used (of_nat a) s = word_at (kmem s) (a + 8)"
  "header_magic (of_nat a) s = word_at (kmem s) (a + 12)"
  "footer_header (of_nat a) s = word_at (kmem s) a"
  by (simp_all add: header_size_def header_footer_def header_used_def header_magic_def
      footer_header_def word_at_def)

lemma footer_magic_read:
  assumes "word_at (kmem s) (f + 8) = KHEAP_MAGIC_32" "word_at (kmem s) (f + 12) = KHEAP_MAGIC_32"
  shows "footer_magic (of_nat f) s = KHEAP_MAGIC_64"
proof -
  have eight: "(of_nat f :: u32) + 8 = of_nat (f + 8)" "(of_nat (f + 8) :: u32) + 4 = of_nat (f + 12)"
    by simp_all
  have "load32 (kmem s) (of_nat (f + 8)) = KHEAP_MAGIC_32" "load32 (kmem s) (of_nat (f + 12)) = KHEAP_MAGIC_32"
    using assms by (simp_all only: word_at_def)
  then show ?thesis
    unfolding footer_magic_def load64_def eight by (simp add: KHEAP_MAGIC_32_def KHEAP_MAGIC_64_def)
qed

lemma header_writes:
  "set_header_size (of_nat a) v s = s\<lparr>kmem := writes [(a, v)] (kmem s)\<rparr>"
  "set_header_footer (of_nat a) v s = s\<lparr>kmem := writes [(a + 4, v)] (kmem s)\<rparr>"
  "set_header_used (of_nat a) v s = s\<lparr>kmem := writes [(a + 8, v)] (kmem s)\<rparr>"
  "set_header_magic (of_nat a) v s = s\<lparr>kmem := writes [(a + 12, v)] (kmem s)\<rparr>"
  "set_footer_header (of_nat a) v s = s\<lparr>kmem := writes [(a, v)] (kmem s)\<rparr>"
  "set_footer_res (of_nat a) v s = s\<lparr>kmem := writes [(a + 4, v)] (kmem s)\<rparr>"
  by (simp_all add: set_header_size_def set_header_footer_def set_header_used_def
      set_header_magic_def set_footer_header_def set_footer_res_def writes_def)

lemma footer_magic_writes:
  "set_footer_magic (of_nat f) KHEAP_MAGIC_64 s =
     s\<lparr>kmem := writes [(f + 8, KHEAP_MAGIC_32), (f + 12, KHEAP_MAGIC_32)] (kmem s)\<rparr>"
  "set_footer_magic (of_nat f) 0 s = s\<lparr>kmem := writes [(f + 8, 0), (f + 12, 0)] (kmem s)\<rparr>"
proof -
  have "(of_nat f :: u32) + 8 = of_nat (f + 8)" "(of_nat (f + 8) :: u32) + 4 = of_nat (f + 12)"
    by simp_all
  moreover have "ucast KHEAP_MAGIC_64 = KHEAP_MAGIC_32" "ucast (drop_bit 32 KHEAP_MAGIC_64) = KHEAP_MAGIC_32"
    by (simp_all add: KHEAP_MAGIC_32_def KHEAP_MAGIC_64_def)
  ultimately show "set_footer_magic (of_nat f) KHEAP_MAGIC_64 s =
      s\<lparr>kmem := writes [(f + 8, KHEAP_MAGIC_32), (f + 12, KHEAP_MAGIC_32)] (kmem s)\<rparr>"
    and "set_footer_magic (of_nat f) 0 s = s\<lparr>kmem := writes [(f + 8, 0), (f + 12, 0)] (kmem s)\<rparr>"
    unfolding set_footer_magic_def store64_def writes_def by (simp_all del: of_nat_add)
qed

lemmas block_access = header_reads header_writes footer_magic_writes

lemma kmm_fields_of_more:
  assumes "tty.more s = tty.more (s' :: 'a kmm_scheme)"
  shows "kmem s = kmem s'" "kheap s = kheap s'" "kheap_header_array s = kheap_header_array s'"
    "kheap_footer_array s = kheap_footer_array s'" "framemap s = framemap s'" "kmm.more s = kmm.more s'"
  using assms by (cases s; cases s'; simp)+

lemmas kprint_kmm [simp] = kmm_fields_of_more [OF kprint_more]

lemma kmm_checks_ok:
  assumes "block_at (kmem s) a n u"
  shows "kmm_checks (of_nat a) (of_nat (a + n + 16)) s = (True, s)"
proof -
  have "footer_magic (of_nat (a + n + 16)) s = KHEAP_MAGIC_64"
    using assms by (intro footer_magic_read) (simp_all add: block_at_def algebra_simps)
  then show ?thesis
    using assms unfolding kmm_checks_def header_reads by (simp add: block_at_def del: of_nat_add)
qed

lemma heap_inv_sizes:
  assumes "heap_inv s a bs"
  shows "unat (oa_size (kheap_header_array s)) = length bs"
    and "oa_size (kheap_header_array s) = oa_size (kheap_footer_array s)"
proof -
  have "unat (oa_size (kheap_header_array s)) = length bs" "unat (oa_size (kheap_footer_array s)) = length bs"
    using assms oa_inv_length [of "kheap_header_array s"] oa_inv_length [of "kheap_footer_array s"]
    by (simp_all add: heap_inv_def)
  then show "unat (oa_size (kheap_header_array s)) = length bs"
    and "oa_size (kheap_header_array s) = oa_size (kheap_footer_array s)"
    by (simp_all add: word_unat_eq_iff)
qed

lemma kmm_prechecks_ok: "heap_inv s a bs \<Longrightarrow> kmm_prechecks s = (True, s)"
  using heap_inv_sizes(2) [of s a bs] by (simp add: kmm_prechecks_def heap_inv_def)

section \<open>Splitting a block\<close>

lemma split_block_writes:
  assumes "block_at (kmem s) a n u" "16 dvd a" "16 dvd sz" "sz + 96 < n" "a + n + 32 < 2 ^ 32"
  shows "split_block (of_nat a) (of_nat (a + n + 16)) (of_nat sz) s =
    s\<lparr>kmem := writes [(a + sz + 16, of_nat a), (a + sz + 16 + 8, KHEAP_MAGIC_32),
        (a + sz + 16 + 12, KHEAP_MAGIC_32), (a + sz + 16 + 4, 0),
        (a + sz + 32, of_nat (n - sz - 32)), (a + sz + 32 + 4, of_nat (a + n + 16)),
        (a + sz + 32 + 8, 0), (a + sz + 32 + 12, KHEAP_MAGIC_32), (a + n + 16, of_nat (a + sz + 32)),
        (a, of_nat sz), (a + 4, of_nat (a + sz + 16)), (a + 8, 1)] (kmem s)\<rparr>"
proof -
  have addr: "of_nat a + of_nat sz + 16 = (of_nat (a + sz + 16) :: u32)"
    "(of_nat (a + sz + 16) :: u32) + 16 = of_nat (a + sz + 32)" by simp_all
  have al: "4 dvd a" "4 dvd sz" using assms(2,3) by (auto elim: dvd_trans [rotated])
  have "word_at (writes [(a + sz + 16, of_nat a), (a + sz + 16 + 8, KHEAP_MAGIC_32),
        (a + sz + 16 + 12, KHEAP_MAGIC_32), (a + sz + 16 + 4, 0)] (kmem s)) a = of_nat n"
    using assms(1,4,5) al by (subst word_at_writes) (auto simp: block_at_def)
  moreover have "(of_nat n :: u32) - (of_nat sz + 16 + 16) = of_nat (n - sz - 32)"
    using assms(4) by (simp add: of_nat_diff)
  ultimately show ?thesis
    unfolding split_block_def Let_def addr by (simp add: block_access del: of_nat_add)
qed

lemma split_block_at:
  assumes "block_at (kmem s) a n u" "16 dvd a" "16 dvd n" "16 dvd sz" "sz + 96 < n" "a + n + 32 < 2 ^ 32"
  shows "\<exists>m'. split_block (of_nat a) (of_nat (a + n + 16)) (of_nat sz) s = s\<lparr>kmem := m'\<rparr> \<and>
    block_at m' a sz True \<and> block_at m' (a + sz + 32) (n - sz - 32) False \<and>
    same_outside a (a + n + 32) (kmem s) m'"
proof -
  have al: "4 dvd a" "4 dvd sz" "4 dvd n" using assms(2-4) by (auto elim: dvd_trans [rotated])
  have sum: "a + sz + 32 + (n - sz - 32) = a + n" using assms(5) by simp
  let ?ws = "[(a + sz + 16, of_nat a), (a + sz + 16 + 8, KHEAP_MAGIC_32),
        (a + sz + 16 + 12, KHEAP_MAGIC_32), (a + sz + 16 + 4, 0),
        (a + sz + 32, of_nat (n - sz - 32)), (a + sz + 32 + 4, of_nat (a + n + 16)),
        (a + sz + 32 + 8, 0), (a + sz + 32 + 12, KHEAP_MAGIC_32), (a + n + 16, of_nat (a + sz + 32)),
        (a, of_nat sz), (a + 4, of_nat (a + sz + 16)), (a + 8, 1)] :: (nat \<times> u32) list"
  let ?m = "writes ?ws (kmem s)"
  have ws: "\<forall>(p, v)\<in>set ?ws. 4 dvd p \<and> p < 2 ^ 32" using assms(5,6) al by auto
  have "word_at ?m q = (case map_of (rev ?ws) q of None \<Rightarrow> word_at (kmem s) q | Some v \<Rightarrow> v)"
    if "4 dvd q" "q < 2 ^ 32" for q
    using word_at_writes [OF ws that] .
  then have "block_at ?m a sz True" "block_at ?m (a + sz + 32) (n - sz - 32) False"
    unfolding block_at_def sum using assms(1,5,6) al
    by (simp_all add: block_at_def del: of_nat_add)
  moreover have "same_outside a (a + n + 32) (kmem s) ?m"
    using assms(5,6) by (intro same_outside_writes) auto
  ultimately show ?thesis
    unfolding split_block_writes [OF assms(1,2,4-6)] by blast
qed

section \<open>The arrays and the invariant\<close>

definition holds_addrs :: "ordered_array \<Rightarrow> nat list \<Rightarrow> bool" where
  "holds_addrs oa as \<longleftrightarrow> oa_inv oa \<and> oa_max_size oa = 4096 \<and> oa_list oa = map of_nat as"

lemma holds_insert:
  assumes "holds_addrs oa (hs @ ks)" "length (hs @ ks) < 4096"
    and "\<forall>h\<in>set hs. h < v" "\<forall>k\<in>set ks. v < k \<and> k < 2 ^ 32" "v < 2 ^ 32"
  shows "\<exists>i oa'. insert_ordered_array oa (of_nat v) = Some (i, oa') \<and> holds_addrs oa' (hs @ v # ks)"
proof -
  have oa: "oa_inv oa" "oa_list oa = map of_nat hs @ map of_nat ks" "length (oa_list oa) < unat (oa_max_size oa)"
    "unat (oa_max_size oa) = 4096"
    using assms(1,2) by (simp_all add: holds_addrs_def)
  have "\<forall>x\<in>set (map of_nat hs). x < (of_nat v :: u32)" "\<forall>y\<in>set (map of_nat ks). (of_nat v :: u32) < y"
    using assms(3-5) by (auto simp: of_nat_less_u32)
  from oas.insert_at [OF oa(1-3) this] obtain i oa' where
    "insert_ordered_array oa (of_nat v) = Some (i, oa')" "oa_inv oa'"
    "oa_list oa' = map of_nat hs @ of_nat v # map of_nat ks" "unat (oa_max_size oa') = unat (oa_max_size oa)" .
  then show ?thesis using oa(4) by (auto simp: holds_addrs_def word_unat_eq_iff)
qed

lemma holds_remove:
  assumes "holds_addrs oa (hs @ v # ks)"
  shows "\<exists>oa'. remove_ordered_array oa (of_nat (length hs)) = Some oa' \<and> holds_addrs oa' (hs @ ks)"
proof -
  have oa: "oa_inv oa" "oa_list oa = map of_nat hs @ of_nat v # map of_nat ks" "unat (oa_max_size oa) = 4096"
    using assms by (simp_all add: holds_addrs_def)
  from oas.remove_at [OF oa(1,2)] obtain oa' where
    "remove_ordered_array oa (of_nat (length (map of_nat hs :: u32 list))) = Some oa'" "oa_inv oa'"
    "oa_list oa' = map of_nat hs @ map of_nat ks" "unat (oa_max_size oa') = unat (oa_max_size oa)" .
  then show ?thesis using oa(3) by (auto simp: holds_addrs_def word_unat_eq_iff)
qed

lemma holds_get:
  assumes "holds_addrs oa (hs @ v # ks)"
  shows "get_ordered_array oa (of_nat (length hs)) = Some (of_nat v)"
  using oas.get_at [of oa "map of_nat hs" "of_nat v" "map of_nat ks"] assms by (simp add: holds_addrs_def)

lemma holds_find:
  assumes "holds_addrs oa (hs @ v # ks)" "\<forall>h\<in>set hs. h < v" "v < 2 ^ 32"
  shows "find_ordered_array oa (of_nat v) = Some (of_nat (length hs))"
proof -
  have "(of_nat v :: u32) \<notin> set (map of_nat hs)"
    using assms(2,3) by (auto simp: of_nat_eq_u32)
  then show ?thesis
    using oas.find [of oa "map of_nat hs" "of_nat v" "map of_nat ks"] assms(1) by (simp add: holds_addrs_def)
qed

lemma heap_inv_arrays:
  "heap_inv s a bs \<longleftrightarrow> heap_magic (kheap s) = KHEAP_MAGIC_64 \<and>
     heap_start (kheap s) = of_nat a \<and> heap_end (kheap s) = of_nat (block_end a bs) \<and>
     holds_addrs (kheap_header_array s) (headers a bs) \<and> holds_addrs (kheap_footer_array s) (footers a bs) \<and>
     16 dvd a \<and> 0 < a \<and> block_end a bs < 2 ^ 32 \<and> blocks_at (kmem s) a bs"
  by (auto simp: heap_inv_def holds_addrs_def)

text \<open>Replacing some adjacent blocks by others in the same place.\<close>

lemma heap_inv_replace:
  assumes "heap_inv s a (xs @ bs @ ys)" "block_end (block_end a xs) cs = block_end (block_end a xs) bs"
    and "blocks_at (kmem s') (block_end a xs) cs" "kheap s' = kheap s"
    and "same_outside (block_end a xs) (block_end (block_end a xs) bs) (kmem s) (kmem s')"
    and "holds_addrs (kheap_header_array s') (headers a (xs @ cs @ ys))"
    and "holds_addrs (kheap_footer_array s') (footers a (xs @ cs @ ys))"
  shows "heap_inv s' a (xs @ cs @ ys)"
proof -
  let ?b = "block_end a xs" and ?e = "block_end (block_end a xs) bs"
  have inv: "block_end ?e ys < 2 ^ 32" "blocks_at (kmem s) a xs" "blocks_at (kmem s) ?e ys"
    using assms(1) by (simp_all add: heap_inv_arrays)
  have "?b < 2 ^ 32"
    using inv(1) by (rule le_less_trans [OF order_trans [OF block_end_le block_end_le]])
  then have "blocks_at (kmem s') a xs" "blocks_at (kmem s') ?e ys"
    using inv blocks_at_frame [OF assms(5), of a xs] blocks_at_frame [OF assms(5), of ?e ys] by auto
  then show ?thesis using assms by (simp add: heap_inv_arrays)
qed

lemma heap_inv_block:
  assumes "heap_inv s a (xs @ (n, u) # ys)"
  shows "16 dvd block_end a xs" "16 dvd n" "block_at (kmem s) (block_end a xs) n u"
    "block_end a xs + n + 32 < 2 ^ 32" "0 < block_end a xs"
proof -
  let ?b = "block_end a xs"
  have inv: "block_end a (xs @ (n, u) # ys) < 2 ^ 32" "blocks_at (kmem s) a (xs @ (n, u) # ys)" "16 dvd a" "0 < a"
    using assms by (simp_all add: heap_inv_arrays)
  show "?b + n + 32 < 2 ^ 32" by (rule le_less_trans [OF block_end_le [of _ ys]]) (use inv(1) in simp)
  show "16 dvd ?b" "16 dvd n" "block_at (kmem s) ?b n u" using inv by (auto intro: block_end_aligned)
  show "0 < ?b" using inv(4) block_end_le [of a xs] by linarith
qed

lemma heap_inv_lists:
  assumes "heap_inv s a (xs @ (n, u) # ys)"
  shows "holds_addrs (kheap_header_array s) (headers a xs @ block_end a xs # headers (block_end a xs + n + 32) ys)"
    "holds_addrs (kheap_footer_array s)
       (footers a xs @ (block_end a xs + n + 16) # footers (block_end a xs + n + 32) ys)"
  using assms by (simp_all add: heap_inv_arrays)

lemma heap_inv_get:
  assumes "heap_inv s a (xs @ (n, u) # ys)"
  shows "get_ordered_array (kheap_header_array s) (of_nat (length xs)) = Some (of_nat (block_end a xs))"
    "get_ordered_array (kheap_footer_array s) (of_nat (length xs)) = Some (of_nat (block_end a xs + n + 16))"
    "find_ordered_array (kheap_header_array s) (of_nat (block_end a xs)) = Some (of_nat (length xs))"
proof -
  note lists = heap_inv_lists [OF assms]
  have "\<forall>h\<in>set (headers a xs). h < block_end a xs" using headers_bounds by fastforce
  then show "find_ordered_array (kheap_header_array s) (of_nat (block_end a xs)) = Some (of_nat (length xs))"
    using holds_find [OF lists(1)] heap_inv_block(4) [OF assms] by simp
qed (use holds_get [OF heap_inv_lists(1) [OF assms]] holds_get [OF heap_inv_lists(2) [OF assms]] in simp_all)

end
