(* ===== verification/Paging.thy ===== *)
theory Paging
  imports Kheap
begin

text \<open>
  Page directories and page tables: \<^verbatim>\<open>src/kernel/kernel/mm/paging.c\<close> (what is not the frame
  allocator) and \<^verbatim>\<open>src/kernel/kernel/mm/vmm.c\<close>. The structures lie in byte memory, with
  their bit fields at the positions the packed declarations give them, and \<open>walk\<close> is the
  translation the processor makes from them. The kernel window maps the physical address
  \<open>p\<close> to \<open>KP2V p\<close>, and \<open>kmem\<close> is indexed by \<open>KP2V p\<close> for every physical address \<open>p\<close>, so the
  bytes of high memory are there too. There is no TLB in the model: a translation is always
  made from the tables.
\<close>

section \<open>State, macros and bit fields\<close>

text \<open>A handler in the interrupt table is one of the functions the sources install.\<close>

datatype isr = Page_fault | Pit_handler | Hpet_handler | Syscall_dispatch

record vmm = kmm +
  interrupt_handlers :: "u8 \<Rightarrow> isr option"
  kernel_directory :: u32
  cr3 :: u32

definition isr_set_handler :: "u8 \<Rightarrow> isr \<Rightarrow> 'a vmm_scheme \<Rightarrow> 'a vmm_scheme" where
  "isr_set_handler n handler s =
     s\<lparr>interrupt_handlers := (interrupt_handlers s)(n := Some handler)\<rparr>"

definition PAGE_DIR_IDX :: "u32 \<Rightarrow> u32" where "PAGE_DIR_IDX x = x div 0x400000"

definition PAGE_TBL_IDX :: "u32 \<Rightarrow> u32" where "PAGE_TBL_IDX x = (x mod 0x400000) div 0x1000"

definition PAGE_IDX_VADDR :: "u32 \<Rightarrow> u32 \<Rightarrow> u32 \<Rightarrow> u32" where
  "PAGE_IDX_VADDR d t off = d * 0x400000 + t * 0x1000 + off"

text \<open>
  \<^verbatim>\<open>struct page\<close>: \<^verbatim>\<open>present\<close> bit 0, \<^verbatim>\<open>rw\<close> bit 1, \<^verbatim>\<open>user\<close> bit 2, \<^verbatim>\<open>accessed\<close> bit 3, \<^verbatim>\<open>dirty\<close> bit 4,
  \<^verbatim>\<open>frame\<close> from bit 12 on. \<^verbatim>\<open>struct page_dir_entry\<close> has the first three and \<^verbatim>\<open>frame\<close> in the same
  places, and \<^verbatim>\<open>accessed\<close> in bit 5.
\<close>

definition entry_present :: "u32 \<Rightarrow> bool" where "entry_present w = bit w 0"

definition entry_rw :: "u32 \<Rightarrow> bool" where "entry_rw w = bit w 1"

definition entry_user :: "u32 \<Rightarrow> bool" where "entry_user w = bit w 2"

definition entry_frame :: "u32 \<Rightarrow> u32" where "entry_frame w = drop_bit 12 w"

definition with_bit :: "nat \<Rightarrow> bool \<Rightarrow> u32 \<Rightarrow> u32" where
  "with_bit n b w = (if b then set_bit n w else unset_bit n w)"

definition with_frame :: "u32 \<Rightarrow> u32 \<Rightarrow> u32" where
  "with_frame f w = take_bit 12 w OR push_bit 12 f"

definition upd_word :: "u32 \<Rightarrow> (u32 \<Rightarrow> u32) \<Rightarrow> 'a kmm_scheme \<Rightarrow> 'a kmm_scheme" where
  "upd_word p f s = s\<lparr>kmem := store32 (kmem s) p (f (load32 (kmem s) p))\<rparr>"

text \<open>
  A \<^verbatim>\<open>page_directory_t\<close> is 1024 entries followed by 1024 table pointers, a \<^verbatim>\<open>page_table_t\<close> is
  1024 pages.
\<close>

definition dir_entry :: "u32 \<Rightarrow> u32 \<Rightarrow> u32" where "dir_entry dir i = dir + 4 * i"

definition dir_table :: "u32 \<Rightarrow> u32 \<Rightarrow> u32" where "dir_table dir i = dir + 4096 + 4 * i"

definition table_page :: "u32 \<Rightarrow> u32 \<Rightarrow> u32" where "table_page table j = table + 4 * j"

section \<open>The processor's translation\<close>

text \<open>
  \<open>need\<close> is what an access requires of both entries. The directory and the tables are found by
  their physical addresses.
\<close>

definition phys_word :: "mem \<Rightarrow> u32 \<Rightarrow> u32" where
  "phys_word m p = load32 m (KP2V p)"

definition walk :: "(u32 \<Rightarrow> bool) \<Rightarrow> mem \<Rightarrow> u32 \<Rightarrow> u32 \<Rightarrow> u32 option" where
  "walk need m dir va =
     (let pde = phys_word m (dir + 4 * PAGE_DIR_IDX va)
      in if \<not> need pde then None
         else let pte = phys_word m (entry_frame pde * 0x1000 + 4 * PAGE_TBL_IDX va)
              in if \<not> need pte then None
                 else Some (entry_frame pte * 0x1000 + va mod 0x1000))"

definition translate :: "'a vmm_scheme \<Rightarrow> u32 \<Rightarrow> u32 option" where
  "translate s va = walk entry_present (kmem s) (cr3 s) va"

definition user_access :: "u32 \<Rightarrow> bool" where
  "user_access w \<longleftrightarrow> entry_present w \<and> entry_user w"

text \<open>Reading and writing a byte at a virtual address; \<open>None\<close> is a page fault.\<close>

definition vload :: "'a vmm_scheme \<Rightarrow> u32 \<Rightarrow> u8 option" where
  "vload s va = map_option (\<lambda>p. kmem s (KP2V p)) (translate s va)"

definition vstore :: "u32 \<Rightarrow> u8 \<Rightarrow> 'a vmm_scheme \<Rightarrow> 'a vmm_scheme option" where
  "vstore va v s = map_option (\<lambda>p. s\<lparr>kmem := (kmem s)(KP2V p := v)\<rparr>) (translate s va)"

section \<open>Operations\<close>

definition swap_dir :: "u32 \<Rightarrow> 'a vmm_scheme \<Rightarrow> 'a vmm_scheme" where
  "swap_dir dir s = s\<lparr>cr3 := KV2P dir\<rparr>"

definition flush_tlb :: "'a vmm_scheme \<Rightarrow> 'a vmm_scheme" where
  "flush_tlb s = s\<lparr>cr3 := cr3 s\<rparr>"

definition copy_page_table_entries :: "u32 \<Rightarrow> u32 \<Rightarrow> 'a kmm_scheme \<Rightarrow> 'a kmm_scheme" where
  "copy_page_table_entries src dest s =
     fold (\<lambda>i s. upd_word (table_page dest (of_nat i)) (\<lambda>_. load32 (kmem s) (table_page src (of_nat i))) s)
       [0..<1024] s"

definition set_page :: "u32 \<Rightarrow> u32 \<Rightarrow> bool \<Rightarrow> bool \<Rightarrow> bool \<Rightarrow> 'a kmm_scheme \<Rightarrow> 'a kmm_scheme" where
  "set_page page frame present rw user s =
     (let s = upd_word page (with_frame frame) s;
          s = upd_word page (with_bit 0 present) s;
          s = upd_word page (with_bit 1 rw) s
      in upd_word page (with_bit 2 user) s)"

text \<open>\<open>ktables\<close> is the address the linker gives the array \<^verbatim>\<open>kernel_page_tables\<close>.\<close>

definition setup_page :: "u32 \<Rightarrow> nat \<Rightarrow> nat \<Rightarrow> 'a kmm_scheme \<Rightarrow> 'a kmm_scheme" where
  "setup_page cur_table i j s =
     (if i < KERN_HIGHMEM_START_TBL
      then let page = table_page cur_table (of_nat j);
               s = upd_word page (with_frame (of_nat (i - KERN_START_TBL) * 1024 + of_nat j)) s;
               s = upd_word page (with_bit 0 True) s
           in upd_word page (with_bit 1 True) s
      else s)"

definition setup_table :: "u32 \<Rightarrow> nat \<Rightarrow> 'a vmm_scheme \<Rightarrow> 'a vmm_scheme" where
  "setup_table ktables i s =
     (let cur_table = ktables + of_nat (i - KERN_START_TBL) * 0x1000;
          s = upd_word (dir_table (kernel_directory s) (of_nat i)) (\<lambda>_. cur_table) s;
          cur_table_paddr = cur_table - 0xC0000000;
          entry = dir_entry (kernel_directory s) (of_nat i);
          s = upd_word entry (with_frame (cur_table_paddr div PAGE_SIZE)) s;
          s = upd_word entry (with_bit 0 True) s;
          s = upd_word entry (with_bit 1 True) s
      in fold (setup_page cur_table i) [0..<1024] s)"

definition setup_kernel_directory :: "u32 \<Rightarrow> 'a vmm_scheme \<Rightarrow> 'a vmm_scheme" where
  "setup_kernel_directory ktables s = fold (setup_table ktables) [KERN_START_TBL..<1024] s"

text \<open>\<open>kdir\<close> is the address of \<^verbatim>\<open>kernel_directory_aligned\<close>.\<close>

definition MULTIBOOT_BOOTLOADER_MAGIC :: u32 where "MULTIBOOT_BOOTLOADER_MAGIC = 0x2BADB002"

definition paging_init ::
    "u32 \<Rightarrow> u32 \<Rightarrow> u32 \<Rightarrow> u32 \<Rightarrow> 'a vmm_scheme \<Rightarrow> 'a vmm_scheme outcome option" where
  "paging_init kdir ktables mbd magic s =
     (let s = isr_set_handler 14 Page_fault s
      in if magic \<noteq> MULTIBOOT_BOOTLOADER_MAGIC
         then Some (panic ''Invalid multiboot magic number'' s)
         else let s = s\<lparr>kernel_directory := kdir\<rparr>;
                  s = setup_kernel_directory ktables s;
                  s = swap_dir (kernel_directory s) s;
                  s = terminal_initialize s
              in map_option (\<lambda>r. case r of Halted s \<Rightarrow> Halted s | Running s \<Rightarrow> Running (reserve 0 PAGE_TABLE_SIZE s))
                   (reserve_mem_map (kmem s) mbd s))"

text \<open>The bits of a page fault's error code.\<close>

definition PAGE_FAULT_PRESENT_A :: u32 where "PAGE_FAULT_PRESENT_A = 1"

definition PAGE_FAULT_WRITE_A :: u32 where "PAGE_FAULT_WRITE_A = 2"

definition PAGE_FAULT_USER_A :: u32 where "PAGE_FAULT_USER_A = 4"

definition PAGE_FAULT_RESERVED_A :: u32 where "PAGE_FAULT_RESERVED_A = 8"

definition PAGE_FAULT_INSTR_FETCH_A :: u32 where "PAGE_FAULT_INSTR_FETCH_A = 16"

text \<open>The page fault handler; \<open>addr\<close> is the contents of \<^verbatim>\<open>cr2\<close>.\<close>

definition page_fault :: "u32 \<Rightarrow> int_regs \<Rightarrow> 'a tty_scheme \<Rightarrow> 'a tty_scheme outcome" where
  "page_fault addr r s =
     (let s = kprint (''page fault!'' @ nl) [] s;
          flag = (\<lambda>mask. ArgW (of_bool (r_err_code r AND mask \<noteq> 0)));
          s = kprint (''addr: %x'' @ nl) [ArgW addr] s;
          s = kprint (''page-protection violation (1=protection,0=non-present): %d'' @ nl) [flag PAGE_FAULT_PRESENT_A] s;
          s = kprint (''caused by write access: %d'' @ nl) [flag PAGE_FAULT_WRITE_A] s;
          s = kprint (''originated from user mode: %d'' @ nl) [flag PAGE_FAULT_USER_A] s;
          s = kprint (''reserved-bit set in entry: %d'' @ nl) [flag PAGE_FAULT_RESERVED_A] s;
          s = kprint (''instruction fetch: %d'' @ nl) [flag PAGE_FAULT_INSTR_FETCH_A] s;
          s = kprint (''eip: %x cs: %x'' @ nl) [ArgW (r_eip r), ArgW (r_cs r)] s;
          s = kprint (''esp: %x useresp: %x ss: %x'' @ nl) [ArgW (r_esp r), ArgW (r_useresp r), ArgW (r_ss r)] s
      in panic ''page fault'' s)"

section \<open>Temporary mappings\<close>

fun kmap_search :: "(nat \<times> nat) list \<Rightarrow> u32 \<Rightarrow> 'a vmm_scheme \<Rightarrow> u32 \<times> 'a vmm_scheme" where
  "kmap_search [] paddr s = (0, s)"
| "kmap_search ((i, j) # ijs) paddr s =
     (let table = load32 (kmem s) (dir_table (kernel_directory s) (of_nat i));
          page = table_page table (of_nat j)
      in if load32 (kmem s) page = 0
         then (PAGE_IDX_VADDR (of_nat i) (of_nat j) (paddr mod PAGE_SIZE),
               set_page page (PAGE_FRAME paddr) True True False s)
         else kmap_search ijs paddr s)"

definition kmap :: "u32 \<Rightarrow> 'a vmm_scheme \<Rightarrow> u32 \<times> 'a vmm_scheme" where
  "kmap paddr s =
     (if paddr = 0 then (0, s)
      else if paddr < KERN_IDENTITY_PHYS_END then (KP2V paddr, s)
      else kmap_search (List.product [KERN_HIGHMEM_START_TBL..<1024] [0..<1024]) paddr s)"

definition kunmap :: "u32 \<Rightarrow> 'a vmm_scheme \<Rightarrow> 'a vmm_scheme" where
  "kunmap vaddr s =
     (if vaddr = 0 then s
      else if vaddr < 0xC0000000 then s
      else let table = load32 (kmem s) (dir_table (kernel_directory s) (PAGE_DIR_IDX vaddr))
           in upd_word (table_page table (PAGE_TBL_IDX vaddr)) (\<lambda>_. 0) s)"

section \<open>Cloning a directory\<close>

text \<open>\<^verbatim>\<open>memcpy\<close> between virtual addresses.\<close>

fun vmemcpy :: "u32 \<Rightarrow> u32 \<Rightarrow> nat list \<Rightarrow> 'a vmm_scheme \<Rightarrow> 'a vmm_scheme option" where
  "vmemcpy dst src [] s = Some s"
| "vmemcpy dst src (i # is) s =
     do {
       v \<leftarrow> vload s (src + of_nat i);
       s \<leftarrow> vstore (dst + of_nat i) v s;
       vmemcpy dst src is s
     }"

definition clone_page :: "u32 \<Rightarrow> u32 \<Rightarrow> nat \<Rightarrow> nat \<Rightarrow> 'a vmm_scheme \<Rightarrow> 'a vmm_scheme option" where
  "clone_page src dest i j s =
     (let src_page = table_page (load32 (kmem s) (dir_table src (of_nat i))) (of_nat j)
      in if entry_frame (load32 (kmem s) src_page) \<noteq> 0
         then do {
           (paddr, s) \<leftarrow> alloc_pages PMM_FLAGS_HIGHMEM 1 s;
           let (tmp, s) = kmap paddr s;
           s \<leftarrow> vmemcpy tmp (PAGE_IDX_VADDR (of_nat i) (of_nat j) 0) [0..<4096] s;
           let s = kunmap tmp s;
           let src_page = table_page (load32 (kmem s) (dir_table src (of_nat i))) (of_nat j);
           let dest_page = table_page (load32 (kmem s) (dir_table dest (of_nat i))) (of_nat j);
           let s = upd_word dest_page (\<lambda>_. load32 (kmem s) src_page) s;
           let s = upd_word dest_page (with_bit 3 False) s;
           let s = upd_word dest_page (with_bit 4 False) s;
           Some (upd_word dest_page (with_frame (paddr div PAGE_SIZE)) s)
         }
         else Some s)"

fun clone_pages :: "u32 \<Rightarrow> u32 \<Rightarrow> nat \<Rightarrow> nat list \<Rightarrow> 'a vmm_scheme \<Rightarrow> 'a vmm_scheme option" where
  "clone_pages src dest i [] s = Some s"
| "clone_pages src dest i (j # js) s =
     do {
       s \<leftarrow> clone_page src dest i j s;
       clone_pages src dest i js s
     }"

definition clone_entry :: "u32 \<Rightarrow> u32 \<Rightarrow> nat \<Rightarrow> 'a vmm_scheme \<Rightarrow> 'a vmm_scheme option" where
  "clone_entry src dest i s =
     (if i \<ge> KERN_START_TBL
      then let s = upd_word (dir_entry dest (of_nat i)) (\<lambda>_. load32 (kmem s) (dir_entry src (of_nat i))) s
           in Some (upd_word (dir_table dest (of_nat i)) (\<lambda>_. load32 (kmem s) (dir_table src (of_nat i))) s)
      else if entry_frame (load32 (kmem s) (dir_entry src (of_nat i))) \<noteq> 0
      then do {
        (p, s) \<leftarrow> alloc_pages PMM_FLAGS_DEFAULT 1 s;
        let dest_page_table = KP2V p;
        let s = upd_word (dir_table dest (of_nat i)) (\<lambda>_. dest_page_table) s;
        let s = upd_word (dir_entry dest (of_nat i)) (\<lambda>_. load32 (kmem s) (dir_entry src (of_nat i))) s;
        let s = upd_word (dir_entry dest (of_nat i)) (with_frame (PAGE_FRAME (KV2P dest_page_table))) s;
        let s = upd_word (dir_entry dest (of_nat i)) (with_bit 5 False) s;
        clone_pages src dest i [0..<1024] s
      }
      else Some s)"

fun clone_entries :: "u32 \<Rightarrow> u32 \<Rightarrow> nat list \<Rightarrow> 'a vmm_scheme \<Rightarrow> 'a vmm_scheme option" where
  "clone_entries src dest [] s = Some s"
| "clone_entries src dest (i # is) s =
     do {
       s \<leftarrow> clone_entry src dest i s;
       clone_entries src dest is s
     }"

definition clone_page_dir :: "u32 \<Rightarrow> u32 \<Rightarrow> 'a vmm_scheme \<Rightarrow> 'a vmm_scheme option" where
  "clone_page_dir src dest s = clone_entries src dest [0..<1024] s"

end
