(* ===== verification/Paging_Window.thy ===== *)
theory Paging_Window
  imports Paging
begin

text \<open>
  Lemmas on the page tables of \<open>Paging\<close>: the fields of an entry, loops that update a table word
  by word, the closed form of what \<open>setup_kernel_directory\<close> writes, and from it the processor's
  translation of the kernel window, low and high.
\<close>

section \<open>Entries and word updates\<close>

lemma bit_with_bit: "bit (with_bit n b w) k = (if k = n \<and> n < 32 then b else bit w k)"
  by (auto simp: with_bit_def bit_simps dest: bit_imp_le_length)

lemma bit_with_frame:
  "bit (with_frame f w) k = (if k < 12 then bit w k else k < 32 \<and> bit f (k - 12))"
  by (auto simp: with_frame_def bit_simps dest: bit_imp_le_length)

lemma entry_frame_with_bit [simp]: "n < 12 \<Longrightarrow> entry_frame (with_bit n b w) = entry_frame w"
  by (rule bit_word_eqI) (simp add: entry_frame_def bit_simps bit_with_bit)

lemma entry_frame_with_frame [simp]: "entry_frame (with_frame f w) = take_bit 20 f"
  by (rule bit_word_eqI) (auto simp: entry_frame_def bit_simps bit_with_frame)

lemma entry_flags_with_frame [simp]:
  "entry_present (with_frame f w) = entry_present w"
  "entry_rw (with_frame f w) = entry_rw w"
  "entry_user (with_frame f w) = entry_user w"
  by (simp_all add: entry_present_def entry_rw_def entry_user_def bit_with_frame)

lemma entry_flags_with_bit [simp]:
  "entry_present (with_bit n b w) = (if n = 0 then b else entry_present w)"
  "entry_rw (with_bit n b w) = (if n = 1 then b else entry_rw w)"
  "entry_user (with_bit n b w) = (if n = 2 then b else entry_user w)"
  by (simp_all add: entry_present_def entry_rw_def entry_user_def bit_with_bit)

lemma store32_twice [simp]: "store32 (store32 m p v) p w = store32 m p w"
  by (simp add: store32_def fun_eq_iff)

lemma upd_word_twice: "upd_word p g (upd_word p f s) = upd_word p (g \<circ> f) s"
  by (simp add: upd_word_def store32_self)

lemma kmem_upd_word [simp]:
  "kmem (upd_word p f s) = store32 (kmem s) p (f (load32 (kmem s) p))"
  by (simp add: upd_word_def)

lemma upd_word_fields [simp]:
  "kernel_directory (upd_word p f s) = kernel_directory s" "cr3 (upd_word p f s) = cr3 s"
  "interrupt_handlers (upd_word p f s) = interrupt_handlers s"
  by (simp_all add: upd_word_def)

lemma store32_id: "store32 m p (load32 m p) = m"
proof -
  have "(ucast (load32 m p) :: u8) = m p" "(ucast (drop_bit 8 (load32 m p)) :: u8) = m (p + 1)"
    "(ucast (drop_bit 16 (load32 m p)) :: u8) = m (p + 2)"
    "(ucast (drop_bit 24 (load32 m p)) :: u8) = m (p + 3)"
    by (rule bit_word_eqI, auto simp: load32_def bit_simps dest: bit_imp_le_length)+
  then show ?thesis by (simp add: store32_def fun_eq_iff)
qed

lemma word_at_upd:
  "4 dvd p \<Longrightarrow> 4 dvd q \<Longrightarrow> p < 2 ^ 32 \<Longrightarrow> q < 2 ^ 32 \<Longrightarrow>
   word_at (kmem (upd_word (of_nat p) f s)) q = (if q = p then f (word_at (kmem s) p) else word_at (kmem s) q)"
  by (simp add: word_at_store) (simp add: word_at_def)

section \<open>The kernel's directory and tables\<close>

text \<open>
  \<open>kernel_layout D T\<close> is what the linker script gives for the addresses of the directory and of
  the 256 page tables: page aligned, in the kernel window, not overlapping.
\<close>

definition kernel_layout :: "nat \<Rightarrow> nat \<Rightarrow> bool" where
  "kernel_layout D T \<longleftrightarrow> 4096 dvd D \<and> 4096 dvd T \<and>
     0xC0000000 \<le> D \<and> D + 8192 \<le> 0xF8000000 \<and> 0xC0000000 \<le> T \<and> T + 0x100000 \<le> 0xF8000000 \<and>
     (D + 8192 \<le> T \<or> T + 0x100000 \<le> D)"

definition present_word :: "nat \<Rightarrow> u32 \<Rightarrow> u32" where
  "present_word f w = with_bit 1 True (with_bit 0 True (with_frame (of_nat f) w))"

text \<open>The word at \<open>q\<close> after \<open>n\<close> tables of the kernel's directory have been set up.\<close>

definition kernel_word :: "nat \<Rightarrow> nat \<Rightarrow> nat \<Rightarrow> mem \<Rightarrow> nat \<Rightarrow> u32" where
  "kernel_word D T n m q =
     (if T \<le> q \<and> q < T + 4096 * min n 224 then present_word ((q - T) div 4) (word_at m q)
      else if D + 3072 \<le> q \<and> q < D + 3072 + 4 * n
      then present_word ((T - 0xC0000000) div 4096 + (q - (D + 3072)) div 4) (word_at m q)
      else if D + 7168 \<le> q \<and> q < D + 7168 + 4 * n
      then of_nat (T + (q - (D + 7168)) div 4 * 4096)
      else word_at m q)"

lemma fold_upd_words:
  assumes "4 dvd B" "B + 4 * n \<le> 2 ^ 32" "4 dvd q" "q < 2 ^ 32"
  shows "word_at (kmem (fold (\<lambda>j. upd_word (of_nat (B + 4 * j)) (f j)) [0..<n] s)) q =
    (if B \<le> q \<and> q < B + 4 * n then f ((q - B) div 4) (word_at (kmem s) q) else word_at (kmem s) q)"
  using assms(2)
proof (induction n)
  case (Suc n)
  let ?s = "fold (\<lambda>j. upd_word (of_nat (B + 4 * j)) (f j)) [0..<n] s"
  have "word_at (kmem (upd_word (of_nat (B + 4 * n)) (f n) ?s)) q =
      (if q = B + 4 * n then f n (word_at (kmem ?s) (B + 4 * n)) else word_at (kmem ?s) q)"
    using Suc.prems assms by (intro word_at_upd) auto
  moreover have "q < B + 4 * Suc n \<longleftrightarrow> q < B + 4 * n \<or> q = B + 4 * n" if "B \<le> q"
    using assms(1,3) that by presburger
  ultimately show ?case using Suc by auto
qed auto

text \<open>An operation that touches memory only.\<close>

definition kmem_only :: "('a kmm_scheme \<Rightarrow> 'a kmm_scheme) \<Rightarrow> bool" where
  "kmem_only f \<longleftrightarrow> (\<forall>s. f s = s\<lparr>kmem := kmem (f s)\<rparr>)"

lemma kmem_only_upd [intro]: "kmem_only (upd_word p f)"
  by (simp add: kmem_only_def upd_word_def)

lemma kmem_only_fold [intro]:
  assumes "\<And>x. kmem_only (f x)"
  shows "kmem_only (fold f xs)"
  unfolding kmem_only_def
proof
  fix s
  show "fold f xs s = s\<lparr>kmem := kmem (fold f xs s)\<rparr>"
  proof (induction xs arbitrary: s)
    case (Cons x xs)
    from assms [of x] obtain m where "f x s = s\<lparr>kmem := m\<rparr>" unfolding kmem_only_def by blast
    moreover from Cons [of "f x s"] obtain m' where "fold f xs (f x s) = (f x s)\<lparr>kmem := m'\<rparr>" by blast
    ultimately show ?case by simp
  qed simp
qed

lemma kmem_onlyI: "(\<And>s. \<exists>m. f s = s\<lparr>kmem := m\<rparr>) \<Longrightarrow> kmem_only f"
  unfolding kmem_only_def
proof
  fix s
  assume "\<And>s. \<exists>m. f s = s\<lparr>kmem := m\<rparr>"
  then obtain m where "f s = s\<lparr>kmem := m\<rparr>" by blast
  then show "f s = s\<lparr>kmem := kmem (f s)\<rparr>" by simp
qed

lemma kmem_onlyD: "kmem_only f \<Longrightarrow> f s = s\<lparr>kmem := kmem (f s)\<rparr>"
  by (simp add: kmem_only_def)

lemma kmem_only_vmm:
  assumes "kmem_only f"
  shows "kernel_directory (f s) = kernel_directory s" "interrupt_handlers (f s) = interrupt_handlers s"
    "cr3 (f s) = cr3 s"
  by (subst kmem_onlyD [OF assms], simp)+

lemma setup_page_upd:
  "setup_page (of_nat B) i j s =
     (if i < 992 then upd_word (of_nat (B + 4 * j)) (present_word ((i - 768) * 1024 + j)) s else s)"
  by (simp add: setup_page_def KERN_HIGHMEM_START_TBL_def KERN_START_TBL_def table_page_def Let_def
      upd_word_twice present_word_def [abs_def] comp_def)

lemma setup_pages_word:
  assumes "4 dvd B" "B + 4096 \<le> 2 ^ 32" "4 dvd q" "q < 2 ^ 32"
  shows "word_at (kmem (fold (setup_page (of_nat B) i) [0..<1024] s)) q =
    (if i < 992 \<and> B \<le> q \<and> q < B + 4096
     then present_word ((i - 768) * 1024 + (q - B) div 4) (word_at (kmem s) q) else word_at (kmem s) q)"
proof (cases "i < 992")
  case True
  then have "fold (setup_page (of_nat B) i) [0..<1024] s =
      fold (\<lambda>j. upd_word (of_nat (B + 4 * j)) (present_word ((i - 768) * 1024 + j))) [0..<1024] s"
    by (intro fold_cong) (simp_all add: setup_page_upd fun_eq_iff)
  then show ?thesis
    using fold_upd_words [of B 1024 q "\<lambda>j. present_word ((i - 768) * 1024 + j)" s] assms True by simp
next
  case False
  then show ?thesis by (simp add: setup_page_upd fold_frame [where g = "\<lambda>x. x"])
qed

lemma kmem_only_setup_page [intro]: "kmem_only (setup_page B i j)"
  by (auto simp: setup_page_def Let_def kmem_only_def upd_word_def)

lemma kernel_word_Suc:
  assumes "kernel_layout D T" "n < 256" "4 dvd q"
  shows "kernel_word D T (Suc n) m q =
    (if n < 224 \<and> T + n * 4096 \<le> q \<and> q < T + n * 4096 + 4096
     then present_word (n * 1024 + (q - (T + n * 4096)) div 4) (kernel_word D T n m q)
     else if q = D + 3072 + 4 * n then present_word ((T - 0xC0000000) div 4096 + n) (kernel_word D T n m q)
     else if q = D + 7168 + 4 * n then of_nat (T + n * 4096) else kernel_word D T n m q)"
proof -
  have lay: "4 dvd D" "D + 8192 \<le> T \<or> T + 0x100000 \<le> D" "4 dvd T"
    using assms(1) by (auto simp: kernel_layout_def elim!: dvdE)
  consider (page) "n < 224" "T + n * 4096 \<le> q" "q < T + n * 4096 + 4096"
    | (entry) "q = D + 3072 + 4 * n" "\<not> (T \<le> q \<and> q < T + 0x100000)"
    | (pointer) "q = D + 7168 + 4 * n" "\<not> (T \<le> q \<and> q < T + 0x100000)"
    | (other) "q \<noteq> D + 3072 + 4 * n" "q \<noteq> D + 7168 + 4 * n"
       "\<not> (n < 224 \<and> T + n * 4096 \<le> q \<and> q < T + n * 4096 + 4096)"
    using lay(2) assms(2) by fastforce
  then show ?thesis
  proof cases
    case page
    moreover have "n * 1024 + (q - (T + n * 4096)) div 4 = (q - T) div 4" using page(2) by simp
    ultimately show ?thesis using lay(2) by (auto simp: kernel_word_def)
  next
    case entry
    then show ?thesis using assms(2) by (auto simp: kernel_word_def)
  next
    case pointer
    then show ?thesis using assms(2) by (auto simp: kernel_word_def)
  next
    case other
    have "T \<le> q \<and> q < T + 4096 * min (Suc n) 224 \<longleftrightarrow> T \<le> q \<and> q < T + 4096 * min n 224"
      using other(3) by auto
    moreover have "D + 3072 \<le> q \<and> q < D + 3072 + 4 * Suc n \<longleftrightarrow> D + 3072 \<le> q \<and> q < D + 3072 + 4 * n"
      "D + 7168 \<le> q \<and> q < D + 7168 + 4 * Suc n \<longleftrightarrow> D + 7168 \<le> q \<and> q < D + 7168 + 4 * n"
      using other(1,2) assms(3) lay(1) by presburger+
    ultimately show ?thesis using other by (simp only: kernel_word_def if_False)
  qed
qed

lemma setup_table_word:
  assumes "kernel_layout D T" "kernel_directory s = of_nat D" "n < 256" "4 dvd q" "q < 2 ^ 32"
    and "\<And>q. 4 dvd q \<Longrightarrow> q < 2 ^ 32 \<Longrightarrow> word_at (kmem s) q = kernel_word D T n m q"
  shows "word_at (kmem (setup_table (of_nat T) (768 + n) s)) q = kernel_word D T (Suc n) m q"
proof -
  define B where "B = T + n * 4096"
  have B: "(of_nat T :: u32) + of_nat (768 + n - KERN_START_TBL) * 0x1000 = of_nat B"
    by (simp add: B_def KERN_START_TBL_def)
  have lay: "4 dvd D" "4 dvd T" "D + 8192 \<le> T \<or> T + 0x100000 \<le> D" "0xC0000000 \<le> T" "4096 dvd T"
    "D + 8192 \<le> 0xF8000000" "T + 0x100000 \<le> 0xF8000000"
    using assms(1) by (auto simp: kernel_layout_def elim!: dvdE)
  have "(of_nat B :: u32) - 0xC0000000 = of_nat (B - 0xC0000000)"
    using lay(4) by (simp add: B_def of_nat_diff)
  moreover have "(B - 0xC0000000) div 4096 = (T - 0xC0000000) div 4096 + n"
    using lay(4) by (simp add: B_def add.commute [of T] )
  ultimately have fr: "((of_nat B :: u32) - 0xC0000000) div PAGE_SIZE = of_nat ((T - 0xC0000000) div 4096 + n)"
    using lay(7) assms(3) by (simp add: word_arith_nat_div PAGE_SIZE_def B_def unat_of_nat_u32)
  define E F where "E = D + 3072 + 4 * n" and "F = D + 7168 + 4 * n"
  define s1 where "s1 = upd_word (of_nat E) (present_word ((T - 0xC0000000) div 4096 + n))
      (upd_word (of_nat F) (\<lambda>_. of_nat B) s)"
  have EF: "4 dvd E" "4 dvd F" "E < 2 ^ 32" "F < 2 ^ 32" "E \<noteq> F"
    using lay assms(3) by (auto simp: E_def F_def)
  have s1: "word_at (kmem s1) q =
      (if q = E then present_word ((T - 0xC0000000) div 4096 + n) (word_at (kmem s) q)
       else if q = F then of_nat B else word_at (kmem s) q)"
    unfolding s1_def using EF assms(4,5) by (simp add: word_at_upd del: kmem_upd_word)
  have fold: "setup_table (of_nat T) (768 + n) s = fold (setup_page (of_nat B) (768 + n)) [0..<1024] s1"
    unfolding setup_table_def Let_def B fr upd_word_twice s1_def E_def F_def
    by (simp add: assms(2) dir_table_def dir_entry_def present_word_def [abs_def] comp_def upd_word_twice
       algebra_simps)
  have al: "4 dvd B" "B + 4096 \<le> 2 ^ 32" using lay assms(3) by (auto simp: B_def)
  have ex: "\<not> (B \<le> q \<and> q < B + 4096)" if "q = E \<or> q = F"
    using lay(3) assms(3) that by (auto simp: B_def E_def F_def)
  have w: "word_at (kmem (setup_table (of_nat T) (768 + n) s)) q =
      (if n < 224 \<and> B \<le> q \<and> q < B + 4096
       then present_word (n * 1024 + (q - B) div 4) (kernel_word D T n m q)
       else if q = E then present_word ((T - 0xC0000000) div 4096 + n) (kernel_word D T n m q)
       else if q = F then of_nat B else kernel_word D T n m q)"
    unfolding fold setup_pages_word [OF al assms(4,5)] s1 assms(6) [OF assms(4,5)]
    using ex by (simp cong: if_cong) blast
  show ?thesis unfolding w unfolding B_def E_def F_def using assms(1,3,4) by (rule kernel_word_Suc [symmetric])
qed

text \<open>
  \<open>kernel_entries m P T\<close>: the directory at \<open>P\<close> has the kernel's tables in its upper quarter.
  \<open>kernel_paging D T s\<close> is the invariant of the kernel's own directory: all 256 tables are in
  place, and the first 224 map the low 896 MiB of physical memory.
\<close>

definition kernel_entries :: "mem \<Rightarrow> nat \<Rightarrow> nat \<Rightarrow> bool" where
  "kernel_entries m P T \<longleftrightarrow> (\<forall>n<256. let pde = word_at m (P + 3072 + 4 * n) in
     entry_present pde \<and> entry_rw pde \<and> entry_frame pde = of_nat ((T - 0xC0000000) div 4096 + n))"

definition kernel_paging :: "nat \<Rightarrow> nat \<Rightarrow> 'a vmm_scheme \<Rightarrow> bool" where
  "kernel_paging D T s \<longleftrightarrow> kernel_layout D T \<and> kernel_directory s = of_nat D \<and>
     kernel_entries (kmem s) D T \<and>
     (\<forall>n<256. word_at (kmem s) (D + 7168 + 4 * n) = of_nat (T + n * 4096)) \<and>
     (\<forall>k<LOW_FRAMES. let pte = word_at (kmem s) (T + 4 * k) in
        entry_present pte \<and> entry_rw pte \<and> entry_frame pte = of_nat k)"

lemma frame_take_bit: "f < ALL_FRAMES \<Longrightarrow> take_bit 20 (of_nat f :: u32) = of_nat f"
  by (simp flip: of_nat_take_bit add: take_bit_nat_eq_self)

lemma present_word_entry [simp]:
  "entry_present (present_word f w)" "entry_rw (present_word f w)"
  "f < ALL_FRAMES \<Longrightarrow> entry_frame (present_word f w) = of_nat f"
  by (simp_all add: present_word_def frame_take_bit)

lemma kmem_only_setup_table [intro]: "kmem_only (setup_table kt i)"
proof (rule kmem_onlyI)
  fix s :: "'a vmm_scheme"
  have "\<exists>m. fold (setup_page B i) [0..<1024] s = s\<lparr>kmem := m\<rparr>" for B and s :: "'a vmm_scheme"
    by (rule exI, rule kmem_onlyD) blast
  from this [of _ "s\<lparr>kmem := _\<rparr>"]
  have "\<exists>m. fold (setup_page B i) [0..<1024] (s\<lparr>kmem := x\<rparr>) = s\<lparr>kmem := m\<rparr>" for B x by simp
  then show "\<exists>m. setup_table kt i s = s\<lparr>kmem := m\<rparr>"
    by (simp add: setup_table_def Let_def upd_word_def)
qed

lemma kmem_only_setup [intro]: "kmem_only (setup_kernel_directory kt)"
  unfolding setup_kernel_directory_def [abs_def] by blast

lemmas setup_fields [simp] = kmem_only_vmm [OF kmem_only_setup] kmem_only_vmm [OF kmem_only_setup_table]

lemma setup_kernel_directory_words:
  assumes "kernel_layout D T" "kernel_directory s = of_nat D" "4 dvd q" "q < 2 ^ 32"
  shows "word_at (kmem (setup_kernel_directory (of_nat T) s)) q = kernel_word D T 256 (kmem s) q"
proof -
  let ?I = "\<lambda>i s'. kernel_directory s' = of_nat D \<and>
    (\<forall>q. 4 dvd q \<and> q < 2 ^ 32 \<longrightarrow> word_at (kmem s') q = kernel_word D T (i - 768) (kmem s) q)"
  have step: "?I (Suc i) (setup_table (of_nat T) i s')" if "768 \<le> i" "i < 1024" "?I i s'" for i s'
  proof (intro conjI allI impI)
    show "kernel_directory (setup_table (of_nat T) i s') = of_nat D" using that(3) by simp
    fix q :: nat
    assume q: "4 dvd q \<and> q < 2 ^ 32"
    show "word_at (kmem (setup_table (of_nat T) i s')) q = kernel_word D T (Suc i - 768) (kmem s) q"
      unfolding Suc_diff_le [OF that(1)]
      using setup_table_word [OF assms(1), of s' "i - 768" q "kmem s"] that q by simp
  qed
  have "?I 1024 (fold (setup_table (of_nat T)) [768..<1024] s)"
  proof (rule fold_upt_inv [where I = ?I])
    show "?I 768 s" using assms(2) by (auto simp: kernel_word_def)
  qed (simp, rule step)
  then show ?thesis using assms(3,4) by (simp add: setup_kernel_directory_def KERN_START_TBL_def)
qed

lemma setup_kernel_directory_paging:
  assumes "kernel_layout D T" "kernel_directory s = of_nat D"
  shows "kernel_paging D T (setup_kernel_directory (of_nat T) s)"
proof -
  note w = setup_kernel_directory_words [OF assms]
  have lay: "4 dvd D" "4 dvd T" "D + 8192 \<le> T \<or> T + 0x100000 \<le> D" "0xC0000000 \<le> T" "4096 dvd T"
    "D + 8192 \<le> 0xF8000000" "T + 0x100000 \<le> 0xF8000000"
    using assms(1) by (auto simp: kernel_layout_def elim!: dvdE)
  have "(T - 0xC0000000) div 4096 + n < ALL_FRAMES" if "n < 256" for n using lay(7) that by simp
  then show ?thesis unfolding kernel_paging_def kernel_entries_def using assms lay
    by (auto simp: w kernel_word_def Let_def)
qed

section \<open>Translation in the kernel window\<close>

lemma unat_dir_idx: "unat (PAGE_DIR_IDX va) = unat va div 0x400000"
  by (simp add: PAGE_DIR_IDX_def unat_div)

lemma unat_tbl_idx: "unat (PAGE_TBL_IDX va) = unat va mod 0x400000 div 0x1000"
  by (simp add: PAGE_TBL_IDX_def unat_div unat_mod)

lemma idx_of_nat:
  assumes "v < 2 ^ 32"
  shows "PAGE_DIR_IDX (of_nat v) = of_nat (v div 0x400000)"
    "PAGE_TBL_IDX (of_nat v) = of_nat (v mod 0x400000 div 0x1000)"
  using assms by (simp_all add: PAGE_DIR_IDX_def PAGE_TBL_IDX_def word_arith_nat_div word_arith_nat_mod unat_of_nat_u32)

text \<open>Page number \<open>k\<close> of the kernel window is described by the word at \<open>T + 4 * k\<close>.\<close>

definition window_page :: "u32 \<Rightarrow> nat" where
  "window_page va = (unat va - 0xC0000000) div 4096"

lemma window_page_less: "window_page va < 0x40000"
  using unat_u32_less [of va] by (simp add: window_page_def)

lemma window_split:
  assumes "0xC0000000 \<le> unat va"
  defines "n \<equiv> unat va div 0x400000 - 768" and "j \<equiv> unat va mod 0x400000 div 0x1000"
  shows "window_page va = n * 1024 + j" "n < 256"
    "PAGE_DIR_IDX va = of_nat (768 + n)" "PAGE_TBL_IDX va = of_nat j"
proof -
  have n: "unat va div 0x400000 = 768 + n" using assms(1) by (simp add: n_def div_le_mono)
  show "n < 256" using unat_u32_less [of va] by (simp add: n_def)
  have dec: "x - 0xC0000000 = r + (n * 1024) * 4096" if "(768 + n) * 0x400000 + r = x" for x r :: nat
    using that by simp
  have "unat va - 0xC0000000 = unat va mod 0x400000 + (n * 1024) * 4096"
    using dec [OF div_mult_mod_eq [of "unat va" "0x400000", unfolded n]] .
  then show "window_page va = n * 1024 + j"
    unfolding window_page_def j_def by simp
  show "PAGE_DIR_IDX va = of_nat (768 + n)" "PAGE_TBL_IDX va = of_nat j"
    using unat_dir_idx [of va] unat_tbl_idx [of va] n j_def by (metis of_nat_unat_u32)+
qed

lemma walk_kernel:
  assumes "kernel_entries m P T" "kernel_layout D T" "P + 8192 \<le> 2 ^ 32" "0xC0000000 \<le> unat va"
  shows "walk entry_present m (KV2P (of_nat P)) va =
    (let pte = word_at m (T + 4 * window_page va)
     in if entry_present pte then Some (entry_frame pte * 0x1000 + va mod 0x1000) else None)"
proof -
  define n j where "n = unat va div 0x400000 - 768" and "j = unat va mod 0x400000 div 0x1000"
  note split = window_split [OF assms(4), folded n_def j_def]
  have pde: "phys_word m (KV2P (of_nat P) + 4 * PAGE_DIR_IDX va) = word_at m (P + 3072 + 4 * n)"
    by (simp add: split phys_word_def KV2P_def KP2V_def word_at_def algebra_simps)
  let ?f = "(T - 0xC0000000) div 4096 + n"
  obtain t where t: "T = 0xC0000000 + t * 4096"
  proof -
    have "T = 0xC0000000 + (T - 0xC0000000) div 4096 * 4096"
      using assms(2) by (auto simp: kernel_layout_def)
    then show ?thesis by (rule that)
  qed
  then have T: "T + 4 * window_page va = 0xC0000000 + ?f * 4096 + 4 * j" unfolding split(1) by simp
  have "phys_word m (of_nat ?f * 0x1000 + 4 * PAGE_TBL_IDX va) = word_at m (T + 4 * window_page va)"
    unfolding T by (simp add: split phys_word_def KP2V_def word_at_def algebra_simps)
  moreover have "entry_present (word_at m (P + 3072 + 4 * n))"
    "entry_frame (word_at m (P + 3072 + 4 * n)) = of_nat ?f"
    using assms(1) split(2) by (auto simp: kernel_entries_def Let_def)
  ultimately show ?thesis by (simp only: walk_def pde Let_def) simp
qed

text \<open>The low 896 MiB.\<close>

lemma walk_low:
  assumes "kernel_paging D T s" "0xC0000000 \<le> unat va" "unat va < 0xF8000000"
  shows "walk entry_present (kmem s) (KV2P (of_nat D)) va = Some (KV2P va)"
proof -
  let ?k = "window_page va"
  have k: "?k < LOW_FRAMES" using assms(2,3) by (simp add: window_page_def)
  have inv: "kernel_entries (kmem s) D T" "kernel_layout D T" "D + 8192 \<le> 2 ^ 32"
    "entry_present (word_at (kmem s) (T + 4 * ?k))" "entry_frame (word_at (kmem s) (T + 4 * ?k)) = of_nat ?k"
    using assms(1) k by (auto simp: kernel_paging_def kernel_layout_def Let_def)
  have "unat va - 0xC0000000 = ?k * 4096 + (unat va - 0xC0000000) mod 4096"
    by (simp add: window_page_def)
  moreover have "(unat va - 0xC0000000) mod 4096 = unat va mod 4096"
    using assms(2) mod_mult_self1 [of "unat va - 0xC0000000" "0xC0000" 4096] by simp
  ultimately have "unat va = 0xC0000000 + ?k * 4096 + unat va mod 4096" using assms(2) by linarith
  then have "va = 0xC0000000 + of_nat ?k * 0x1000 + of_nat (unat va mod 4096)"
    by (metis (no_types, opaque_lifting) of_nat_add of_nat_mult of_nat_numeral of_nat_unat_u32)
  moreover have "of_nat (unat va mod 4096) = va mod 0x1000" by (simp add: word_arith_nat_mod)
  ultimately have "KV2P va = of_nat ?k * 0x1000 + va mod 0x1000"
    by (simp add: KV2P_def algebra_simps)
  then show ?thesis using walk_kernel [OF inv(1-3) assms(2)] inv(4,5) by (simp add: Let_def)
qed

section \<open>Temporary mappings\<close>

text \<open>Slots of the high window are searched in ascending order of their page number.\<close>

definition free_slot :: "nat \<Rightarrow> mem \<Rightarrow> nat option" where
  "free_slot T m = find (\<lambda>k. word_at m (T + 4 * k) = 0) [LOW_FRAMES..<0x40000]"

definition slot_word :: "u32 \<Rightarrow> u32" where
  "slot_word paddr = with_bit 2 False (with_bit 1 True (with_bit 0 True (with_frame (PAGE_FRAME paddr) 0)))"

definition kmap_spec :: "nat \<Rightarrow> u32 \<Rightarrow> 'a vmm_scheme \<Rightarrow> u32 \<times> 'a vmm_scheme" where
  "kmap_spec T paddr s =
     (case free_slot T (kmem s) of
        None \<Rightarrow> (0, s)
      | Some k \<Rightarrow> (of_nat (0xC0000000 + 4096 * k) + paddr mod PAGE_SIZE,
                   s\<lparr>kmem := store32 (kmem s) (of_nat (T + 4 * k)) (slot_word paddr)\<rparr>))"

lemma find_map: "find P (map f xs) = map_option f (find (P \<circ> f) xs)"
  by (induction xs) auto

lemma product_upt:
  assumes "a \<le> b"
  shows "map (\<lambda>(i, j). i * n + j) (List.product [a..<b] [0..<n]) = [a * n..<b * n]"
  using assms
proof (induction b)
  case (Suc b)
  show ?case
  proof (cases "a \<le> b")
    case True
    have "map (\<lambda>j. b * n + j) [0..<n] = [b * n..<b * n + n]"
      by (simp add: map_add_upt add.commute)
    moreover have "[a * n..<b * n + n] = [a * n..<b * n] @ [b * n..<b * n + n]"
      using True by (intro upt_add_eq_append) simp
    ultimately show ?thesis using True Suc by (simp add: product_concat_map comp_def add.commute)
  next
    case False
    with Suc.prems have "a = Suc b" by simp
    then show ?thesis by simp
  qed
qed simp

lemma map_upt_shift: "map (\<lambda>k. k + c) [a..<b] = [a + c..<b + c]"
  by (rule nth_equalityI) auto

lemma kmap_search_find:
  assumes "kernel_paging D T s" "\<forall>(i, j)\<in>set ijs. 992 \<le> i \<and> i < 1024 \<and> j < 1024"
  shows "kmap_search ijs paddr s =
    (case find (\<lambda>k. word_at (kmem s) (T + 4 * (k - 786432)) = 0) (map (\<lambda>(i, j). i * 1024 + j) ijs) of
       None \<Rightarrow> (0, s)
     | Some k \<Rightarrow> (of_nat (4096 * k) + paddr mod PAGE_SIZE,
                  s\<lparr>kmem := store32 (kmem s) (of_nat (T + 4 * (k - 786432))) (slot_word paddr)\<rparr>))"
  using assms(2)
proof (induction ijs)
  case (Cons ij ijs)
  obtain i j where ij: "ij = (i, j)" "992 \<le> i" "i < 1024" "j < 1024" using Cons.prems by auto
  let ?p = "T + 4 * (i * 1024 + j - 786432)"
  have "word_at (kmem s) (D + 7168 + 4 * (i - 768)) = of_nat (T + (i - 768) * 4096)"
    using assms(1) ij(2,3) by (auto simp: kernel_paging_def)
  moreover have "D + 7168 + 4 * (i - 768) = D + 4096 + 4 * i" "T + (i - 768) * 4096 + 4 * j = ?p"
    using ij(2) by auto
  moreover have "kernel_directory s = of_nat D" using assms(1) by (simp add: kernel_paging_def)
  ultimately have p: "table_page (load32 (kmem s) (dir_table (kernel_directory s) (of_nat i))) (of_nat j) = of_nat ?p"
    by (simp add: word_at_def dir_table_def table_page_def)
  have "set_page (of_nat ?p) (PAGE_FRAME paddr) True True False s =
      s\<lparr>kmem := store32 (kmem s) (of_nat ?p) (slot_word paddr)\<rparr>" if "load32 (kmem s) (of_nat ?p) = 0"
    using that by (simp add: set_page_def Let_def upd_word_twice comp_def slot_word_def upd_word_def store32_self)
  moreover have "PAGE_IDX_VADDR (of_nat i) (of_nat j) x = of_nat (4096 * (i * 1024 + j)) + x" for x
    by (simp add: PAGE_IDX_VADDR_def algebra_simps)
  ultimately show ?case using Cons unfolding ij(1) kmap_search.simps Let_def p
    by (simp add: word_at_def ij(1) del: of_nat_add of_nat_mult)
qed simp

lemma kmap_refines:
  assumes "kernel_paging D T s" "KERN_IDENTITY_PHYS_END \<le> paddr"
  shows "kmap paddr s = kmap_spec T paddr s"
proof -
  have "[LOW_FRAMES + 786432..<0x40000 + 786432] = map (\<lambda>k. k + 786432) [LOW_FRAMES..<0x40000]"
    by (simp only: map_upt_shift)
  moreover have "map (\<lambda>(i, j). i * 1024 + j) (List.product [992..<1024] [0..<1024]) = [LOW_FRAMES + 786432..<0x40000 + 786432]"
    by (subst product_upt) (simp_all del: upt_rec_numeral)
  moreover have "paddr \<noteq> 0" "\<not> paddr < KERN_IDENTITY_PHYS_END"
    using assms(2) by (auto simp: identity_end)
  ultimately show ?thesis
    using kmap_search_find [OF assms(1), of "List.product [992..<1024] [0..<1024]" paddr]
    by (simp add: kmap_def kmap_spec_def free_slot_def find_map comp_def KERN_HIGHMEM_START_TBL_def
        option.case_eq_if option.map_sel algebra_simps del: upt_rec_numeral)
qed

text \<open>
  A directory shares the kernel's tables when its upper quarter refers to them and it does not
  overlap them. The kernel's own directory does, and so does every process directory.
\<close>

definition shares_kernel :: "nat \<Rightarrow> nat \<Rightarrow> 'a vmm_scheme \<Rightarrow> bool" where
  "shares_kernel P T s \<longleftrightarrow> kernel_entries (kmem s) P T \<and> 4 dvd P \<and> P + 8192 \<le> 2 ^ 32 \<and>
     (P + 8192 \<le> T \<or> T + 0x100000 \<le> P) \<and> cr3 s = KV2P (of_nat P)"

lemma free_slot_Some:
  assumes "free_slot T m = Some k"
  shows "LOW_FRAMES \<le> k" "k < 0x40000" "word_at m (T + 4 * k) = 0"
proof -
  have "k \<in> set [LOW_FRAMES..<0x40000] \<and> word_at m (T + 4 * k) = 0"
    using assms unfolding free_slot_def find_Some_iff by (metis nth_mem)
  then show "LOW_FRAMES \<le> k" "k < 0x40000" "word_at m (T + 4 * k) = 0"
    unfolding set_upt by simp_all
qed

lemma layout_page:
  assumes "kernel_layout D T" "k < 0x40000"
  shows "4 dvd T + 4 * k" "T + 4 * k < 2 ^ 32"
  using assms by (auto simp: kernel_layout_def elim!: dvdE)

lemma word_at_slot:
  assumes "kernel_layout D T" "k < 0x40000" "4 dvd q" "q < 2 ^ 32"
  shows "word_at (store32 m (of_nat (T + 4 * k)) v) q = (if q = T + 4 * k then v else word_at m q)"
  using layout_page [OF assms(1,2)] assms(3,4) by (intro word_at_store)

lemma slot_outside:
  assumes "kernel_layout D T" "k < 0x40000" "4 dvd P" "P + 8192 \<le> 2 ^ 32"
    "P + 8192 \<le> T \<or> T + 0x100000 \<le> P" "n < 2048"
  shows "word_at (store32 m (of_nat (T + 4 * k)) v) (P + 4 * n) = word_at m (P + 4 * n)"
proof -
  have "P + 4 * n \<noteq> T + 4 * k" using assms(2,5,6) by auto
  then show ?thesis using assms(3,4,6) by (subst word_at_slot [OF assms(1,2)]) auto
qed

lemma kernel_entries_slot:
  assumes "kernel_layout D T" "k < 0x40000" "4 dvd P" "P + 8192 \<le> 2 ^ 32" "P + 8192 \<le> T \<or> T + 0x100000 \<le> P"
  shows "kernel_entries (store32 m (of_nat (T + 4 * k)) v) P T = kernel_entries m P T"
proof -
  have "word_at (store32 m (of_nat (T + 4 * k)) v) (P + 3072 + 4 * n) = word_at m (P + 3072 + 4 * n)" if "n < 256" for n
    using slot_outside [OF assms, of "768 + n" m v] that by (simp add: algebra_simps)
  then show ?thesis by (simp add: kernel_entries_def)
qed

lemma paging_slot:
  assumes "kernel_paging D T s" "LOW_FRAMES \<le> k" "k < 0x40000"
  shows "kernel_paging D T (s\<lparr>kmem := store32 (kmem s) (of_nat (T + 4 * k)) v\<rparr>)"
proof -
  have lay: "kernel_layout D T" "4 dvd D" "D + 8192 \<le> 2 ^ 32" "D + 8192 \<le> T \<or> T + 0x100000 \<le> D"
    using assms(1) by (auto simp: kernel_paging_def kernel_layout_def elim!: dvdE)
  have "word_at (store32 (kmem s) (of_nat (T + 4 * k)) v) (D + 7168 + 4 * n) = word_at (kmem s) (D + 7168 + 4 * n)"
    if "n < 256" for n
    using slot_outside [OF lay(1) assms(3) lay(2-4), of "1792 + n"] that by (simp add: algebra_simps)
  moreover have "word_at (store32 (kmem s) (of_nat (T + 4 * k)) v) (T + 4 * k') = word_at (kmem s) (T + 4 * k')"
    if "k' < LOW_FRAMES" for k'
    using assms(2) that layout_page [OF lay(1), of k'] by (subst word_at_slot [OF lay(1) assms(3)]) auto
  ultimately show ?thesis using assms(1) kernel_entries_slot [OF lay(1) assms(3) lay(2-4)]
    by (simp add: kernel_paging_def)
qed

lemma shares_slot:
  assumes "shares_kernel P T s" "kernel_layout D T" "k < 0x40000"
  shows "shares_kernel P T (s\<lparr>kmem := store32 (kmem s) (of_nat (T + 4 * k)) v\<rparr>)"
  using assms(1) kernel_entries_slot [OF assms(2,3)] by (auto simp: shares_kernel_def)

lemma translate_window:
  assumes "shares_kernel P T s" "kernel_layout D T" "0xC0000000 \<le> unat va"
  shows "translate s va = (let pte = word_at (kmem s) (T + 4 * window_page va)
     in if entry_present pte then Some (entry_frame pte * 0x1000 + va mod 0x1000) else None)"
  using assms(1) walk_kernel [OF _ assms(2) _ assms(3), of "kmem s" P]
  by (simp add: translate_def shares_kernel_def)

text \<open>What a write to one slot does to the translation.\<close>

lemma translate_slot:
  assumes "shares_kernel P T s" "kernel_layout D T" "k < 0x40000" "0xC0000000 \<le> unat va"
  shows "translate (s\<lparr>kmem := store32 (kmem s) (of_nat (T + 4 * k)) v\<rparr>) va =
    (if window_page va = k
     then if entry_present v then Some (entry_frame v * 0x1000 + va mod 0x1000) else None
     else translate s va)"
proof -
  let ?s = "s\<lparr>kmem := store32 (kmem s) (of_nat (T + 4 * k)) v\<rparr>"
  have "word_at (kmem ?s) (T + 4 * window_page va) =
      (if window_page va = k then v else word_at (kmem s) (T + 4 * window_page va))"
    using layout_page [OF assms(2) window_page_less, of va] word_at_slot [OF assms(2,3)] by simp
  then show ?thesis unfolding translate_window [OF assms(1,2,4)] translate_window [OF shares_slot [OF assms(1-3)] assms(2,4)] by (simp add: Let_def)
qed

end
