(* ===== verification/Paging_Props.thy ===== *)
theory Paging_Props
  imports Paging_Window
begin

text \<open>
  The contract of the temporary mappings as a locale with its interpretation on \<open>kmap\<close> and
  \<open>kunmap\<close>, the initialisation of paging, and the properties of both with their witnesses.
\<close>

section \<open>The contract of the temporary mappings\<close>

text \<open>
  The contract of the temporary mappings: a page that is mapped can be reached at the address
  returned, which nothing used before, no other page moves, and unmapping restores the state.
\<close>

locale temp_map =
  fixes map_page :: "u32 \<Rightarrow> 's \<Rightarrow> u32 \<times> 's"
    and unmap :: "u32 \<Rightarrow> 's \<Rightarrow> 's"
    and tr :: "'s \<Rightarrow> u32 \<Rightarrow> u32 option"
    and valid :: "'s \<Rightarrow> bool"
    and room :: "'s \<Rightarrow> bool"
    and mappable :: "u32 \<Rightarrow> bool"
  assumes map_valid: "valid s \<Longrightarrow> room s \<Longrightarrow> mappable p \<Longrightarrow> map_page p s = (va, s') \<Longrightarrow> valid s'"
    and map_window: "valid s \<Longrightarrow> room s \<Longrightarrow> mappable p \<Longrightarrow> map_page p s = (va, s') \<Longrightarrow> 0xF8000000 \<le> va"
    and map_fresh: "valid s \<Longrightarrow> room s \<Longrightarrow> mappable p \<Longrightarrow> map_page p s = (va, s') \<Longrightarrow>
      0xC0000000 \<le> va' \<Longrightarrow> va' div 0x1000 = va div 0x1000 \<Longrightarrow> tr s va' = None"
    and map_tr: "valid s \<Longrightarrow> room s \<Longrightarrow> mappable p \<Longrightarrow> map_page p s = (va, s') \<Longrightarrow> tr s' va = Some p"
    and map_frame: "valid s \<Longrightarrow> room s \<Longrightarrow> mappable p \<Longrightarrow> map_page p s = (va, s') \<Longrightarrow>
      0xC0000000 \<le> va' \<Longrightarrow> va' div 0x1000 \<noteq> va div 0x1000 \<Longrightarrow> tr s' va' = tr s va'"
    and unmap_map: "valid s \<Longrightarrow> room s \<Longrightarrow> mappable p \<Longrightarrow> map_page p s = (va, s') \<Longrightarrow> unmap va s' = s"
begin

lemma two_mappings:
  assumes "valid s" "room s" "mappable p" "map_page p s = (va, s1)"
    and "room s1" "mappable q" "map_page q s1 = (vb, s2)"
  shows "va div 0x1000 \<noteq> vb div 0x1000 \<and> tr s2 va = Some p \<and> tr s2 vb = Some q \<and> unmap va (unmap vb s2) = s"
proof -
  have v1: "valid s1" and ta: "tr s1 va = Some p"
    using map_valid [OF assms(1-4)] map_tr [OF assms(1-4)] by auto
  have wa: "0xC0000000 \<le> va"
    using map_window [OF assms(1-4)] by (rule order.trans [rotated]) simp
  have ne: "va div 0x1000 \<noteq> vb div 0x1000"
    using map_fresh [OF v1 assms(5-7) wa] ta by auto
  then have "tr s2 va = Some p" using map_frame [OF v1 assms(5-7) wa] ta by simp
  then show ?thesis
    using ne map_tr [OF v1 assms(5-7)] unmap_map [OF v1 assms(5-7)] unmap_map [OF assms(1-4)] by simp
qed

end

lemma page_number_eq: "(va' div 0x1000 = va div 0x1000) = (unat va' div 4096 = unat (va :: u32) div 4096)"
  by (simp add: word_unat_eq_iff unat_div)

lemma window_page_eq:
  assumes "0xC0000000 \<le> unat va" "0xC0000000 \<le> unat va'"
  shows "(window_page va' = window_page va) = (va' div 0x1000 = va div 0x1000)"
proof -
  have "unat v div 4096 = 0xC0000 + window_page v" if le: "0xC0000000 \<le> unat v" for v :: u32
  proof -
    obtain x where "unat v = 0xC0000 * 4096 + x" using le by (auto simp: le_iff_add)
    then show ?thesis by (simp add: window_page_def)
  qed
  then show ?thesis using assms by (simp add: page_number_eq)
qed

lemma slot_address:
  fixes paddr :: u32
  assumes "LOW_FRAMES \<le> k" "k < 0x40000"
  defines "va \<equiv> of_nat (0xC0000000 + 4096 * k) + paddr mod PAGE_SIZE"
  shows "unat va = 0xC0000000 + 4096 * k + unat paddr mod 4096" "window_page va = k"
    "0xF8000000 \<le> va" "va mod 0x1000 = paddr mod 0x1000"
proof -
  have m: "unat (paddr mod PAGE_SIZE) = unat paddr mod 4096" by (simp add: PAGE_SIZE_def unat_mod)
  have b: "unat (of_nat (0xC0000000 + 4096 * k) :: u32) = 0xC0000000 + 4096 * k"
    using assms(2) by (intro unat_of_nat_u32) simp
  have lt: "unat paddr mod 4096 < 4096" by simp
  show u: "unat va = 0xC0000000 + 4096 * k + unat paddr mod 4096"
  proof -
    have "unat (of_nat (0xC0000000 + 4096 * k) :: u32) + unat (paddr mod PAGE_SIZE) < 2 ^ 32"
      unfolding m b using assms(2) lt by simp
    then show ?thesis unfolding va_def by (simp only: unat_add_u32 m b)
  qed
  show "window_page va = k" by (simp add: window_page_def u)
  show "0xF8000000 \<le> va" using assms(1) by (simp add: word_le_nat_alt u)
  have "0xC0000000 + 4096 * k + unat paddr mod 4096 = unat paddr mod 4096 + (0xC0000 + k) * 4096" by simp
  then have "unat va mod 4096 = unat paddr mod 4096" unfolding u by (simp only: mod_mult_self1 mod_mod_trivial)
  then show "va mod 0x1000 = paddr mod 0x1000" by (simp add: word_unat_eq_iff unat_mod)
qed

lemma slot_word_entry:
  "entry_present (slot_word paddr)" "entry_frame (slot_word paddr) = PAGE_FRAME paddr"
proof -
  have "PAGE_FRAME paddr = of_nat (unat paddr div 4096)" by (simp add: PAGE_FRAME_def word_arith_nat_div)
  moreover have "unat paddr div 4096 < ALL_FRAMES" by (rule frame_number_less)
  ultimately show "entry_frame (slot_word paddr) = PAGE_FRAME paddr"
    using frame_take_bit [of "unat paddr div 4096"] by (simp add: slot_word_def)
qed (simp add: slot_word_def)

lemma frame_offset: "PAGE_FRAME paddr * 0x1000 + paddr mod 0x1000 = paddr"
  unfolding PAGE_FRAME_def by (rule div_mult_mod_eq)

definition mapped_kernel :: "nat \<Rightarrow> nat \<Rightarrow> nat \<Rightarrow> 'a vmm_scheme \<Rightarrow> bool" where
  "mapped_kernel D T P s \<longleftrightarrow> kernel_paging D T s \<and> shares_kernel P T s"

lemma kmap_slot:
  assumes "mapped_kernel D T P s" "free_slot T (kmem s) \<noteq> None" "KERN_IDENTITY_PHYS_END \<le> p" "kmap p s = (va, s')"
  obtains k where "LOW_FRAMES \<le> k" "k < 0x40000" "word_at (kmem s) (T + 4 * k) = 0"
    "va = of_nat (0xC0000000 + 4096 * k) + p mod PAGE_SIZE"
    "s' = s\<lparr>kmem := store32 (kmem s) (of_nat (T + 4 * k)) (slot_word p)\<rparr>"
proof -
  obtain k where k: "free_slot T (kmem s) = Some k" using assms(2) by blast
  have "kmap p s = kmap_spec T p s" using assms(1,3) kmap_refines [of D T s p] by (simp add: mapped_kernel_def)
  then show ?thesis using assms(4) free_slot_Some [OF k] by (intro that [of k]) (simp_all add: kmap_spec_def k)
qed

lemma kunmap_slot:
  assumes "kernel_paging D T s" "0xC0000000 \<le> unat va"
  shows "kunmap va s = s\<lparr>kmem := store32 (kmem s) (of_nat (T + 4 * window_page va)) 0\<rparr>"
proof -
  define n j where "n = unat va div 0x400000 - 768" and "j = unat va mod 0x400000 div 0x1000"
  note k = window_split [OF assms(2), folded n_def j_def]
  have "word_at (kmem s) (D + 7168 + 4 * n) = of_nat (T + n * 4096)" "kernel_directory s = of_nat D"
    using assms(1) k(2) by (auto simp: kernel_paging_def)
  then have "load32 (kmem s) (dir_table (kernel_directory s) (PAGE_DIR_IDX va)) = of_nat (T + n * 4096)"
    by (simp add: k dir_table_def word_at_def algebra_simps)
  moreover have "va \<noteq> 0" "\<not> va < 0xC0000000" using assms(2) by (auto simp: word_less_nat_alt)
  ultimately show ?thesis by (simp add: kunmap_def k table_page_def upd_word_def algebra_simps)
qed

interpretation kernel_maps: temp_map kmap kunmap translate "mapped_kernel D T P"
  "\<lambda>s. free_slot T (kmem s) \<noteq> None" "\<lambda>p. KERN_IDENTITY_PHYS_END \<le> p" for D T P
proof (unfold_locales, goal_cases)
  case (1 s p va s')
  then obtain k where k: "LOW_FRAMES \<le> k" "k < 0x40000"
    "s' = s\<lparr>kmem := store32 (kmem s) (of_nat (T + 4 * k)) (slot_word p)\<rparr>"
    by (rule kmap_slot)
  have "kernel_paging D T s" "shares_kernel P T s" "kernel_layout D T"
    using 1(1) by (auto simp: mapped_kernel_def kernel_paging_def)
  then show ?case unfolding mapped_kernel_def k(3)
    using paging_slot [of D T s k "slot_word p"] shares_slot [of P T s D k "slot_word p"] k(1,2) by blast
next
  case (2 s p va s')
  then obtain k where k: "LOW_FRAMES \<le> k" "k < 0x40000"
    "va = of_nat (0xC0000000 + 4096 * k) + p mod PAGE_SIZE"
    by (rule kmap_slot)
  show ?case unfolding k(3) using k(1,2) by (rule slot_address)
next
  case (3 s p va s' va')
  from 3(1-4) obtain k where k: "LOW_FRAMES \<le> k" "k < 0x40000" "word_at (kmem s) (T + 4 * k) = 0"
    "va = of_nat (0xC0000000 + 4096 * k) + p mod PAGE_SIZE"
    by (rule kmap_slot)
  note a = slot_address [OF k(1,2), of p, folded k(4)]
  have va': "0xC0000000 \<le> unat va'" using 3(5) by (simp add: word_le_nat_alt)
  then have "window_page va' = k" using 3(6) a(1,2) by (subst (asm) window_page_eq [symmetric]) simp_all
  then show ?case using translate_window [of P T s D va'] va' 3(1) k(3)
    by (simp add: entry_present_def mapped_kernel_def kernel_paging_def)
next
  case (4 s p va s')
  then obtain k where k: "LOW_FRAMES \<le> k" "k < 0x40000"
    "va = of_nat (0xC0000000 + 4096 * k) + p mod PAGE_SIZE"
    "s' = s\<lparr>kmem := store32 (kmem s) (of_nat (T + 4 * k)) (slot_word p)\<rparr>"
    by (rule kmap_slot)
  note a = slot_address [OF k(1,2), of p, folded k(3)]
  show ?case using 4(1) a translate_slot [of P T s D k va "slot_word p"] k(2)
    by (simp add: k(4) mapped_kernel_def kernel_paging_def slot_word_entry frame_offset)
next
  case (5 s p va s' va')
  from 5(1-4) obtain k where k: "LOW_FRAMES \<le> k" "k < 0x40000"
    "va = of_nat (0xC0000000 + 4096 * k) + p mod PAGE_SIZE"
    "s' = s\<lparr>kmem := store32 (kmem s) (of_nat (T + 4 * k)) (slot_word p)\<rparr>"
    by (rule kmap_slot)
  note a = slot_address [OF k(1,2), of p, folded k(3)]
  have va': "0xC0000000 \<le> unat va'" using 5(5) by (simp add: word_le_nat_alt)
  then have "window_page va' \<noteq> k" using 5(6) a(1,2) window_page_eq [OF _ va', of va] by simp
  then show ?case using 5(1) translate_slot [of P T s D k va' "slot_word p"] k(2) va'
    by (simp add: k(4) mapped_kernel_def kernel_paging_def)
next
  case (6 s p va s')
  then obtain k where k: "LOW_FRAMES \<le> k" "k < 0x40000" "word_at (kmem s) (T + 4 * k) = 0"
    "va = of_nat (0xC0000000 + 4096 * k) + p mod PAGE_SIZE"
    "s' = s\<lparr>kmem := store32 (kmem s) (of_nat (T + 4 * k)) (slot_word p)\<rparr>"
    by (rule kmap_slot)
  note a = slot_address [OF k(1,2), of p, folded k(4)]
  have "kernel_paging D T s'" using 6(1) paging_slot k by (auto simp: mapped_kernel_def)
  moreover have "store32 (kmem s) (of_nat (T + 4 * k)) 0 = kmem s"
    using store32_id [of "kmem s" "of_nat (T + 4 * k)"] k(3) by (simp add: word_at_def)
  ultimately show ?case using kunmap_slot [of D T s' va] a(1,2) by (simp add: k(5))
qed

text \<open>Addresses of the same page go to the same frame.\<close>

lemma page_offset:
  fixes va off :: u32
  assumes "va mod 0x1000 = 0" "off < 0x1000" "translate s va = Some pa"
  shows "translate s (va + off) = Some (pa + off)"
proof -
  have va: "unat va mod 4096 = 0" using assms(1) by (simp add: word_unat_eq_iff unat_mod)
  define k where "k = unat va div 4096"
  have k: "unat va = k * 4096" using div_mult_mod_eq [of "unat va" 4096] va by (simp only: k_def)
  have o: "unat off < 4096" using assms(2) by (simp add: word_less_nat_alt)
  have s: "unat (va + off) = unat off + k * 4096" using k o unat_u32_less [of va] by (simp add: unat_word_ariths)
  have "(unat off + k * 4096) div 0x400000 = k * 4096 div 0x400000"
    "(unat off + k * 4096) mod 0x400000 div 0x1000 = k * 4096 mod 0x400000 div 0x1000"
  proof -
    have e: "(0x400000 :: nat) = 4096 * 1024" by simp
    show "(unat off + k * 4096) div 0x400000 = k * 4096 div 0x400000" unfolding e div_mult2_eq using o by simp
    show "(unat off + k * 4096) mod 0x400000 div 0x1000 = k * 4096 mod 0x400000 div 0x1000"
      unfolding e mod_mult2_eq using o by simp
  qed
  then have "PAGE_DIR_IDX (va + off) = PAGE_DIR_IDX va" "PAGE_TBL_IDX (va + off) = PAGE_TBL_IDX va" "(va + off) mod 0x1000 = off"
    using k s o by (simp_all add: PAGE_DIR_IDX_def PAGE_TBL_IDX_def word_unat_eq_iff unat_div unat_mod)
  then show ?thesis using assms(1,3) by (auto simp: translate_def walk_def Let_def split: if_splits)
qed

section \<open>Initialisation\<close>

lemma reserve_loop_more: "pmm.more (reserve_loop a b s) = pmm.more s"
  by (induction a b s rule: reserve_loop.induct) (subst reserve_loop.simps, simp add: set_frame_def Let_def)

lemma reserve_more [simp]: "pmm.more (reserve start len s) = pmm.more s"
  by (simp add: reserve_def Let_def reserve_loop_more)

lemma pmm_more_of_more: "tty.more s = tty.more s' \<Longrightarrow> pmm.more s = pmm.more s'"
  by (cases s; cases s'; simp)

lemma reserve_entry_more [simp]: "pmm.more (reserve_entry m a s) = pmm.more s"
  by (simp add: reserve_entry_def Let_def pmm_more_of_more [OF kprint_more])

lemma mem_map_loop_returns:
  assumes "unat len \<le> 0xFFFFFFE8"
  shows "\<exists>s'. mem_map_loop m a len i s = Some s' \<and> pmm.more s' = pmm.more s"
proof (induction "unat len - unat i" arbitrary: i s rule: less_induct)
  case less
  show ?case
  proof (cases "i < len")
    case True
    then have i: "unat i < unat len" by (simp add: word_less_nat_alt)
    then have "unat (i + 24) = unat i + 24" using assms by (subst unat_add_u32) simp_all
    then have "unat len - unat (i + 24) < unat len - unat i" using i by simp
    from less [OF this, of "reserve_entry m (a + i + 0xC0000000) s"] True show ?thesis
      by (subst mem_map_loop.simps) simp
  next
    case False
    then show ?thesis by (subst mem_map_loop.simps) simp
  qed
qed

lemma terminal_initialize_more [simp]: "tty.more (terminal_initialize s) = tty.more s"
  by (simp add: terminal_initialize_def Let_def)

lemma vmm_fields_of_more:
  assumes "pmm.more s = pmm.more (s' :: 'a vmm_scheme)"
  shows "kmem s = kmem s'" "kernel_directory s = kernel_directory s'"
    "interrupt_handlers s = interrupt_handlers s'" "cr3 s = cr3 s'"
  using assms by (cases s; cases s'; simp)+

lemma mapped_kernel_cong:
  assumes "kmem s = kmem s'" "kernel_directory s = kernel_directory s'" "cr3 s = cr3 s'"
  shows "mapped_kernel D T P s = mapped_kernel D T P s'"
  using assms by (simp add: mapped_kernel_def kernel_paging_def shares_kernel_def)

lemma setup_swap_mapped:
  assumes "kernel_layout D T" "kernel_directory s = of_nat D"
  shows "mapped_kernel D T D (swap_dir (of_nat D) (setup_kernel_directory (of_nat T) s))"
proof -
  have "kernel_paging D T (setup_kernel_directory (of_nat T) s)"
    using assms by (rule setup_kernel_directory_paging)
  moreover have "4 dvd D" using assms(1) by (auto simp: kernel_layout_def elim!: dvdE)
  ultimately show ?thesis
    by (auto simp: mapped_kernel_def kernel_paging_def shares_kernel_def swap_dir_def kernel_layout_def)
qed

text \<open>The boot information lies in the kernel window, apart from the tables.\<close>

definition apart :: "nat \<Rightarrow> nat \<Rightarrow> nat \<Rightarrow> bool" where
  "apart D T q \<longleftrightarrow> 4 dvd q \<and> q < 2 ^ 32 \<and> (q < D \<or> D + 8192 \<le> q) \<and> (q < T \<or> T + 0x100000 \<le> q)"

lemma setup_apart:
  assumes "kernel_layout D T" "kernel_directory s = of_nat D" "apart D T q"
  shows "word_at (kmem (setup_kernel_directory (of_nat T) s)) q = word_at (kmem s) q"
proof -
  have "kernel_word D T 256 (kmem s) q = word_at (kmem s) q"
    using assms(3) by (auto simp: kernel_word_def apart_def)
  then show ?thesis using setup_kernel_directory_words [OF assms(1,2), of q] assms(3) by (simp add: apart_def)
qed

lemma translate_low:
  assumes "mapped_kernel D T D s" "0xC0000000 \<le> va" "va < 0xF8000000"
  shows "translate s va = Some (KV2P va)"
  using assms walk_low [of D T s va]
  by (simp add: translate_def mapped_kernel_def shares_kernel_def word_le_nat_alt word_less_nat_alt)

lemma paging_init_ok:
  fixes s :: "'a vmm_scheme"
  assumes "kernel_layout D T" "b = 0xC0000000 + unat mbd"
    and "\<forall>q\<in>{b, b + 44, b + 48}. apart D T q"
    and "word_at (kmem s) b AND 0x20 \<noteq> 0" "unat (word_at (kmem s) (b + 44)) \<le> 0xFFFFFFE8"
  obtains s' where "paging_init (of_nat D) (of_nat T) mbd MULTIBOOT_BOOTLOADER_MAGIC s = Some (Running s')"
    "mapped_kernel D T D s'" "interrupt_handlers s' 14 = Some Page_fault" "\<forall>f<1024. frame_used s' f"
proof -
  define s1 where "s1 = (isr_set_handler 14 Page_fault s)\<lparr>kernel_directory := of_nat D\<rparr>"
  define s2 where "s2 = terminal_initialize (swap_dir (of_nat D) (setup_kernel_directory (of_nat T) s1))"
  have s1: "kernel_directory s1 = of_nat D" "kmem s1 = kmem s" "interrupt_handlers s1 14 = Some Page_fault"
    by (simp_all add: s1_def isr_set_handler_def)
  have s2: "pmm.more s2 = pmm.more (swap_dir (of_nat D) (setup_kernel_directory (of_nat T) s1))"
    unfolding s2_def by (intro pmm_more_of_more) simp
  have "kmem s2 = kmem (setup_kernel_directory (of_nat T) s1)"
    using vmm_fields_of_more(1) [OF s2] by (simp add: swap_dir_def)
  then have w: "word_at (kmem s2) q = word_at (kmem s) q" if "apart D T q" for q
    using setup_apart [OF assms(1) s1(1) that] s1(2) by simp
  have "mbd + 0xC0000000 = of_nat b" using assms(2) by simp
  then have ld: "load32 (kmem s2) (mbd + 0xC0000000) = word_at (kmem s) b"
    "load32 (kmem s2) (mbd + 0xC0000000 + 44) = word_at (kmem s) (b + 44)"
    using w [of b] w [of "b + 44"] assms(3) by (simp_all add: word_at_def)
  obtain s3 where s3: "mem_map_loop (kmem s2) (load32 (kmem s2) (mbd + 0xC0000000 + 48))
      (load32 (kmem s2) (mbd + 0xC0000000 + 44)) 0 s2 = Some s3" "pmm.more s3 = pmm.more s2"
    using mem_map_loop_returns assms(5) unfolding ld by blast
  let ?s = "reserve 0 PAGE_TABLE_SIZE s3"
  have "pmm.more ?s = pmm.more (swap_dir (of_nat D) (setup_kernel_directory (of_nat T) s1))"
    using s2 s3(2) by simp
  note f = vmm_fields_of_more [OF this]
  show ?thesis
  proof (rule that [of ?s])
    show "paging_init (of_nat D) (of_nat T) mbd MULTIBOOT_BOOTLOADER_MAGIC s = Some (Running ?s)"
      using assms(4) s3(1) ld(1) s1(1)
      by (simp add: paging_init_def Let_def reserve_mem_map_def flip: s1_def) (simp add: s2_def)
    show "mapped_kernel D T D ?s"
      using setup_swap_mapped [OF assms(1) s1(1)] mapped_kernel_cong [OF f(1,2,4)] by simp
    show "interrupt_handlers ?s 14 = Some Page_fault" using f(3) s1(3) by (simp add: swap_dir_def)
    show "\<forall>f<1024. frame_used ?s f" by (simp add: reserve_used PAGE_TABLE_SIZE_def)
  qed
qed

section \<open>Sample states\<close>

text \<open>
  Memory that holds a Multiboot information structure with an empty memory map at physical
  \<open>0x9000\<close> and is 0 elsewhere; \<open>booted\<close> is what \<open>setup_kernel_directory\<close> makes of it.
\<close>

definition boot_state :: vmm where
  "boot_state = \<lparr>terminal_row = 0, terminal_column = 0, terminal_color = 7, terminal_buffer = (\<lambda>_. 0),
     framemap = sample_map, kmem = store32 (\<lambda>_. 0) 0xC0009000 0x60,
     kheap = \<lparr>heap_user = 0, heap_rw = 0, heap_start = 0, heap_end = 0, heap_max_addr = 0, heap_magic = 0\<rparr>,
     kheap_header_array = \<lparr>oa_array = [], oa_size = 0, oa_max_size = 0, oa_predicate = less_predicate\<rparr>,
     kheap_footer_array = \<lparr>oa_array = [], oa_size = 0, oa_max_size = 0, oa_predicate = less_predicate\<rparr>,
     interrupt_handlers = (\<lambda>_. None), kernel_directory = 0xC0104000, cr3 = 0\<rparr>"

definition booted :: vmm where
  "booted = swap_dir 0xC0104000 (setup_kernel_directory 0xC0106000 boot_state)"

lemma sample_layout: "kernel_layout 0xC0104000 0xC0106000"
  by (simp add: kernel_layout_def)

lemma word_at_zero: "word_at (\<lambda>_. 0) q = 0"
  by (simp add: word_at_def load32_def)

lemma boot_words: "4 dvd q \<Longrightarrow> q < 2 ^ 32 \<Longrightarrow> word_at (kmem boot_state) q = (if q = 0xC0009000 then 0x60 else 0)"
  using word_at_store [where p = "0xC0009000" and q = q and m = "\<lambda>_. 0" and v = "0x60"] by (simp add: boot_state_def word_at_zero)

lemma booted_mapped: "mapped_kernel 0xC0104000 0xC0106000 0xC0104000 booted"
  using setup_swap_mapped [OF sample_layout, where s = boot_state] by (simp add: booted_def boot_state_def)

lemma booted_slot_word:
  assumes "LOW_FRAMES \<le> k" "k < 0x40000"
  shows "word_at (kmem booted) (0xC0106000 + 4 * k) = 0"
proof -
  let ?q = "0xC0106000 + 4 * k"
  have q: "4 dvd ?q" "?q < 2 ^ 32" using layout_page [OF sample_layout assms(2)] .
  have "word_at (kmem booted) ?q = kernel_word 0xC0104000 0xC0106000 256 (kmem boot_state) ?q"
    using setup_kernel_directory_words [OF sample_layout _ q, of boot_state]
    by (simp add: booted_def swap_dir_def boot_state_def)
  also have "\<dots> = word_at (kmem boot_state) ?q" using assms by (simp add: kernel_word_def)
  also have "\<dots> = 0" using boot_words [OF q] by simp
  finally show ?thesis .
qed

lemma free_slotI: "LOW_FRAMES \<le> k \<Longrightarrow> k < 0x40000 \<Longrightarrow> word_at m (T + 4 * k) = 0 \<Longrightarrow> free_slot T m \<noteq> None"
  unfolding free_slot_def find_None_iff set_upt by (metis atLeastLessThan_iff)

lemma booted_slot: "free_slot 0xC0106000 (kmem booted) \<noteq> None"
  by (rule free_slotI [of LOW_FRAMES], simp, simp, rule booted_slot_word) simp_all

lemma booted_slot_kept:
  assumes "kmap 0x40000000 booted = (va, s1)"
  shows "free_slot 0xC0106000 (kmem s1) \<noteq> None"
proof -
  have high: "KERN_IDENTITY_PHYS_END \<le> 0x40000000" by (simp add: identity_end)
  obtain k where k: "LOW_FRAMES \<le> k" "k < 0x40000"
    "s1 = booted\<lparr>kmem := store32 (kmem booted) (of_nat (0xC0106000 + 4 * k)) (slot_word 0x40000000)\<rparr>"
    using kmap_slot [OF booted_mapped booted_slot high assms] by blast
  define j where "j = (if k = LOW_FRAMES then Suc LOW_FRAMES else LOW_FRAMES)"
  have j: "LOW_FRAMES \<le> j" "j < 0x40000" "j \<noteq> k" by (auto simp: j_def)
  have "word_at (kmem s1) (0xC0106000 + 4 * j) = 0"
    unfolding k(3) using j word_at_slot [OF sample_layout k(2) layout_page [OF sample_layout j(2)]]
    by (simp add: booted_slot_word del: of_nat_add)
  with j(1,2) show ?thesis by (rule free_slotI)
qed

section \<open>Properties\<close>

text \<open>
  C7: \<^verbatim>\<open>paging_init\<close>, given the Multiboot magic number and a memory map, returns with the kernel's
  directory loaded: every address of the kernel window below \<open>0xF8000000\<close> translates to the
  physical address \<^verbatim>\<open>KV2P\<close> names, all 256 tables are in place, the page fault handler is
  installed and the first 4 MiB of physical memory are reserved.
\<close>

theorem paging_init_maps_kernel:
  fixes s :: "'a vmm_scheme"
  assumes "kernel_layout D T" "b = 0xC0000000 + unat mbd"
    and "\<forall>q\<in>{b, b + 44, b + 48}. apart D T q"
    and "word_at (kmem s) b AND 0x20 \<noteq> 0" "unat (word_at (kmem s) (b + 44)) \<le> 0xFFFFFFE8"
  shows "\<exists>s'. paging_init (of_nat D) (of_nat T) mbd MULTIBOOT_BOOTLOADER_MAGIC s = Some (Running s') \<and>
    (\<forall>va. 0xC0000000 \<le> va \<and> va < 0xF8000000 \<longrightarrow> translate s' va = Some (KV2P va)) \<and>
    mapped_kernel D T D s' \<and> interrupt_handlers s' 14 = Some Page_fault \<and> (\<forall>f<1024. frame_used s' f)"
proof -
  obtain s' where "paging_init (of_nat D) (of_nat T) mbd MULTIBOOT_BOOTLOADER_MAGIC s = Some (Running s')"
    "mapped_kernel D T D s'" "interrupt_handlers s' 14 = Some Page_fault" "\<forall>f<1024. frame_used s' f"
    using paging_init_ok [OF assms] .
  then show ?thesis using translate_low by blast
qed

theorem paging_init_maps_kernel_witness:
  "\<exists>s'. paging_init 0xC0104000 0xC0106000 0x9000 MULTIBOOT_BOOTLOADER_MAGIC boot_state = Some (Running s') \<and>
    translate s' 0xC00B8000 = Some 0xB8000"
proof -
  have "\<exists>s'. paging_init (of_nat 0xC0104000) (of_nat 0xC0106000) 0x9000 MULTIBOOT_BOOTLOADER_MAGIC boot_state =
      Some (Running s') \<and>
    (\<forall>va. 0xC0000000 \<le> va \<and> va < 0xF8000000 \<longrightarrow> translate s' va = Some (KV2P va)) \<and>
    mapped_kernel 0xC0104000 0xC0106000 0xC0104000 s' \<and> interrupt_handlers s' 14 = Some Page_fault \<and>
    (\<forall>f<1024. frame_used s' f)"
    by (rule paging_init_maps_kernel [of _ _ "0xC0009000" "0x9000"])
      (simp_all add: sample_layout apart_def boot_words)
  then show ?thesis by (auto simp: KV2P_def)
qed

text \<open>
  C8: \<^verbatim>\<open>kmap\<close> of a physical address in high memory, with a free slot in the window: the address
  returned lies in the window, was not mapped before and translates to the physical address
  with its offset, in whatever directory that shares the kernel's tables is loaded; the
  translation of every other kernel address is unchanged.
\<close>

theorem kmap_maps_page:
  assumes "mapped_kernel D T P s" "free_slot T (kmem s) \<noteq> None" "KERN_IDENTITY_PHYS_END \<le> paddr"
    and "kmap paddr s = (va, s')"
  shows "0xF8000000 \<le> va \<and> translate s va = None \<and> translate s' va = Some paddr \<and>
    mapped_kernel D T P s' \<and>
    (\<forall>va'. 0xC0000000 \<le> va' \<and> va' div 0x1000 \<noteq> va div 0x1000 \<longrightarrow> translate s' va' = translate s va')"
proof -
  have "0xF8000000 \<le> va" by (rule kernel_maps.map_window [OF assms])
  then have "0xC0000000 \<le> va" by (rule order.trans [rotated]) simp
  then show ?thesis
    using kernel_maps.map_window [OF assms] kernel_maps.map_fresh [OF assms] kernel_maps.map_tr [OF assms]
      kernel_maps.map_valid [OF assms] kernel_maps.map_frame [OF assms] by blast
qed

theorem kmap_maps_page_witness:
  "\<exists>va s'. kmap 0x40000123 booted = (va, s') \<and> translate booted va = None \<and> translate s' va = Some 0x40000123"
proof -
  obtain va s' where k: "kmap 0x40000123 booted = (va, s')" by (cases "kmap 0x40000123 booted")
  have "KERN_IDENTITY_PHYS_END \<le> 0x40000123" by (simp add: identity_end)
  from kmap_maps_page [OF booted_mapped booted_slot this k] k show ?thesis by blast
qed

text \<open>
  C9: two pages mapped with \<^verbatim>\<open>kmap\<close> are reachable at the same time at different page addresses,
  and unmapping them in the reverse order gives back exactly the state before.
\<close>

theorem kmap_kunmap_nested:
  assumes "mapped_kernel D T P s" "free_slot T (kmem s) \<noteq> None" "KERN_IDENTITY_PHYS_END \<le> p" "kmap p s = (va, s1)"
    and "free_slot T (kmem s1) \<noteq> None" "KERN_IDENTITY_PHYS_END \<le> q" "kmap q s1 = (vb, s2)"
  shows "va div 0x1000 \<noteq> vb div 0x1000 \<and> translate s2 va = Some p \<and> translate s2 vb = Some q \<and>
    kunmap va (kunmap vb s2) = s"
  using kernel_maps.two_mappings [OF assms] .

theorem kmap_kunmap_nested_witness:
  "\<exists>va vb s1 s2. kmap 0x40000000 booted = (va, s1) \<and> kmap 0x40001000 s1 = (vb, s2) \<and>
    translate s2 va = Some 0x40000000 \<and> translate s2 vb = Some 0x40001000 \<and> kunmap va (kunmap vb s2) = booted"
proof -
  obtain va s1 where 1: "kmap 0x40000000 booted = (va, s1)" by (cases "kmap 0x40000000 booted")
  obtain vb s2 where 2: "kmap 0x40001000 s1 = (vb, s2)" by (cases "kmap 0x40001000 s1")
  have high: "KERN_IDENTITY_PHYS_END \<le> 0x40000000" "KERN_IDENTITY_PHYS_END \<le> 0x40001000"
    by (simp_all add: identity_end)
  have "free_slot 0xC0106000 (kmem s1) \<noteq> None" using booted_slot_kept [OF 1] .
  from kmap_kunmap_nested [OF booted_mapped booted_slot high(1) 1 this high(2) 2] 1 2 show ?thesis by blast
qed

text \<open>
  C10: \<^verbatim>\<open>kmap\<close> of a physical address below 896 MiB changes nothing and returns its address in the
  kernel window; \<^verbatim>\<open>kunmap\<close> of that address then clears the permanent mapping, so the page can
  no longer be reached, although the header says that only the high window is touched.
\<close>

theorem kunmap_lowmem_unmaps:
  assumes "mapped_kernel D T D s" "paddr \<noteq> 0" "paddr < KERN_IDENTITY_PHYS_END"
  shows "kmap paddr s = (KP2V paddr, s) \<and> translate s (KP2V paddr) = Some paddr \<and>
    translate (kunmap (KP2V paddr) s) (KP2V paddr) = None"
proof -
  have p: "unat paddr < 0x38000000" using assms(3) by (simp add: identity_end word_less_nat_alt)
  then have u: "unat (KP2V paddr) = 0xC0000000 + unat paddr"
    unfolding KP2V_def by (subst unat_add_u32) simp_all
  then have va: "0xC0000000 \<le> unat (KP2V paddr)" "KP2V paddr < 0xF8000000" "0xC0000000 \<le> KP2V paddr"
    using p by (simp_all add: word_less_nat_alt word_le_nat_alt)
  have "kunmap (KP2V paddr) s = s\<lparr>kmem := store32 (kmem s) (of_nat (T + 4 * window_page (KP2V paddr))) 0\<rparr>"
    using assms(1) va(1) by (intro kunmap_slot) (auto simp: mapped_kernel_def)
  moreover have "translate (s\<lparr>kmem := store32 (kmem s) (of_nat (T + 4 * window_page (KP2V paddr))) 0\<rparr>) (KP2V paddr) = None"
    using translate_slot [where P = D and T = T and s = s and D = D and k = "window_page (KP2V paddr)"
        and va = "KP2V paddr" and v = 0] assms(1) va(1) window_page_less
    by (simp add: mapped_kernel_def kernel_paging_def entry_present_def)
  moreover have "translate s (KP2V paddr) = Some paddr"
    using translate_low [OF assms(1) va(3,2)] by (simp add: KV2P_def KP2V_def)
  ultimately show ?thesis using assms(2,3) by (simp add: kmap_def)
qed

theorem kunmap_lowmem_unmaps_witness:
  "translate booted 0xC00B8000 = Some 0xB8000 \<and> translate (kunmap 0xC00B8000 booted) 0xC00B8000 = None"
  using kunmap_lowmem_unmaps [OF booted_mapped, where paddr = "0xB8000"] by (simp add: identity_end KP2V_def)

end
