(* ===== verification/Machine.thy ===== *)
theory Machine
  imports Paging
begin

text \<open>
  The processor's descriptor tables and the legacy interrupt controllers:
  \<^verbatim>\<open>src/kernel/kernel/core/gdt.c\<close>, \<^verbatim>\<open>tss.c\<close>, \<^verbatim>\<open>interrupts/idt.c\<close> and the instruction wrappers
  of \<^verbatim>\<open>common.c\<close> they use. Output to a port is recorded in \<open>port_log\<close>, oldest first; \<open>if_flag\<close>
  is the interrupt flag; \<open>gdtr\<close>, \<open>idtr\<close> and \<open>tr\<close> are what the assembly stubs load. The
  addresses of the tables, of the initial kernel stack and of the interrupt stubs are
  parameters: the linker chooses them.
\<close>

section \<open>State\<close>

record gdt_entry =
  limit_low :: u16
  base_low :: u16
  base_middle :: u8
  access :: u8
  granularity :: u8
  base_high :: u8

record gdt_ptr =
  gp_limit :: u16
  gp_base :: u32

record tss_entry =
  prev_tss :: u32
  esp0 :: u32
  ss0 :: u32
  tss_esp1 :: u32
  tss_ss1 :: u32
  tss_esp2 :: u32
  tss_ss2 :: u32
  tss_cr3 :: u32
  tss_eip :: u32
  tss_eflags :: u32
  tss_eax :: u32
  tss_ecx :: u32
  tss_edx :: u32
  tss_ebx :: u32
  tss_esp :: u32
  tss_ebp :: u32
  tss_esi :: u32
  tss_edi :: u32
  tss_es :: u16
  tss_cs :: u16
  tss_ss :: u16
  tss_ds :: u16
  tss_fs :: u16
  tss_gs :: u16
  tss_ldt :: u16
  tss_trap :: u16
  iomap_base :: u16

text \<open>The packed structure has eighteen 32-bit and nine 16-bit members.\<close>

definition sizeof_tss_entry :: nat where "sizeof_tss_entry = 18 * 4 + 9 * 2"

record idt_entry =
  ie_base_low :: u16
  ie_selector :: u16
  ie_reserved :: u8
  ie_flags :: u8
  ie_base_high :: u16

record idt_ptr =
  ip_size :: u16
  ip_offset :: u32

record machine = vmm +
  port_log :: "(u16 \<times> u8) list"
  if_flag :: bool
  gdt_entries :: "u32 \<Rightarrow> gdt_entry"
  m_gdt_ptr :: gdt_ptr
  gdtr :: "gdt_ptr option"
  tss :: tss_entry
  tr :: u16
  idt_entries :: "u8 \<Rightarrow> idt_entry"
  m_idt_ptr :: idt_ptr
  idtr :: "idt_ptr option"

section \<open>Instructions\<close>

definition outb :: "u16 \<Rightarrow> u8 \<Rightarrow> 'a machine_scheme \<Rightarrow> 'a machine_scheme" where
  "outb port value s = s\<lparr>port_log := port_log s @ [(port, value)]\<rparr>"

definition cli :: "'a machine_scheme \<Rightarrow> 'a machine_scheme" where
  "cli s = s\<lparr>if_flag := False\<rparr>"

definition sti :: "'a machine_scheme \<Rightarrow> 'a machine_scheme" where
  "sti s = s\<lparr>if_flag := True\<rparr>"

definition gdt_flush :: "gdt_ptr \<Rightarrow> 'a machine_scheme \<Rightarrow> 'a machine_scheme" where
  "gdt_flush p s = s\<lparr>gdtr := Some p\<rparr>"

definition tss_flush :: "u16 \<Rightarrow> 'a machine_scheme \<Rightarrow> 'a machine_scheme" where
  "tss_flush selector s = s\<lparr>tr := selector\<rparr>"

definition idt_flush :: "idt_ptr \<Rightarrow> 'a machine_scheme \<Rightarrow> 'a machine_scheme" where
  "idt_flush p s = s\<lparr>idtr := Some p\<rparr>"

section \<open>Segments and the task state\<close>

definition gdt_set_gate ::
    "u32 \<Rightarrow> u32 \<Rightarrow> u32 \<Rightarrow> u8 \<Rightarrow> u8 \<Rightarrow> 'a machine_scheme \<Rightarrow> 'a machine_scheme" where
  "gdt_set_gate index base limit acc flags s =
     s\<lparr>gdt_entries := (gdt_entries s)(index :=
       \<lparr>limit_low = ucast (limit AND 0xFFFF),
        base_low = ucast (base AND 0xFFFF),
        base_middle = ucast (drop_bit 16 base AND 0xFF),
        access = acc,
        granularity = (flags AND 0xF0) OR ucast (drop_bit 16 limit AND 0xF),
        base_high = ucast (drop_bit 24 base AND 0xFF)\<rparr>)\<rparr>"

definition tss_set_kernel_stack :: "u32 \<Rightarrow> 'a machine_scheme \<Rightarrow> 'a machine_scheme" where
  "tss_set_kernel_stack kstack_top s = s\<lparr>tss := (tss s)\<lparr>esp0 := kstack_top\<rparr>\<rparr>"

definition zero_tss :: tss_entry where
  "zero_tss = \<lparr>prev_tss = 0, esp0 = 0, ss0 = 0, tss_esp1 = 0, tss_ss1 = 0, tss_esp2 = 0, tss_ss2 = 0,
     tss_cr3 = 0, tss_eip = 0, tss_eflags = 0, tss_eax = 0, tss_ecx = 0, tss_edx = 0, tss_ebx = 0,
     tss_esp = 0, tss_ebp = 0, tss_esi = 0, tss_edi = 0, tss_es = 0, tss_cs = 0, tss_ss = 0,
     tss_ds = 0, tss_fs = 0, tss_gs = 0, tss_ldt = 0, tss_trap = 0, iomap_base = 0\<rparr>"

text \<open>\<open>tss_addr\<close> is \<^verbatim>\<open>&tss\<close>, \<open>kstack\<close> is \<^verbatim>\<open>initial_kstack\<close>, of 8192 bytes.\<close>

definition tss_init :: "u32 \<Rightarrow> u32 \<Rightarrow> 'a machine_scheme \<Rightarrow> 'a machine_scheme" where
  "tss_init tss_addr kstack s =
     (let s = s\<lparr>tss := zero_tss\<rparr>;
          s = s\<lparr>tss := (tss s)\<lparr>ss0 := 0x10\<rparr>\<rparr>;
          s = s\<lparr>tss := (tss s)\<lparr>esp0 := kstack + 8192\<rparr>\<rparr>;
          s = s\<lparr>tss := (tss s)\<lparr>iomap_base := of_nat sizeof_tss_entry\<rparr>\<rparr>;
          s = gdt_set_gate 5 tss_addr (of_nat sizeof_tss_entry - 1) 0x89 0x00 s
      in tss_flush 0x28 s)"

text \<open>\<open>gdt_addr\<close> is \<^verbatim>\<open>&gdt_entries\<close>; an entry has 8 bytes.\<close>

definition gdt_init :: "u32 \<Rightarrow> u32 \<Rightarrow> u32 \<Rightarrow> 'a machine_scheme \<Rightarrow> 'a machine_scheme" where
  "gdt_init gdt_addr tss_addr kstack s =
     (let s = s\<lparr>m_gdt_ptr := \<lparr>gp_limit = 8 * 6 - 1, gp_base = gdt_addr\<rparr>\<rparr>;
          s = gdt_set_gate 0 0 0 0 0 s;
          s = gdt_set_gate 1 0 0xFFFFFF 0b10011010 0b11001111 s;
          s = gdt_set_gate 2 0 0xFFFFFF 0b10010010 0b11001111 s;
          s = gdt_set_gate 3 0 0xFFFFFF 0b11111010 0b11001111 s;
          s = gdt_set_gate 4 0 0xFFFFFF 0b11110010 0b11001111 s;
          s = gdt_flush (m_gdt_ptr s) s
      in tss_init tss_addr kstack s)"

section \<open>Interrupt gates\<close>

definition irq_remap :: "'a machine_scheme \<Rightarrow> 'a machine_scheme" where
  "irq_remap s =
     (let s = outb 0x20 0x11 s; s = outb 0xA0 0x11 s;
          s = outb 0x21 0x20 s; s = outb 0xA1 0x28 s;
          s = outb 0x21 0x04 s; s = outb 0xA1 0x02 s;
          s = outb 0x21 0x01 s; s = outb 0xA1 0x01 s;
          s = outb 0x21 0x0 s
      in outb 0xA1 0x0 s)"

definition idt_set_gate :: "u8 \<Rightarrow> u32 \<Rightarrow> u16 \<Rightarrow> u8 \<Rightarrow> 'a machine_scheme \<Rightarrow> 'a machine_scheme" where
  "idt_set_gate index base selector flags s =
     s\<lparr>idt_entries := (idt_entries s)(index :=
       \<lparr>ie_base_low = ucast (base AND 0xFFFF), ie_selector = selector, ie_reserved = 0,
        ie_flags = flags, ie_base_high = ucast (drop_bit 16 base AND 0xFFFF)\<rparr>)\<rparr>"

text \<open>
  \<open>stub n\<close> is the address of the assembly stub for vector \<open>n\<close>: \<^verbatim>\<open>isr0\<close> to \<^verbatim>\<open>isr31\<close>, \<^verbatim>\<open>irq0\<close> to
  \<^verbatim>\<open>irq15\<close> for 32 to 47, \<^verbatim>\<open>isr128\<close>. The 48 calls for the vectors from 0 on differ in the vector
  only.
\<close>

definition idt_set_gates :: "(nat \<Rightarrow> u32) \<Rightarrow> 'a machine_scheme \<Rightarrow> 'a machine_scheme" where
  "idt_set_gates stub s =
     idt_set_gate 128 (stub 128) 0x08 0b11101110
       (fold (\<lambda>n. idt_set_gate (of_nat n) (stub n) 0x08 0b10001110) [0..<48] s)"

definition idt_init :: "u32 \<Rightarrow> (nat \<Rightarrow> u32) \<Rightarrow> 'a machine_scheme \<Rightarrow> 'a machine_scheme" where
  "idt_init idt_addr stub s =
     (let s = s\<lparr>m_idt_ptr := \<lparr>ip_size = 8 * 256 - 1, ip_offset = idt_addr\<rparr>\<rparr>;
          s = s\<lparr>idt_entries := (\<lambda>_. \<lparr>ie_base_low = 0, ie_selector = 0, ie_reserved = 0, ie_flags = 0, ie_base_high = 0\<rparr>)\<rparr>;
          s = irq_remap s;
          s = idt_set_gates stub s
      in idt_flush (m_idt_ptr s) s)"

section \<open>What the processor reads from a descriptor\<close>

definition seg_base :: "gdt_entry \<Rightarrow> u32" where
  "seg_base e = ucast (base_low e) OR push_bit 16 (ucast (base_middle e)) OR push_bit 24 (ucast (base_high e))"

definition seg_limit :: "gdt_entry \<Rightarrow> u32" where
  "seg_limit e = ucast (limit_low e) OR push_bit 16 (ucast (granularity e AND 0xF))"

definition seg_dpl :: "gdt_entry \<Rightarrow> u8" where
  "seg_dpl e = drop_bit 5 (access e) AND 3"

definition seg_pages :: "gdt_entry \<Rightarrow> bool" where
  "seg_pages e = bit (granularity e) 7"

text \<open>The number of bytes of a segment, with its granularity.\<close>

definition seg_size :: "gdt_entry \<Rightarrow> nat" where
  "seg_size e = (unat (seg_limit e) + 1) * (if seg_pages e then 4096 else 1)"

definition gate_offset :: "idt_entry \<Rightarrow> u32" where
  "gate_offset e = ucast (ie_base_low e) OR push_bit 16 (ucast (ie_base_high e))"

definition gate_present :: "idt_entry \<Rightarrow> bool" where
  "gate_present e = bit (ie_flags e) 7"

definition gate_dpl :: "idt_entry \<Rightarrow> u8" where
  "gate_dpl e = drop_bit 5 (ie_flags e) AND 3"

lemma and_masks:
  "w AND 0xFFFF = take_bit 16 (w :: u32)" "w AND 0xFF = take_bit 8 (w :: u32)" "w AND 0xF = take_bit 4 (w :: u32)"
  "v AND 0xF = take_bit 4 (v :: u8)" "v AND 3 = take_bit 2 (v :: u8)"
  by (simp_all add: take_bit_eq_mask mask_eq_exp_minus_1)

lemma bit_0xF0: "bit (0xF0 :: u8) n = (4 \<le> n \<and> n < 8)"
proof -
  have "(0xF0 :: u8) = push_bit 4 (mask 4)" by (simp add: push_bit_eq_mult mask_eq_exp_minus_1)
  moreover have "bit (push_bit 4 (mask 4) :: u8) n = (4 \<le> n \<and> n < 8)" by (auto simp: bit_simps)
  ultimately show ?thesis by (simp only:)
qed

lemmas descriptor_bits = gdt_set_gate_def idt_set_gate_def and_masks bit_simps bit_0xF0

lemma seg_base_gate [simp]: "seg_base (gdt_entries (gdt_set_gate i base limit acc flags s) i) = base"
proof (rule bit_word_eqI)
  fix n :: nat
  assume "n < LENGTH(32)"
  then consider "n < 16" | "16 \<le> n" "n < 24" | "24 \<le> n" "n < 32" by fastforce
  then show "bit (seg_base (gdt_entries (gdt_set_gate i base limit acc flags s) i)) n = bit base n"
    by cases (auto simp: seg_base_def descriptor_bits dest: bit_imp_le_length)
qed

lemma seg_limit_gate [simp]: "seg_limit (gdt_entries (gdt_set_gate i base limit acc flags s) i) = take_bit 20 limit"
  by (rule bit_word_eqI) (auto simp: seg_limit_def descriptor_bits dest: bit_imp_le_length)

lemma seg_flags_gate [simp]:
  "access (gdt_entries (gdt_set_gate i base limit acc flags s) i) = acc"
  "seg_pages (gdt_entries (gdt_set_gate i base limit acc flags s) i) = bit flags 7"
  by (simp_all add: seg_pages_def descriptor_bits)

lemma gdt_other [simp]: "j \<noteq> i \<Longrightarrow> gdt_entries (gdt_set_gate i base limit acc flags s) j = gdt_entries s j"
  by (simp add: gdt_set_gate_def)

lemma gate_offset_gate [simp]: "gate_offset (idt_entries (idt_set_gate i base sel flags s) i) = base"
  by (rule bit_word_eqI) (auto simp: gate_offset_def descriptor_bits dest: bit_imp_le_length)

lemma idt_flags_gate [simp]:
  "ie_flags (idt_entries (idt_set_gate i base sel flags s) i) = flags"
  "ie_selector (idt_entries (idt_set_gate i base sel flags s) i) = sel"
  by (simp_all add: idt_set_gate_def)

lemma idt_other [simp]: "j \<noteq> i \<Longrightarrow> idt_entries (idt_set_gate i base sel flags s) j = idt_entries s j"
  by (simp add: idt_set_gate_def)

lemma idt_set_gates_low:
  assumes "n \<le> 48"
  shows "idt_entries (fold (\<lambda>n. idt_set_gate (of_nat n) (stub n) sel flags) [0..<n] s) v =
    (if unat v < n then idt_entries (idt_set_gate v (stub (unat v)) sel flags s) v else idt_entries s v)"
  using assms
proof (induction n)
  case (Suc n)
  let ?s = "fold (\<lambda>n. idt_set_gate (of_nat n) (stub n) sel flags) [0..<n] s"
  have n: "unat (of_nat n :: u8) = n" using Suc.prems by (simp add: unat_of_nat)
  show ?case
  proof (cases "v = of_nat n")
    case True
    then show ?thesis using n by (simp add: idt_set_gate_def)
  next
    case False
    then have "unat v \<noteq> n" using n by (metis unsigned_word_eqI)
    then show ?thesis using False Suc by (auto simp: less_Suc_eq)
  qed
qed simp

section \<open>Properties\<close>

text \<open>
  After \<^verbatim>\<open>gdt_init\<close> segments 1 to 4 are flat, each covers exactly the 4 GiB address space, 1 and
  2 are for ring 0 and 3 and 4 for ring 3; segment 5 is the task state segment at its address,
  loaded in the task register; its ring 0 stack is the top of the initial kernel stack, and the
  loaded table has exactly six entries.
\<close>

theorem gdt_init_flat:
  "let g = gdt_init gdt_addr tss_addr kstack s in
    map (\<lambda>i. (seg_base (gdt_entries g i), seg_size (gdt_entries g i))) [1, 2, 3, 4] =
      [(0, 2 ^ 32), (0, 2 ^ 32), (0, 2 ^ 32), (0, 2 ^ 32)] \<and>
    map (\<lambda>i. seg_dpl (gdt_entries g i)) [1, 2, 3, 4, 5] = [0, 0, 3, 3, 0] \<and>
    seg_base (gdt_entries g 5) = tss_addr \<and> seg_size (gdt_entries g 5) = sizeof_tss_entry \<and>
    tr g = 8 * 5 \<and> ss0 (tss g) = 8 * 2 \<and> esp0 (tss g) = kstack + 8192 \<and>
    gdtr g = Some \<lparr>gp_limit = 8 * 6 - 1, gp_base = gdt_addr\<rparr>"
proof -
  define g where "g = gdt_init gdt_addr tss_addr kstack s"
  have e: "gdt_entries g i = gdt_entries (gdt_set_gate i (if i = 5 then tss_addr else 0)
      (if i = 5 then 89 else 0xFFFFFF)
      (if i = 1 then 0b10011010 else if i = 2 then 0b10010010 else if i = 3 then 0b11111010
       else if i = 4 then 0b11110010 else 0x89) (if i = 5 then 0 else 0b11001111) s) i"
    if "i \<in> {1, 2, 3, 4, 5}" for i
    using that by (auto simp: g_def gdt_init_def tss_init_def Let_def gdt_set_gate_def gdt_flush_def
        tss_flush_def sizeof_tss_entry_def)
  have lim: "unat (take_bit 20 (0xFFFFFF :: u32)) = 0xFFFFF" "unat (take_bit 20 (89 :: u32)) = 89"
    by (simp_all add: take_bit_eq_mod)
  show ?thesis unfolding g_def [symmetric] Let_def
    by (simp add: e seg_size_def lim seg_dpl_def sizeof_tss_entry_def)
       (simp add: g_def gdt_init_def tss_init_def Let_def gdt_set_gate_def gdt_flush_def tss_flush_def
        zero_tss_def)
qed

text \<open>
  C24: after \<^verbatim>\<open>idt_init\<close> exactly the vectors 0 to 47 and 128 have a gate; each leads to its own stub
  in the kernel code segment, and vector 128, the system call, is the only one that user code
  may raise with an \<^verbatim>\<open>int\<close> instruction.
\<close>

theorem idt_init_gates:
  "let g = idt_init idt_addr stub s in
    (\<forall>v. if unat v < 48 \<or> v = 128
         then gate_present (idt_entries g v) \<and> gate_offset (idt_entries g v) = stub (unat v) \<and>
           ie_selector (idt_entries g v) = 8 * 1 \<and> (gate_dpl (idt_entries g v) = 3) = (v = 128)
         else \<not> gate_present (idt_entries g v)) \<and>
    idtr g = Some \<lparr>ip_size = 8 * 256 - 1, ip_offset = idt_addr\<rparr>"
proof -
  define g where "g = idt_init idt_addr stub s"
  let ?z = "\<lparr>ie_base_low = 0, ie_selector = 0, ie_reserved = 0, ie_flags = 0, ie_base_high = 0\<rparr> :: idt_entry"
  have e: "idt_entries g v =
      (if v = 128 then idt_entries (idt_set_gate v (stub 128) 8 0b11101110 s) v
       else if unat v < 48 then idt_entries (idt_set_gate v (stub (unat v)) 8 0b10001110 s) v else ?z)" for v
    by (simp add: g_def idt_init_def Let_def idt_set_gates_def idt_flush_def idt_set_gates_low irq_remap_def outb_def)
       (simp add: idt_set_gate_def)
  have "idtr g = Some \<lparr>ip_size = 8 * 256 - 1, ip_offset = idt_addr\<rparr>"
    by (simp add: g_def idt_init_def Let_def idt_set_gates_def idt_flush_def irq_remap_def outb_def
        fold_frame [where g = m_idt_ptr] idt_set_gate_def)
  then show ?thesis unfolding g_def [symmetric] Let_def
    by (simp add: e gate_present_def gate_dpl_def)
qed

end
