(* ===== verification/Proc.thy ===== *)
theory Proc
  imports Machine
begin

text \<open>
  Processes: \<^verbatim>\<open>src/kernel/kernel/proc/proc.c\<close>. A \<^verbatim>\<open>proc_t\<close> lies in kernel heap memory as the
  compiler lays it out, so a process is a pointer, a field is a word at a fixed distance from
  it, and fields that are not set hold whatever the heap block held. An interrupt frame
  \<^verbatim>\<open>int_regs_t\<close> is a value that a handler takes and returns.

  An operation returns \<open>None\<close> when the code does not return (\<open>alloc_pages\<close> can loop) or has no
  defined behaviour (a page fault on a pointer the code does not check).
\<close>

section \<open>State\<close>

datatype procstate = PROC_UNUSED | PROC_SETUP | PROC_RUNNING | PROC_BLOCKED | PROC_DESTROY

primrec procstate_val :: "procstate \<Rightarrow> u32" where
  "procstate_val PROC_UNUSED = 0"
| "procstate_val PROC_SETUP = 1"
| "procstate_val PROC_RUNNING = 2"
| "procstate_val PROC_BLOCKED = 3"
| "procstate_val PROC_DESTROY = 4"

datatype procpriority = PROC_PRIORITY_LOW | PROC_PRIORITY_NORMAL | PROC_PRIORITY_HIGH

primrec procpriority_val :: "procpriority \<Rightarrow> u32" where
  "procpriority_val PROC_PRIORITY_LOW = 0"
| "procpriority_val PROC_PRIORITY_NORMAL = 1"
| "procpriority_val PROC_PRIORITY_HIGH = 2"

text \<open>The members of \<^verbatim>\<open>struct proc\<close>; \<^verbatim>\<open>context\<close> takes 13 words from offset 8 on.\<close>

definition off_pid :: u32 where "off_pid = 0"
definition off_page_directory :: u32 where "off_page_directory = 4"
definition off_context :: u32 where "off_context = 8"
definition off_procstate :: u32 where "off_procstate = 60"
definition off_priority :: u32 where "off_priority = 64"
definition off_brk :: u32 where "off_brk = 68"
definition off_heap_start :: u32 where "off_heap_start = 72"
definition off_stack_top :: u32 where "off_stack_top = 76"
definition off_stack_size :: u32 where "off_stack_size = 80"
definition off_kstack_top :: u32 where "off_kstack_top = 84"
definition off_kstack_size :: u32 where "off_kstack_size = 88"
definition off_kstack_base :: u32 where "off_kstack_base = 92"
definition off_cr3 :: u32 where "off_cr3 = 96"
definition off_run_next :: u32 where "off_run_next = 100"
definition sizeof_proc :: u32 where "sizeof_proc = 104"

text \<open>The members of \<^verbatim>\<open>struct context\<close>.\<close>

definition ctx_edi :: u32 where "ctx_edi = 0"
definition ctx_esi :: u32 where "ctx_esi = 4"
definition ctx_ebp :: u32 where "ctx_ebp = 8"
definition ctx_esp :: u32 where "ctx_esp = 12"
definition ctx_ebx :: u32 where "ctx_ebx = 16"
definition ctx_edx :: u32 where "ctx_edx = 20"
definition ctx_ecx :: u32 where "ctx_ecx = 24"
definition ctx_eax :: u32 where "ctx_eax = 28"
definition ctx_eip :: u32 where "ctx_eip = 32"
definition ctx_cs :: u32 where "ctx_cs = 36"
definition ctx_eflags :: u32 where "ctx_eflags = 40"
definition ctx_useresp :: u32 where "ctx_useresp = 44"
definition ctx_ss :: u32 where "ctx_ss = 48"

definition MAXPROC :: nat where "MAXPROC = 64"

definition PROC_STACK_TOP :: u32 where "PROC_STACK_TOP = 0xBFFFFFF0"

record procs = machine +
  pid_ctr :: u32
  current_proc :: u32
  proc_list :: "u32 list"

definition getf :: "u32 \<Rightarrow> u32 \<Rightarrow> 'a kmm_scheme \<Rightarrow> u32" where
  "getf p off s = load32 (kmem s) (p + off)"

definition setf :: "u32 \<Rightarrow> u32 \<Rightarrow> u32 \<Rightarrow> 'a kmm_scheme \<Rightarrow> 'a kmm_scheme" where
  "setf p off v s = s\<lparr>kmem := store32 (kmem s) (p + off) v\<rparr>"

section \<open>Initialisation\<close>

definition proc_init :: "'a procs_scheme \<Rightarrow> 'a procs_scheme" where
  "proc_init s = s\<lparr>proc_list := fold (\<lambda>i l. l[i := 0]) [0..<MAXPROC] (proc_list s), current_proc := 0\<rparr>"

definition kernel_proc_init :: "'a procs_scheme \<Rightarrow> 'a procs_scheme option" where
  "kernel_proc_init s =
     do {
       (kernel_proc, s) \<leftarrow> kmalloc sizeof_proc s;
       if kernel_proc = 0 then None
       else do {
         let s = setf kernel_proc off_pid (pid_ctr s) s;
         let s = s\<lparr>pid_ctr := pid_ctr s + 1\<rparr>;
         let s = setf kernel_proc off_procstate (procstate_val PROC_RUNNING) s;
         let s = setf kernel_proc off_priority (procpriority_val PROC_PRIORITY_HIGH) s;
         let s = setf kernel_proc off_page_directory (kernel_directory s) s;
         let s = setf kernel_proc off_brk 0 s;
         let s = setf kernel_proc off_heap_start 0 s;
         let s = setf kernel_proc off_stack_top 0 s;
         let s = setf kernel_proc off_stack_size 0 s;
         let i = unat (getf kernel_proc off_pid s);
         if i < MAXPROC
         then Some (s\<lparr>proc_list := (proc_list s)[i := kernel_proc], current_proc := kernel_proc\<rparr>)
         else None
       }
     }"

section \<open>User mappings\<close>

text \<open>
  One iteration of \<^verbatim>\<open>proc_map_pages\<close>: the page table of the address, allocated and cleared when
  the directory has none, or \<open>None\<close> of the inner option for the two failures that return -1.
\<close>

definition map_table :: "u32 \<Rightarrow> u32 \<Rightarrow> bool \<Rightarrow> 'a vmm_scheme \<Rightarrow> (u32 option \<times> 'a vmm_scheme) option" where
  "map_table dir pd_idx writable s =
     (let entry = dir_entry dir pd_idx;
          table = load32 (kmem s) (dir_table dir pd_idx)
      in if \<not> entry_present (load32 (kmem s) entry)
         then do {
           (table_phys, s) \<leftarrow> alloc_pages PMM_FLAGS_DEFAULT 1 s;
           if table_phys = 0
           then Some (None, kprint (''proc_map_pages: failed to allocate page table'' @ nl) [] s)
           else do {
             let table = KP2V table_phys;
             let s = s\<lparr>kmem := memset table 0 4096 (kmem s)\<rparr>;
             let s = upd_word (dir_table dir pd_idx) (\<lambda>_. table) s;
             let s = upd_word entry (with_bit 0 True) s;
             let s = upd_word entry (with_bit 1 True) s;
             let s = upd_word entry (with_bit 2 True) s;
             let s = upd_word entry (with_frame (PAGE_FRAME table_phys)) s;
             Some (Some table, s)
           }
         }
         else if table = 0
         then Some (None, kprint (''proc_map_pages: PDE present without table pointer'' @ nl) [] s)
         else let s = if writable then upd_word entry (with_bit 1 True) s else s;
                  s = upd_word entry (with_bit 2 True) s
              in Some (Some table, s))"

definition map_page :: "u32 \<Rightarrow> u32 \<Rightarrow> u32 \<Rightarrow> bool \<Rightarrow> 'a vmm_scheme \<Rightarrow> (bool \<times> 'a vmm_scheme) option" where
  "map_page dir virt_addr phys_addr writable s =
     do {
       (table, s) \<leftarrow> map_table dir (PAGE_DIR_IDX virt_addr) writable s;
       Some (case table of
           None \<Rightarrow> (False, s)
         | Some table \<Rightarrow> (True, set_page (table_page table (PAGE_TBL_IDX virt_addr)) (PAGE_FRAME phys_addr) True writable True s))
     }"

fun map_loop :: "u32 \<Rightarrow> u32 \<Rightarrow> u32 \<Rightarrow> bool \<Rightarrow> nat list \<Rightarrow> 'a vmm_scheme \<Rightarrow> (bool \<times> 'a vmm_scheme) option" where
  "map_loop dir virt phys writable [] s = Some (True, s)"
| "map_loop dir virt phys writable (i # is) s =
     do {
       (ok, s) \<leftarrow> map_page dir (virt + of_nat i * PAGE_SIZE) (phys + of_nat i * PAGE_SIZE) writable s;
       if ok then map_loop dir virt phys writable is s else Some (False, s)
     }"

definition proc_map_pages ::
    "u32 \<Rightarrow> u32 \<Rightarrow> u32 \<Rightarrow> u32 \<Rightarrow> bool \<Rightarrow> 'a vmm_scheme \<Rightarrow> (int \<times> 'a vmm_scheme) option" where
  "proc_map_pages proc virt phys pages writable s =
     (if proc = 0 \<or> getf proc off_page_directory s = 0 \<or> pages = 0 then Some (-1, s)
      else do {
        (ok, s) \<leftarrow> map_loop (getf proc off_page_directory s) virt phys writable [0..<unat pages] s;
        Some (if ok then (0, flush_tlb s) else (-1, s))
      })"

section \<open>Creating a process\<close>

text \<open>The first slot from 1 on that is empty or whose process is unused.\<close>

definition slot_free :: "nat \<Rightarrow> 'a procs_scheme \<Rightarrow> bool" where
  "slot_free i s \<longleftrightarrow> proc_list s ! i = 0 \<or> getf (proc_list s ! i) off_procstate s = procstate_val PROC_UNUSED"

definition find_slot :: "'a procs_scheme \<Rightarrow> nat option" where
  "find_slot s = find (\<lambda>i. slot_free i s) [1..<MAXPROC]"

definition create_context :: "u32 \<Rightarrow> u32 \<Rightarrow> u32 \<Rightarrow> 'a kmm_scheme \<Rightarrow> 'a kmm_scheme" where
  "create_context proc entry stack_top s =
     (let s = setf proc (off_context + ctx_eip) entry s;
          s = setf proc (off_context + ctx_esp) (stack_top - 16) s;
          s = setf proc (off_context + ctx_ebp) (getf proc (off_context + ctx_esp) s) s;
          s = setf proc (off_context + ctx_useresp) (stack_top - 16) s;
          s = setf proc (off_context + ctx_cs) 0x1B s;
          s = setf proc (off_context + ctx_ss) 0x23 s
      in setf proc (off_context + ctx_eflags) 0x202 s)"

definition create_kstack :: "u32 \<Rightarrow> 'a kmm_scheme \<Rightarrow> 'a kmm_scheme option" where
  "create_kstack proc s =
     do {
       let s = setf proc off_kstack_size 8192 s;
       (kstack_base, s) \<leftarrow> kmalloc (getf proc off_kstack_size s) s;
       let s = setf proc off_kstack_base kstack_base s;
       Some (setf proc off_kstack_top (kstack_base + getf proc off_kstack_size s) s)
     }"

definition create_stack :: "u32 \<Rightarrow> u32 \<Rightarrow> 'a vmm_scheme \<Rightarrow> (bool \<times> 'a vmm_scheme) option" where
  "create_stack proc stack_size s =
     (let stack_top = PROC_STACK_TOP;
          stack_bottom = stack_top - stack_size;
          stack_bottom_al = stack_bottom AND 0xFFFFF000;
          stack_top_al = (stack_top + 0xFFF) AND 0xFFFFF000;
          stack_pages = (stack_top_al - stack_bottom_al) div PAGE_SIZE
      in do {
        (stack_phys, s) \<leftarrow> alloc_pages PMM_FLAGS_HIGHMEM stack_pages s;
        let s = setf proc off_stack_top stack_top s;
        let s = setf proc off_stack_size stack_size s;
        if stack_phys = 0
        then Some (False, kprint (''create_proc: failed to allocate stack pages'' @ nl) [] s)
        else do {
          (rc, s) \<leftarrow> proc_map_pages proc stack_bottom_al stack_phys stack_pages True s;
          Some (if rc \<noteq> 0 then (False, kprint (''create_proc: failed to map stack pages'' @ nl) [] s)
                else (True, s))
        }
      })"

definition create_struct :: "procpriority \<Rightarrow> 'a procs_scheme \<Rightarrow> (u32 \<times> 'a procs_scheme) option" where
  "create_struct priority s =
     do {
       (proc, s) \<leftarrow> kmalloc sizeof_proc s;
       if proc = 0 then Some (0, kprint (''create_proc: kmalloc failed for proc_t'' @ nl) [] s)
       else do {
         let s = setf proc off_pid (pid_ctr s) s;
         let s = s\<lparr>pid_ctr := pid_ctr s + 1\<rparr>;
         let s = setf proc off_procstate (procstate_val PROC_SETUP) s;
         Some (proc, setf proc off_priority (procpriority_val priority) s)
       }
     }"

definition create_directory :: "u32 \<Rightarrow> 'a vmm_scheme \<Rightarrow> (bool \<times> 'a vmm_scheme) option" where
  "create_directory proc s =
     do {
       (dir_phys, s) \<leftarrow> alloc_pages PMM_FLAGS_DEFAULT 2 s;
       let s = setf proc off_page_directory (KP2V dir_phys) s;
       if getf proc off_page_directory s = 0
       then do {
         s \<leftarrow> kfree proc (kprint (''create_proc: alloc_pages failed for page directory'' @ nl) [] s);
         Some (False, s)
       }
       else do {
         let s = s\<lparr>kmem := memset (getf proc off_page_directory s) 0 (PAGE_SIZE * 2) (kmem s)\<rparr>;
         s \<leftarrow> clone_page_dir (kernel_directory s) (getf proc off_page_directory s) s;
         Some (True, setf proc off_cr3 (KV2P (getf proc off_page_directory s)) s)
       }
     }"

definition create_enter :: "nat \<Rightarrow> u32 \<Rightarrow> u32 \<Rightarrow> 'a procs_scheme \<Rightarrow> 'a procs_scheme" where
  "create_enter i proc entry s =
     (let s = s\<lparr>proc_list := (proc_list s)[i := proc]\<rparr>;
          s = setf proc off_procstate (procstate_val PROC_RUNNING) s
      in kprint (''Created process with PID %u, entry point at vaddr %x'' @ nl)
           [ArgW (getf proc off_pid s), ArgW entry] s)"

definition create_proc ::
    "u32 \<Rightarrow> u32 \<Rightarrow> u32 \<Rightarrow> u32 \<Rightarrow> procpriority \<Rightarrow> 'a procs_scheme \<Rightarrow> (u32 \<times> 'a procs_scheme) option" where
  "create_proc entry exec_size stack_size heap_size priority s =
     (case find_slot s of
        None \<Rightarrow> Some (0, kprint (''create_proc: Max processes reached'' @ nl) [] s)
      | Some i \<Rightarrow>
          do {
            s \<leftarrow> (if proc_list s ! i \<noteq> 0 then kfree (proc_list s ! i) s else Some s);
            (proc, s) \<leftarrow> create_struct priority s;
            if proc = 0 then Some (0, s)
            else do {
              (ok, s) \<leftarrow> create_directory proc s;
              if \<not> ok then Some (0, s)
              else do {
                (ok, s) \<leftarrow> create_stack proc stack_size s;
                if \<not> ok then Some (0, s)
                else do {
                  let s = create_context proc entry PROC_STACK_TOP s;
                  s \<leftarrow> create_kstack proc s;
                  Some (proc, create_enter i proc entry s)
                }
              }
            }
          })"

section \<open>Contexts\<close>

definition proc_context_from_regs :: "u32 \<Rightarrow> int_regs \<Rightarrow> 'a kmm_scheme \<Rightarrow> 'a kmm_scheme" where
  "proc_context_from_regs dest src s =
     (if dest = 0 then s
      else let s = setf dest ctx_edi (r_edi src) s; s = setf dest ctx_esi (r_esi src) s;
               s = setf dest ctx_ebp (r_ebp src) s; s = setf dest ctx_esp (r_esp src) s;
               s = setf dest ctx_ebx (r_ebx src) s; s = setf dest ctx_edx (r_edx src) s;
               s = setf dest ctx_ecx (r_ecx src) s; s = setf dest ctx_eax (r_eax src) s;
               s = setf dest ctx_eip (r_eip src) s; s = setf dest ctx_eflags (r_eflags src) s;
               s = setf dest ctx_cs (r_cs src) s; s = setf dest ctx_useresp (r_useresp src) s
           in setf dest ctx_ss (r_ss src) s)"

definition proc_context_to_regs :: "int_regs \<Rightarrow> u32 \<Rightarrow> 'a kmm_scheme \<Rightarrow> int_regs" where
  "proc_context_to_regs dest src s =
     (if src = 0 then dest
      else dest\<lparr>r_edi := getf src ctx_edi s, r_esi := getf src ctx_esi s, r_ebp := getf src ctx_ebp s,
                r_esp := getf src ctx_esp s, r_ebx := getf src ctx_ebx s, r_edx := getf src ctx_edx s,
                r_ecx := getf src ctx_ecx s, r_eax := getf src ctx_eax s, r_eip := getf src ctx_eip s,
                r_eflags := getf src ctx_eflags s, r_cs := getf src ctx_cs s,
                r_useresp := getf src ctx_useresp s, r_ss := getf src ctx_ss s\<rparr>)"

text \<open>
  \<^verbatim>\<open>iret_jump_user\<close> pops the last five words of the context into the processor: the instruction
  pointer, the code segment, the flags, the stack pointer and the stack segment of user mode.
\<close>

record user_frame =
  u_eip :: u32
  u_cs :: u32
  u_eflags :: u32
  u_esp :: u32
  u_ss :: u32

definition iret_jump_user :: "u32 \<Rightarrow> 'a kmm_scheme \<Rightarrow> user_frame" where
  "iret_jump_user ctx s =
     \<lparr>u_eip = getf ctx ctx_eip s, u_cs = getf ctx ctx_cs s, u_eflags = getf ctx ctx_eflags s,
      u_esp = getf ctx ctx_useresp s, u_ss = getf ctx ctx_ss s\<rparr>"

text \<open>\<open>flags\<close> is what \<^verbatim>\<open>pushf\<close> reads.\<close>

definition proc_enter :: "u32 \<Rightarrow> u32 \<Rightarrow> 'a procs_scheme \<Rightarrow> user_frame \<times> 'a procs_scheme" where
  "proc_enter flags p s =
     (let s = s\<lparr>current_proc := p\<rparr>;
          s = tss_set_kernel_stack (getf p off_kstack_top s) s;
          s = swap_dir (getf p off_page_directory s) s;
          eflags = flags OR 0x200;
          s = setf p (off_context + ctx_eflags) eflags s
      in (iret_jump_user (p + off_context) s, s))"

end
