(* ===== verification/Proc_Maps.thy ===== *)
theory Proc_Maps
  imports Paging_Props Proc
begin

text \<open>
  Correctness of \<^verbatim>\<open>proc_map_pages\<close>: the invariant of a process directory in memory, the map from
  page numbers to frames that it denotes for user code, and that mapping pages changes exactly
  the pages named.
\<close>

section \<open>Words of frames\<close>

text \<open>Word \<open>k\<close> of frame \<open>f\<close> of low memory: its kernel address and its contents.\<close>

definition fptr :: "nat \<Rightarrow> nat \<Rightarrow> u32" where
  "fptr f k = of_nat (0xC0000000 + 4096 * f + 4 * k)"

definition fword :: "mem \<Rightarrow> nat \<Rightarrow> nat \<Rightarrow> u32" where
  "fword m f k = load32 m (fptr f k)"

lemma fptr_word:
  assumes "f < LOW_FRAMES" "k < 1024"
  shows "4 dvd 0xC0000000 + 4096 * f + 4 * k" "0xC0000000 + 4096 * f + 4 * k < 2 ^ 32"
  using assms by auto

lemma fword_word_at: "fword m f k = word_at m (0xC0000000 + 4096 * f + 4 * k)"
  by (simp add: fword_def fptr_def word_at_def)

lemma frame_word_eq:
  fixes f g k l :: nat
  assumes "k < 1024" "l < 1024"
  shows "4096 * f + 4 * k = 4096 * g + 4 * l \<longleftrightarrow> f = g \<and> k = l"
proof
  assume "4096 * f + 4 * k = 4096 * g + 4 * l"
  then have "k + 1024 * f = l + 1024 * g" by simp
  then have "(k + 1024 * f) div 1024 = (l + 1024 * g) div 1024" "(k + 1024 * f) mod 1024 = (l + 1024 * g) mod 1024"
    by simp_all
  with assms show "f = g \<and> k = l" by simp
qed simp

lemma fword_store:
  assumes "f < LOW_FRAMES" "k < 1024" "g < LOW_FRAMES" "l < 1024"
  shows "fword (store32 m (fptr f k) v) g l = (if g = f \<and> l = k then v else fword m g l)"
  using fptr_word [OF assms(1,2)] fptr_word [OF assms(3,4)] frame_word_eq [OF assms(4,2), of g f]
  by (simp add: fword_word_at fptr_def word_at_store del: of_nat_add of_nat_mult)

lemma unat_diff_range:
  assumes "a < 2 ^ 32" "b + n \<le> 2 ^ 32" "0 < n"
  shows "unat (of_nat a - of_nat b :: u32) < n \<longleftrightarrow> b \<le> a \<and> a < b + n"
proof (cases "b \<le> a")
  case True
  then have "of_nat a - of_nat b = (of_nat (a - b) :: u32)" by (rule of_nat_diff [symmetric])
  moreover have "unat (of_nat (a - b) :: u32) = a - b" using assms(1) by (intro unat_of_nat_u32) simp
  ultimately show ?thesis using True by auto
next
  case False
  then have "of_nat a - of_nat b = (of_nat (2 ^ 32 + a - b) :: u32)" using assms by (simp add: of_nat_diff)
  moreover have "unat (of_nat (2 ^ 32 + a - b) :: u32) = 2 ^ 32 + a - b"
    using False assms by (intro unat_of_nat_u32) simp
  ultimately have "unat (of_nat a - of_nat b :: u32) = 2 ^ 32 + a - b" by (simp only:)
  then show ?thesis using False assms by simp
qed

lemma fword_clear:
  assumes "f < LOW_FRAMES" "g < LOW_FRAMES" "k < 1024"
  shows "fword (memset (fptr f 0) 0 4096 m) g k = (if g = f then 0 else fword m g k)"
proof -
  let ?A = "0xC0000000 + 4096 * f" and ?q = "0xC0000000 + 4096 * g + 4 * k"
  have byte: "memset (fptr f 0) 0 4096 m (of_nat (?q + i)) = (if g = f then 0 else m (of_nat (?q + i)))"
    if "i < 4" for i
  proof -
    have "unat (of_nat (?q + i) - of_nat ?A :: u32) < 4096 \<longleftrightarrow> ?A \<le> ?q + i \<and> ?q + i < ?A + 4096"
      using assms that by (intro unat_diff_range) auto
    also have "\<dots> \<longleftrightarrow> g = f" using assms(3) that by auto
    finally show ?thesis by (simp add: memset_fill block_fill_def fptr_def)
  qed
  from byte [of 0] byte [of 1] byte [of 2] byte [of 3] show ?thesis
    by (simp add: fword_word_at word_at_def load32_def add.commute)
qed

lemma fptr_addr [simp]:
  "dir_entry (fptr p 0) (of_nat i) = fptr p i" "dir_table (fptr p 0) (of_nat i) = fptr (Suc p) i"
  "table_page (fptr p 0) (of_nat i) = fptr p i" "KP2V (frame_addr p) = fptr p 0"
  by (simp_all add: dir_entry_def dir_table_def table_page_def fptr_def KP2V_def frame_addr_def algebra_simps)

lemma fptr_nonzero: "f < LOW_FRAMES \<Longrightarrow> fptr f 0 \<noteq> 0"
  using unat_of_nat_u32 [of "0xC0000000 + 4096 * f"] by (auto simp: fptr_def simp del: of_nat_add of_nat_mult)

lemma load_fptr: "load32 m (fptr f k) = fword m f k"
  by (simp add: fword_def)

text \<open>Memory outside the kernel window is the same.\<close>

definition high_same :: "mem \<Rightarrow> mem \<Rightarrow> bool" where
  "high_same m m' \<longleftrightarrow> (\<forall>w<2 ^ 32. 4 dvd w \<longrightarrow> w < 0xC0000000 \<or> 0xF8000000 \<le> w \<longrightarrow> word_at m' w = word_at m w)"

lemma high_same_refl [simp]: "high_same m m"
  by (simp add: high_same_def)

lemma high_same_trans: "high_same m m' \<Longrightarrow> high_same m' m'' \<Longrightarrow> high_same m m''"
  by (simp add: high_same_def)

lemma high_same_store: "f < LOW_FRAMES \<Longrightarrow> k < 1024 \<Longrightarrow> high_same m (store32 m (fptr f k) v)"
  using fptr_word [of f k] by (auto simp: high_same_def fptr_def word_at_store simp del: of_nat_add of_nat_mult)

lemma high_same_clear:
  assumes "f < LOW_FRAMES"
  shows "high_same m (memset (fptr f 0) 0 4096 m)"
  unfolding high_same_def
proof (intro allI impI)
  fix w :: nat assume w: "w < 2 ^ 32" "4 dvd w" "w < 0xC0000000 \<or> 0xF8000000 \<le> w"
  let ?A = "0xC0000000 + 4096 * f"
  have byte: "memset (fptr f 0) 0 4096 m (of_nat (w + i)) = m (of_nat (w + i))" if "i < 4" for i
  proof -
    have "w + i < 2 ^ 32" "w + i < 0xC0000000 \<or> 0xF8000000 \<le> w + i" using w that by (auto elim!: dvdE)
    then have "\<not> unat (of_nat (w + i) - of_nat ?A :: u32) < 4096" using assms by (subst unat_diff_range) auto
    then show ?thesis by (simp add: memset_fill block_fill_def fptr_def)
  qed
  from byte [of 0] byte [of 1] byte [of 2] byte [of 3] show "word_at (memset (fptr f 0) 0 4096 m) w = word_at m w"
    by (simp add: word_at_def load32_def add.commute)
qed

section \<open>Process directories\<close>

text \<open>
  The directory lies in frames \<open>p\<close> and \<open>p + 1\<close>, its entries in the first and the table pointers in the
  second. Each present user entry grants every access and has a page table of its own, in a frame
  that is marked used and is not part of the directory.
\<close>

definition table_frame :: "mem \<Rightarrow> nat \<Rightarrow> nat \<Rightarrow> nat" where
  "table_frame m p i = unat (entry_frame (fword m p i))"

definition has_table :: "mem \<Rightarrow> nat \<Rightarrow> nat \<Rightarrow> bool" where
  "has_table m p i \<longleftrightarrow> i < 768 \<and> entry_present (fword m p i)"

definition user_space :: "nat \<Rightarrow> 'a kmm_scheme \<Rightarrow> bool" where
  "user_space p s \<longleftrightarrow> p + 2 \<le> LOW_FRAMES \<and> null_reserved s \<and> frame_used s p \<and> frame_used s (Suc p) \<and>
     (\<forall>i. has_table (kmem s) p i \<longrightarrow>
        entry_user (fword (kmem s) p i) \<and> entry_rw (fword (kmem s) p i) \<and>
        table_frame (kmem s) p i < LOW_FRAMES \<and> fword (kmem s) (Suc p) i = fptr (table_frame (kmem s) p i) 0 \<and>
        frame_used s (table_frame (kmem s) p i) \<and> table_frame (kmem s) p i \<noteq> p \<and> table_frame (kmem s) p i \<noteq> Suc p) \<and>
     (\<forall>i j. has_table (kmem s) p i \<longrightarrow> has_table (kmem s) p j \<longrightarrow>
        table_frame (kmem s) p i = table_frame (kmem s) p j \<longrightarrow> i = j)"

text \<open>The frame that user code sees at page number \<open>v\<close>, and whether it may write there.\<close>

definition upage :: "mem \<Rightarrow> nat \<Rightarrow> nat \<Rightarrow> (nat \<times> bool) option" where
  "upage m p v =
     (if has_table m p (v div 1024)
      then let pte = fword m (table_frame m p (v div 1024)) (v mod 1024)
           in if user_access pte then Some (unat (entry_frame pte), entry_rw pte) else None
      else None)"

text \<open>The frames the directory and its tables occupy.\<close>

definition space_frames :: "mem \<Rightarrow> nat \<Rightarrow> nat set" where
  "space_frames m p = {p, Suc p} \<union> {table_frame m p i |i. has_table m p i}"


text \<open>
  \<open>s'\<close> is a later state of the same kernel: frames stay used, a frame that was used for
  something else keeps its contents and is not taken into the directory, and the kernel's part of
  the directory and all memory outside the kernel window are the same.
\<close>

definition space_step :: "nat \<Rightarrow> 'a kmm_scheme \<Rightarrow> 'a kmm_scheme \<Rightarrow> bool" where
  "space_step p s s' \<longleftrightarrow> (\<forall>g<ALL_FRAMES. frame_used s g \<longrightarrow> frame_used s' g) \<and>
     (\<forall>g<LOW_FRAMES. frame_used s g \<longrightarrow> g \<notin> space_frames (kmem s) p \<longrightarrow>
        g \<notin> space_frames (kmem s') p \<and> (\<forall>k<1024. fword (kmem s') g k = fword (kmem s) g k)) \<and>
     (\<forall>i<1024. 768 \<le> i \<longrightarrow> fword (kmem s') p i = fword (kmem s) p i) \<and>
     high_same (kmem s) (kmem s')"

lemma low_frames_le: "LOW_FRAMES \<le> ALL_FRAMES"
  by simp

lemma space_step_refl [simp]: "space_step p s s"
  by (simp add: space_step_def)

lemma space_step_trans: "space_step p s t \<Longrightarrow> space_step p t u \<Longrightarrow> space_step p s u"
  unfolding space_step_def using low_frames_le high_same_trans by (auto simp: less_le_trans [of _ LOW_FRAMES ALL_FRAMES])

lemma user_space_bounds:
  assumes "user_space p s"
  shows "p < LOW_FRAMES" "Suc p < LOW_FRAMES" "frame_used s p" "frame_used s (Suc p)" "null_reserved s"
  using assms by (auto simp: user_space_def)

lemma user_space_table:
  assumes "user_space p s" "has_table (kmem s) p i"
  shows "entry_user (fword (kmem s) p i)" "entry_rw (fword (kmem s) p i)"
    "table_frame (kmem s) p i < LOW_FRAMES" "fword (kmem s) (Suc p) i = fptr (table_frame (kmem s) p i) 0"
    "frame_used s (table_frame (kmem s) p i)" "table_frame (kmem s) p i \<noteq> p" "table_frame (kmem s) p i \<noteq> Suc p"
  using assms by (auto simp: user_space_def)

lemma user_space_inj:
  "user_space p s \<Longrightarrow> has_table (kmem s) p i \<Longrightarrow> has_table (kmem s) p j \<Longrightarrow>
   table_frame (kmem s) p i = table_frame (kmem s) p j \<longleftrightarrow> i = j"
  by (auto simp: user_space_def)

text \<open>Whatever leaves the words of the directory's frames and the marks of frames alone.\<close>

lemma user_space_cong:
  assumes "framemap s' = framemap s" "\<And>i. i < 1024 \<Longrightarrow> fword (kmem s') p i = fword (kmem s) p i"
    "\<And>i. i < 1024 \<Longrightarrow> fword (kmem s') (Suc p) i = fword (kmem s) (Suc p) i"
  shows "user_space p s' = user_space p s"
  using assms by (simp add: user_space_def has_table_def table_frame_def null_reserved_def frame_used_def cong: conj_cong imp_cong)

text \<open>
  No frame is wasted: apart from \<open>U\<close> only the frames of the directory are in use, and each of its
  tables has a page.
\<close>

definition tight_space :: "nat set \<Rightarrow> nat \<Rightarrow> 'a kmm_scheme \<Rightarrow> bool" where
  "tight_space U p s \<longleftrightarrow> used_frames s \<subseteq> U \<union> space_frames (kmem s) p \<and>
     (\<forall>i. has_table (kmem s) p i \<longrightarrow> (\<exists>v. v div 1024 = i \<and> upage (kmem s) p v \<noteq> None))"

section \<open>Writing a page\<close>

definition page_word :: "u32 \<Rightarrow> bool \<Rightarrow> bool \<Rightarrow> bool \<Rightarrow> u32 \<Rightarrow> u32" where
  "page_word frame present rw user w =
     with_bit 2 user (with_bit 1 rw (with_bit 0 present (with_frame frame w)))"

lemma set_page_store:
  "set_page page frame present rw user s =
   s\<lparr>kmem := store32 (kmem s) page (page_word frame present rw user (load32 (kmem s) page))\<rparr>"
  by (simp add: set_page_def Let_def upd_word_twice) (simp add: upd_word_def page_word_def)

lemma frame_bits: "f < ALL_FRAMES \<Longrightarrow> unat (take_bit 20 (of_nat f :: u32)) = f"
  by (simp add: unat_of_nat_u32 take_bit_nat_eq_self flip: of_nat_take_bit)

lemma map_present:
  fixes w :: bool
  assumes "user_space p s" "has_table (kmem s) p (v div 1024)" "frame < 2 ^ 20"
  defines "s' \<equiv> set_page (fptr (table_frame (kmem s) p (v div 1024)) (v mod 1024)) (of_nat frame) True w True s"
  shows "user_space p s'" "space_step p s s'" "upage (kmem s') p = (upage (kmem s) p)(v \<mapsto> (frame, w))"
    "framemap s' = framemap s" "has_table (kmem s') p i = has_table (kmem s) p i" "space_frames (kmem s') p = space_frames (kmem s) p"
proof -
  let ?m = "kmem s" and ?m' = "kmem s'" and ?f = "table_frame (kmem s) p (v div 1024)"
  note t = user_space_table [OF assms(1,2)] and b = user_space_bounds [OF assms(1)]
  have w: "fword ?m' g k = (if g = ?f \<and> k = v mod 1024 then page_word (of_nat frame) True w True (fword ?m g k) else fword ?m g k)"
    if "g < LOW_FRAMES" "k < 1024" for g k
    using that t(3) by (simp add: s'_def set_page_store fword_store load_fptr)
  have dir: "fword ?m' p k = fword ?m p k" "fword ?m' (Suc p) k = fword ?m (Suc p) k" if "k < 1024" for k
    using that b t(6,7) by (simp_all add: w)
  show fm: "framemap s' = framemap s" by (simp add: s'_def set_page_store)
  show "user_space p s'" using user_space_cong [OF fm dir] assms(1) by simp
  have same: "has_table ?m' p i = has_table ?m p i" "has_table ?m p i \<Longrightarrow> table_frame ?m' p i = table_frame ?m p i" for i
    using dir(1) [of i] by (auto simp: has_table_def table_frame_def)
  show "has_table ?m' p i = has_table ?m p i" by (rule same(1))
  show frames: "space_frames ?m' p = space_frames ?m p" unfolding space_frames_def using same by (auto, metis+)
  have "high_same ?m ?m'" using t(3) by (simp add: s'_def set_page_store high_same_store)
  then show "space_step p s s'" unfolding space_step_def frames
    using assms(2) dir(1) by (auto simp: w fm frame_used_def) (auto simp: space_frames_def)
  show "upage ?m' p = (upage ?m p)(v \<mapsto> (frame, w))"
  proof
    fix u
    show "upage ?m' p u = ((upage ?m p)(v \<mapsto> (frame, w))) u"
    proof (cases "has_table ?m p (u div 1024)")
      case True
      have "u = v \<longleftrightarrow> u div 1024 = v div 1024 \<and> u mod 1024 = v mod 1024" by (metis div_mult_mod_eq)
      then show ?thesis using True assms(3) user_space_table(3) [OF assms(1) True] user_space_inj [OF assms(1) True assms(2)]
        by (auto simp: upage_def same w page_word_def user_access_def Let_def frame_bits)
    next
      case False
      then show ?thesis using assms(2) by (auto simp: upage_def same)
    qed
  qed
qed

section \<open>The table of an address\<close>

definition low_memory_full :: "'a pmm_scheme \<Rightarrow> bool" where
  "low_memory_full s \<longleftrightarrow> (\<forall>g<LOW_FRAMES. frame_used s g)"

lemma first_fit_one: "first_fit s 0 LOW_FRAMES 1 = None \<longleftrightarrow> low_memory_full s"
  by (auto simp: first_fit_None low_memory_full_def free_run_def)

text \<open>A fresh table: frame \<open>f\<close> was free, is cleared and entered for index \<open>i\<close>.\<close>

lemma fresh_table:
  assumes "user_space p s" "\<not> has_table (kmem s) p i" "i < 768" "f < LOW_FRAMES" "\<not> frame_used s f"
    and marked: "\<And>g. g < ALL_FRAMES \<Longrightarrow> frame_used s' g = (g = f \<or> frame_used s g)"
    and words: "\<And>g k. g < LOW_FRAMES \<Longrightarrow> k < 1024 \<Longrightarrow> fword (kmem s') g k =
      (if g = f then 0 else if g = p \<and> k = i then e else if g = Suc p \<and> k = i then fptr f 0 else fword (kmem s) g k)"
    and e: "entry_present e" "entry_user e" "entry_rw e" "entry_frame e = of_nat f"
    and high: "high_same (kmem s) (kmem s')"
  shows "user_space p s'" "space_step p s s'" "upage (kmem s') p = upage (kmem s) p" "has_table (kmem s') p i"
    "table_frame (kmem s') p i = f" "has_table (kmem s') p j \<longleftrightarrow> j = i \<or> has_table (kmem s) p j"
    "space_frames (kmem s') p = insert f (space_frames (kmem s) p)"
proof -
  let ?m = "kmem s" and ?m' = "kmem s'"
  have marked': "frame_used s' g = (g = f \<or> frame_used s g)" if "g < LOW_FRAMES" for g
    using marked [OF less_le_trans [OF that low_frames_le]] .
  note b = user_space_bounds [OF assms(1)]
  have f: "f \<noteq> p" "f \<noteq> Suc p" using assms(5) b by auto
  have dir: "fword ?m' p k = (if k = i then e else fword ?m p k)"
    "fword ?m' (Suc p) k = (if k = i then fptr f 0 else fword ?m (Suc p) k)" if "k < 1024" for k
    using that b f by (simp_all add: words)
  have ht: "has_table ?m' p k \<longleftrightarrow> k = i \<or> has_table ?m p k" for k
    using assms(3) dir(1) [of k] e(1) by (auto simp: has_table_def)
  have tf: "table_frame ?m' p k = (if k = i then f else table_frame ?m p k)" if "k < 768" for k
    using that dir(1) [of k] e(4) assms(4) by (simp add: table_frame_def unat_of_nat_u32)
  have lt: "k < 768" "k < 1024" if "has_table ?m p k" for k using that by (simp_all add: has_table_def)
  have old: "table_frame ?m p k \<noteq> f" if "has_table ?m p k" for k
    using user_space_table(5) [OF assms(1) that] assms(5) by auto
  show "has_table ?m' p i" by (simp add: ht)
  show "has_table ?m' p j \<longleftrightarrow> j = i \<or> has_table ?m p j" by (rule ht)
  show "table_frame ?m' p i = f" using tf assms(3) by simp
  show "user_space p s'" unfolding user_space_def
  proof (intro conjI allI impI)
    fix j k assume "has_table ?m' p j" "has_table ?m' p k" "table_frame ?m' p j = table_frame ?m' p k"
    then show "j = k" using assms(3) old [of j] old [of k] user_space_inj [OF assms(1), of j k]
      by (auto simp: ht tf lt split: if_splits)
  qed (use b f user_space_table [OF assms(1)] assms(1,3,4) e old in
        \<open>auto simp: ht tf dir marked' lt null_reserved_def user_space_def split: if_splits\<close>)
  have "{table_frame ?m' p k |k. has_table ?m' p k} = insert f {table_frame ?m p k |k. has_table ?m p k}"
    using assms(2,3) tf [OF assms(3)] by (auto simp: ht tf lt) (metis lt(1) tf)+
  then show frames: "space_frames ?m' p = insert f (space_frames ?m p)" by (simp add: space_frames_def)
  show "space_step p s s'" unfolding space_step_def
    using frames assms(3,5) dir(1) high by (auto simp: marked words space_frames_def)
  show "upage ?m' p = upage ?m p"
  proof
    fix u
    show "upage ?m' p u = upage ?m p u"
      using assms(2-4) user_space_table(3,6,7) [OF assms(1)] old b
      by (auto simp: upage_def ht tf lt words user_access_def entry_present_def Let_def)
  qed
qed

text \<open>Nothing but memory and the marks of frames changes.\<close>

definition mem_only :: "'a kmm_scheme \<Rightarrow> 'a kmm_scheme \<Rightarrow> bool" where
  "mem_only s s' \<longleftrightarrow> s' = s\<lparr>framemap := framemap s', kmem := kmem s'\<rparr>"

lemma mem_onlyI: "s' = s\<lparr>framemap := fm, kmem := m\<rparr> \<Longrightarrow> mem_only s s'"
  by (simp add: mem_only_def)

lemma mem_only_refl [simp]: "mem_only s s"
  by (simp add: mem_only_def)

lemma mem_only_trans:
  assumes "mem_only s t" "mem_only t u"
  shows "mem_only s u"
proof -
  from assms have "t = s\<lparr>framemap := framemap t, kmem := kmem t\<rparr>" "u = t\<lparr>framemap := framemap u, kmem := kmem u\<rparr>"
    by (simp_all only: mem_only_def)
  then obtain f m f' m' where "t = s\<lparr>framemap := f, kmem := m\<rparr>" "u = t\<lparr>framemap := f', kmem := m'\<rparr>" by blast
  then show ?thesis by (simp add: mem_only_def)
qed

lemma with_bit_id: "n < 32 \<Longrightarrow> bit w n = b \<Longrightarrow> with_bit n b w = w"
  by (rule bit_word_eqI) (auto simp: bit_with_bit)

lemma upd_word_id: "f (load32 (kmem s) q) = load32 (kmem s) q \<Longrightarrow> upd_word q f s = s"
  by (simp add: upd_word_def store32_id)

text \<open>What \<open>map_table\<close> gives: table \<open>f\<close>, entered at \<open>i\<close>, and a space that shows the same pages.\<close>

definition table_ready :: "nat \<Rightarrow> nat \<Rightarrow> nat \<Rightarrow> 'a kmm_scheme \<Rightarrow> 'a kmm_scheme \<Rightarrow> bool" where
  "table_ready p i f s s' \<longleftrightarrow> user_space p s' \<and> space_step p s s' \<and> mem_only s s' \<and> upage (kmem s') p = upage (kmem s) p \<and>
     has_table (kmem s') p i \<and> table_frame (kmem s') p i = f \<and> (\<forall>j. has_table (kmem s') p j \<longleftrightarrow> j = i \<or> has_table (kmem s) p j) \<and>
     (\<forall>U. used_frames s \<subseteq> U \<union> space_frames (kmem s) p \<longrightarrow> used_frames s' \<subseteq> U \<union> space_frames (kmem s') p)"

lemma map_table_present:
  assumes "user_space p s" "has_table (kmem s) p i"
  shows "map_table (fptr p 0) (of_nat i) w s = Some (Some (fptr (table_frame (kmem s) p i) 0), s)"
proof -
  note t = user_space_table [OF assms]
  have "upd_word (fptr p i) (with_bit 1 True) s = s" "upd_word (fptr p i) (with_bit 2 True) s = s"
    using t(1,2) by (auto intro!: upd_word_id with_bit_id simp: load_fptr entry_user_def entry_rw_def)
  then show ?thesis using t(3,4) fptr_nonzero [OF t(3)] assms(2)
    by (simp add: map_table_def load_fptr has_table_def Let_def)
qed

lemma map_table_fresh:
  assumes "user_space p s" "\<not> has_table (kmem s) p i" "i < 768" "first_fit s 0 LOW_FRAMES 1 = Some f"
  shows "\<exists>s'. map_table (fptr p 0) (of_nat i) w s = Some (Some (fptr f 0), s') \<and> table_ready p i f s s'"
proof -
  note b = user_space_bounds [OF assms(1)]
  from assms(4) have f: "f < LOW_FRAMES" "\<not> frame_used s f" by (auto simp: first_fit_Some free_run_def)
  then have "f \<noteq> p" "f \<noteq> Suc p" "f \<noteq> 0" using b by (auto simp: null_reserved_def intro: gr0I)
  from alloc_default_hit [of s 1 f] assms(4) obtain s1 where
    s1: "alloc_pages PMM_FLAGS_DEFAULT 1 s = Some (frame_addr f, s1)" "marked s s1 f 1" by auto
  from s1(2) have km: "s1 = s\<lparr>framemap := framemap s1\<rparr>" by (simp only: marked_def)
  have [simp]: "kmem s1 = kmem s" by (subst km) simp
  have fa: "frame_addr f \<noteq> 0" using unat_frame_addr [of f] f(1) \<open>f \<noteq> 0\<close> by auto
  have pf: "PAGE_FRAME (frame_addr f) = of_nat f"
    using unat_frame_addr [of f] f(1) by (simp add: PAGE_FRAME_def word_unat_eq_iff unat_div unat_of_nat_u32)
  define e where "e = with_frame (of_nat f) (with_bit 2 True (with_bit 1 True (with_bit 0 True (fword (kmem s) p i))))"
  define m' where "m' = store32 (store32 (memset (fptr f 0) 0 4096 (kmem s)) (fptr (Suc p) i) (fptr f 0)) (fptr p i) e"
  have m: "map_table (fptr p 0) (of_nat i) w s = Some (Some (fptr f 0), s1\<lparr>kmem := m'\<rparr>)"
  proof -
    have "map_table (fptr p 0) (of_nat i) w s =
        (let s = s1\<lparr>kmem := store32 (memset (fptr f 0) 0 4096 (kmem s)) (fptr (Suc p) i) (fptr f 0)\<rparr>
         in Some (Some (fptr f 0), upd_word (fptr p i) (with_frame (of_nat f) \<circ> with_bit 2 True \<circ> with_bit 1 True \<circ> with_bit 0 True) s))"
      using assms(2,3) fa
      by (simp add: map_table_def load_fptr has_table_def Let_def s1(1) pf upd_word_twice upd_word_def [of "fptr (Suc p) i"] comp_assoc)
    moreover have "fword (store32 (memset (fptr f 0) 0 4096 (kmem s)) (fptr (Suc p) i) (fptr f 0)) p i = fword (kmem s) p i"
      using assms(3) b f \<open>f \<noteq> p\<close> by (simp add: fword_store fword_clear)
    ultimately show ?thesis by (simp add: Let_def upd_word_def load_fptr e_def m'_def)
  qed
  have "frame_used (s1\<lparr>kmem := m'\<rparr>) g = (g = f \<or> frame_used s g)" if "g < ALL_FRAMES" for g
    using that marked_used [OF s1(2), of g] by (auto simp: frame_used_def)
  moreover have "fword m' g k = (if g = f then 0 else if g = p \<and> k = i then e else if g = Suc p \<and> k = i then fptr f 0
      else fword (kmem s) g k)" if "g < LOW_FRAMES" "k < 1024" for g k
    using that assms(3) b f \<open>f \<noteq> p\<close> \<open>f \<noteq> Suc p\<close> by (simp add: m'_def fword_store fword_clear)
  moreover have "entry_present e" "entry_user e" "entry_rw e" "entry_frame e = of_nat f"
    using f(1) frame_bits [of f] by (simp_all add: e_def word_unat_eq_iff unat_of_nat_u32)
  moreover have "high_same (kmem s) m'" unfolding m'_def
    by (rule high_same_trans [OF high_same_trans [OF high_same_clear high_same_store] high_same_store]) (use b f assms(3) in simp_all)
  moreover have "mem_only s (s1\<lparr>kmem := m'\<rparr>)" by (subst km) (simp add: mem_only_def)
  moreover from calculation(1) have "used_frames (s1\<lparr>kmem := m'\<rparr>) \<subseteq> insert f (used_frames s)" by (auto simp: used_frames_def)
  ultimately have "table_ready p i f s (s1\<lparr>kmem := m'\<rparr>)"
    using fresh_table [OF assms(1-3) f, of "s1\<lparr>kmem := m'\<rparr>" e] by (auto simp: table_ready_def)
  with m show ?thesis by blast
qed

lemma map_table_full:
  assumes "user_space p s" "\<not> has_table (kmem s) p i" "i < 768" "low_memory_full s"
  shows "map_table (fptr p 0) (of_nat i) w s = Some (None, kprint (''proc_map_pages: failed to allocate page table'' @ nl) [] s)"
proof -
  have "alloc_pages PMM_FLAGS_DEFAULT 1 s = Some (0, s)"
    using first_fit_one [of s] assms(4) by (intro alloc_default_miss) simp_all
  then show ?thesis using assms(2,3) by (simp add: map_table_def load_fptr has_table_def Let_def)
qed

section \<open>Mapping pages\<close>

lemma unat_shift20: "unat x div 4096 < ALL_FRAMES" for x :: u32
  using unat_u32_less [of x] by auto

lemma page_indices:
  assumes "unat virt < 0xC0000000"
  shows "PAGE_DIR_IDX virt = of_nat (unat virt div 4096 div 1024)" "PAGE_TBL_IDX virt = of_nat (unat virt div 4096 mod 1024)"
    "unat virt div 4096 div 1024 < 768"
proof -
  show "unat virt div 4096 div 1024 < 768" using assms by simp
  show "PAGE_DIR_IDX virt = of_nat (unat virt div 4096 div 1024)"
    using unat_u32_less [of virt] by (simp add: PAGE_DIR_IDX_def word_unat_eq_iff unat_div unat_of_nat_u32 div_mult2_eq [symmetric])
  have "unat virt mod 0x400000 div 0x1000 = unat virt div 4096 mod 1024"
    using mod_mult2_eq [of "unat virt" 4096 1024] by simp
  then show "PAGE_TBL_IDX virt = of_nat (unat virt div 4096 mod 1024)"
    by (simp add: PAGE_TBL_IDX_def word_unat_eq_iff unat_div unat_mod unat_of_nat_u32)
qed

definition space_maps :: "nat \<Rightarrow> (nat \<Rightarrow> (nat \<times> bool) option) \<Rightarrow> 'a kmm_scheme \<Rightarrow> 'a kmm_scheme \<Rightarrow> bool" where
  "space_maps p M s s' \<longleftrightarrow> user_space p s' \<and> space_step p s s' \<and> upage (kmem s') p = M \<and>
     (\<forall>U. tight_space U p s \<longrightarrow> tight_space U p s')"

lemma map_page_ready:
  assumes "map_table (fptr p 0) (of_nat (unat virt div 4096 div 1024)) w s = Some (Some (fptr f 0), t)"
    and "table_ready p (unat virt div 4096 div 1024) f s t" "unat virt < 0xC0000000"
  shows "\<exists>s'. map_page (fptr p 0) virt phys w s = Some (True, s') \<and> mem_only s s' \<and>
    space_maps p ((upage (kmem s) p)(unat virt div 4096 \<mapsto> (unat phys div 4096, w))) s s'"
proof -
  let ?v = "unat virt div 4096"
  define s' where "s' = set_page (fptr f (?v mod 1024)) (of_nat (unat phys div 4096)) True w True t"
  from assms(2) have t: "user_space p t" "has_table (kmem t) p (?v div 1024)" "table_frame (kmem t) p (?v div 1024) = f"
    "space_step p s t" "mem_only s t" "upage (kmem t) p = upage (kmem s) p" by (simp_all add: table_ready_def)
  note m = map_present [OF t(1,2), of "unat phys div 4096" w, unfolded t(3), folded s'_def]
  have "PAGE_FRAME phys = of_nat (unat phys div 4096)"
    using unat_u32_less [of phys] by (simp add: PAGE_FRAME_def word_unat_eq_iff unat_div unat_of_nat_u32)
  then have "map_page (fptr p 0) virt phys w s = Some (True, s')"
    using page_indices [OF assms(3)] assms(1) by (simp add: map_page_def s'_def)
  moreover have "mem_only t s'" by (simp add: s'_def set_page_store mem_only_def)
  moreover have "tight_space U p s'" if U: "tight_space U p s" for U
  proof -
    have fr: "used_frames s' = used_frames t" "space_frames (kmem s') p = space_frames (kmem t) p"
      using m(4,6) unat_shift20 [of phys] by (simp_all add: used_frames_def frame_used_def)
    have "\<exists>u. u div 1024 = i \<and> upage (kmem s') p u \<noteq> None" if "has_table (kmem s') p i" for i
    proof (cases "i = ?v div 1024")
      case True
      then show ?thesis using m(3) unat_shift20 [of phys] by (intro exI [of _ ?v]) simp
    next
      case False
      then have "has_table (kmem s) p i" using that m(5) unat_shift20 [of phys] assms(2) by (simp add: table_ready_def)
      then obtain u where "u div 1024 = i" "upage (kmem s) p u \<noteq> None" using U unfolding tight_space_def by blast
      then show ?thesis using m(3) unat_shift20 [of phys] t(6) by (intro exI [of _ u]) simp
    qed
    then show ?thesis using U fr assms(2) by (auto simp: tight_space_def table_ready_def)
  qed
  ultimately show ?thesis using t(4-6) m unat_shift20 [of phys] mem_only_trans space_step_trans
    by (auto simp: space_maps_def)
qed

lemma map_page_cases:
  assumes "user_space p s" "unat virt < 0xC0000000"
  shows "(\<exists>s'. map_page (fptr p 0) virt phys w s = Some (True, s') \<and> mem_only s s' \<and>
      space_maps p ((upage (kmem s) p)(unat virt div 4096 \<mapsto> (unat phys div 4096, w))) s s') \<or>
    (low_memory_full s \<and> (\<exists>s'. map_page (fptr p 0) virt phys w s = Some (False, s') \<and> kmem s' = kmem s \<and> framemap s' = framemap s))"
proof -
  let ?i = "unat virt div 4096 div 1024"
  note idx = page_indices [OF assms(2)]
  consider (present) "has_table (kmem s) p ?i" | (fresh) f where "\<not> has_table (kmem s) p ?i" "first_fit s 0 LOW_FRAMES 1 = Some f"
    | (full) "\<not> has_table (kmem s) p ?i" "low_memory_full s" using first_fit_one [of s] by fastforce
  then show ?thesis
  proof cases
    case present
    have "table_ready p ?i (table_frame (kmem s) p ?i) s s" using assms(1) present by (auto simp: table_ready_def)
    from map_page_ready [OF map_table_present [OF assms(1) present] this assms(2)] show ?thesis by blast
  next
    case fresh
    from map_table_fresh [OF assms(1) fresh(1) idx(3) fresh(2)] map_page_ready [OF _ _ assms(2)] show ?thesis by blast
  next
    case full
    from map_table_full [OF assms(1) full(1) idx(3) full(2), of w] full(2) show ?thesis
      by (simp add: map_page_def idx)
  qed
qed

text \<open>Pages \<open>a + j\<close> up to \<open>a + n\<close> at frames from \<open>b + j\<close> on, over the map \<open>M\<close>.\<close>

definition mapped :: "nat \<Rightarrow> nat \<Rightarrow> bool \<Rightarrow> nat \<Rightarrow> nat \<Rightarrow> (nat \<Rightarrow> (nat \<times> bool) option) \<Rightarrow> nat \<Rightarrow> (nat \<times> bool) option" where
  "mapped a b w j n M = (\<lambda>v. if a + j \<le> v \<and> v < a + n then Some (b + (v - a), w) else M v)"

lemma mapped_empty [simp]: "mapped a b w j j M = M"
  by (auto simp: mapped_def fun_eq_iff)

lemma page_of_index:
  fixes x :: u32
  assumes "unat x + 4096 * n \<le> 2 ^ 32" "i < n"
  shows "unat (x + of_nat i * PAGE_SIZE) = unat x + 4096 * i" "unat (x + of_nat i * PAGE_SIZE) div 4096 = unat x div 4096 + i"
proof -
  have "x + of_nat i * PAGE_SIZE = of_nat (unat x + 4096 * i)" by (simp add: PAGE_SIZE_def)
  moreover have "unat (of_nat (unat x + 4096 * i) :: u32) = unat x + 4096 * i" using assms by (intro unat_of_nat_u32) auto
  ultimately show "unat (x + of_nat i * PAGE_SIZE) = unat x + 4096 * i" by (simp only:)
  then show "unat (x + of_nat i * PAGE_SIZE) div 4096 = unat x div 4096 + i" by simp
qed

lemma map_loop_maps:
  assumes "user_space p s" "unat virt + 4096 * n \<le> 0xC0000000" "unat phys + 4096 * n \<le> 2 ^ 32" "j \<le> n"
  shows "\<exists>ok s' k. map_loop (fptr p 0) virt phys w [j..<n] s = Some (ok, s') \<and> j \<le> k \<and>
    space_maps p (mapped (unat virt div 4096) (unat phys div 4096) w j k (upage (kmem s) p)) s s' \<and>
    (if ok then k = n \<and> mem_only s s' else k < n \<and> low_memory_full s')"
  using assms(1,4)
proof (induction "n - j" arbitrary: j s)
  case 0
  then have "space_maps p (mapped (unat virt div 4096) (unat phys div 4096) w j n (upage (kmem s) p)) s s"
    by (simp add: space_maps_def)
  with 0 show ?case by (intro exI [of _ True] exI [of _ s] exI [of _ n]) simp
next
  case (Suc d)
  let ?v = "virt + of_nat j * PAGE_SIZE" and ?q = "phys + of_nat j * PAGE_SIZE"
  let ?a = "unat virt div 4096" and ?b = "unat phys div 4096"
  from Suc.hyps(2) have j: "j < n" "[j..<n] = j # [Suc j..<n]" by (simp_all add: upt_conv_Cons)
  note v = page_of_index [of virt n j] and q = page_of_index [OF assms(3) j(1)]
  have va: "unat ?v < 0xC0000000" "unat ?v div 4096 = ?a + j" using v assms(2) j(1) by auto
  from map_page_cases [OF Suc.prems(1) va(1), of ?q w] show ?case
  proof (elim disjE exE conjE)
    fix t assume t: "map_page (fptr p 0) ?v ?q w s = Some (True, t)" "mem_only s t"
      "space_maps p ((upage (kmem s) p)(unat ?v div 4096 \<mapsto> (unat ?q div 4096, w))) s t"
    have "user_space p t" using t(3) by (simp add: space_maps_def)
    moreover have "d = n - Suc j" "Suc j \<le> n" using Suc.hyps(2) j(1) by simp_all
    ultimately obtain ok s' k where
      r: "map_loop (fptr p 0) virt phys w [Suc j..<n] t = Some (ok, s')" "Suc j \<le> k"
        "space_maps p (mapped ?a ?b w (Suc j) k (upage (kmem t) p)) t s'"
        "if ok then k = n \<and> mem_only t s' else k < n \<and> low_memory_full s'"
      using Suc.hyps(1) by blast
    have "mapped ?a ?b w (Suc j) k (upage (kmem t) p) = mapped ?a ?b w j k (upage (kmem s) p)"
    proof
      fix u
      have "upage (kmem t) p = (upage (kmem s) p)(?a + j \<mapsto> (?b + j, w))" using t(3) by (simp only: space_maps_def va q(2))
      then show "mapped ?a ?b w (Suc j) k (upage (kmem t) p) u = mapped ?a ?b w j k (upage (kmem s) p) u"
        using r(2) by (cases "u = ?a + j") (auto simp: mapped_def)
    qed
    moreover have "space_step p s s'" using r(3) t(3) space_step_trans unfolding space_maps_def by blast
    ultimately have "space_maps p (mapped ?a ?b w j k (upage (kmem s) p)) s s'" using r(3) t(3) by (simp add: space_maps_def)
    moreover have "map_loop (fptr p 0) virt phys w [j..<n] s = Some (ok, s')" by (simp add: j(2) t(1) r(1))
    ultimately show ?thesis using r(2,4) mem_only_trans [OF t(2)] by (intro exI [of _ ok] exI [of _ s'] exI [of _ k]) auto
  next
    fix t assume t: "low_memory_full s" "map_page (fptr p 0) ?v ?q w s = Some (False, t)" "kmem t = kmem s" "framemap t = framemap s"
    have used: "frame_used t g = frame_used s g" for g by (simp add: frame_used_def t(4))
    have "user_space p t" using user_space_cong [of t s p] Suc.prems(1) t(3,4) by simp
    moreover have "space_step p s t" by (simp add: space_step_def used t(3))
    moreover have "tight_space U p s \<Longrightarrow> tight_space U p t" for U by (simp add: tight_space_def used_frames_def used t(3))
    ultimately have "space_maps p (mapped ?a ?b w j j (upage (kmem s) p)) s t" by (simp add: space_maps_def t(3))
    moreover have "low_memory_full t" using t(1) by (simp add: low_memory_full_def used)
    moreover note t(2) j
    ultimately show ?thesis by (intro exI [of _ False] exI [of _ t] exI [of _ j]) simp
  qed
qed

lemma proc_map_pages_space:
  fixes s :: "'a vmm_scheme"
  assumes "user_space p s" "proc \<noteq> 0" "getf proc off_page_directory s = KP2V (frame_addr p)" "pages \<noteq> 0"
    and "unat virt + 4096 * unat pages \<le> 0xC0000000" "unat phys + 4096 * unat pages \<le> 2 ^ 32"
  shows "\<exists>rc s' k. proc_map_pages proc virt phys pages writable s = Some (rc, s') \<and>
    space_maps p (mapped (unat virt div 4096) (unat phys div 4096) writable 0 k (upage (kmem s) p)) s s' \<and>
    (if rc = 0 then k = unat pages \<and> mem_only s s' else rc = -1 \<and> k < unat pages \<and> low_memory_full s')"
proof -
  from map_loop_maps [OF assms(1,5,6), of 0 writable] obtain ok s' k where
    l: "map_loop (fptr p 0) virt phys writable [0..<unat pages] s = Some (ok, s')"
      "space_maps p (mapped (unat virt div 4096) (unat phys div 4096) writable 0 k (upage (kmem s) p)) s s'"
      "if ok then k = unat pages \<and> mem_only s s' else k < unat pages \<and> low_memory_full s'" by blast
  have "proc_map_pages proc virt phys pages writable s = Some (if ok then 0 else -1, s')"
    using assms(2-4) fptr_nonzero [of p] user_space_bounds(1) [OF assms(1)] l(1)
    by (simp add: proc_map_pages_def flush_tlb_def)
  then show ?thesis using l(2,3)
    by (intro exI [of _ "if ok then 0 else -1"] exI [of _ s'] exI [of _ k]) (cases ok; simp)
qed

section \<open>What user code sees\<close>

definition user_write :: "u32 \<Rightarrow> bool" where
  "user_write w \<longleftrightarrow> user_access w \<and> entry_rw w"

text \<open>Where user code's access to an address goes, and whether it may write there.\<close>

definition user_view :: "mem \<Rightarrow> u32 \<Rightarrow> u32 \<Rightarrow> (u32 \<times> bool) option" where
  "user_view m dir va = map_option (\<lambda>pa. (pa, walk user_write m dir va = Some pa)) (walk user_access m dir va)"

lemma phys_word_fptr: "phys_word m (frame_addr f + 4 * of_nat k) = fword m f k"
  by (simp add: phys_word_def fword_def fptr_def KP2V_def frame_addr_def algebra_simps)

lemma user_view_upage:
  assumes "user_space p s" "unat va < 0xC0000000"
  shows "user_view (kmem s) (frame_addr p) va =
    map_option (\<lambda>(f, w). (of_nat (4096 * f + unat va mod 4096), w)) (upage (kmem s) p (unat va div 4096))"
proof (cases "has_table (kmem s) p (unat va div 4096 div 1024)")
  case True
  let ?i = "unat va div 4096 div 1024" and ?j = "unat va div 4096 mod 1024"
  define pte where "pte = fword (kmem s) (table_frame (kmem s) p ?i) ?j"
  note t = user_space_table [OF assms(1) True]
  have pde: "entry_present (fword (kmem s) p ?i)" using True by (simp add: has_table_def)
  have "entry_frame (fword (kmem s) p ?i) * 0x1000 = frame_addr (table_frame (kmem s) p ?i)"
    by (simp add: table_frame_def frame_addr_def)
  then have w: "walk need (kmem s) (frame_addr p) va = (if need pte then Some (entry_frame pte * 0x1000 + va mod 0x1000) else None)"
    if "need (fword (kmem s) p ?i)" for need
    using that by (simp add: walk_def page_indices [OF assms(2)] phys_word_fptr pte_def)
  have "entry_frame pte * 0x1000 + va mod 0x1000 = of_nat (4096 * unat (entry_frame pte) + unat va mod 4096)"
  proof -
    have "va mod 0x1000 = of_nat (unat va mod 4096)" by (simp add: word_unat_eq_iff unat_mod unat_of_nat_u32)
    then show ?thesis by simp
  qed
  then show ?thesis using pde t(1,2) True
    by (auto simp: user_view_def w user_access_def user_write_def upage_def Let_def simp flip: pte_def)
next
  case False
  then have "\<not> entry_present (fword (kmem s) p (unat va div 4096 div 1024))" using page_indices(3) [OF assms(2)] by (simp add: has_table_def)
  then show ?thesis using False
    by (simp add: user_view_def walk_def page_indices [OF assms(2)] phys_word_fptr user_access_def upage_def)
qed

section \<open>Properties\<close>

text \<open>
  A kernel with frames 0 to 7 and 0x500 to 0x507 used, an empty directory in frames 0x500 and
  0x501, and the process structure of its owner at 0xC0600000.
\<close>

definition sample_space :: vmm where
  "sample_space = boot_state\<lparr>framemap := (\<lambda>i. if i = 0 \<or> i = 0xA0 then 0xFF else 0),
     kmem := store32 (\<lambda>_. 0) (fptr 0x600 1) (fptr 0x500 0)\<rparr>"

lemma sample_space_word:
  "g < LOW_FRAMES \<Longrightarrow> k < 1024 \<Longrightarrow> fword (kmem sample_space) g k = (if g = 0x600 \<and> k = 1 then fptr 0x500 0 else 0)"
  by (simp add: sample_space_def fword_store) (simp add: fword_def load32_def)

lemma sample_space_ok: "user_space 0x500 sample_space"
proof -
  have "\<not> has_table (kmem sample_space) 0x500 i" for i
    using sample_space_word [of "0x500" i] by (auto simp: has_table_def entry_present_def)
  moreover have "frame_used sample_space 0" "frame_used sample_space 0x500" "frame_used sample_space 0x501"
    by (simp_all add: frame_used_def sample_space_def)
  ultimately show ?thesis by (simp add: user_space_def null_reserved_def)
qed

text \<open>
  C16: On a process directory that satisfies its invariant, \<^verbatim>\<open>proc_map_pages\<close> returns. On success
  user code reaches, at the pages named, exactly the frames from \<^verbatim>\<open>phys\<close> on, writable if asked for,
  and every other user address goes where it went before; the directory keeps its invariant and its
  kernel part, and memory that was in use for anything else keeps its contents. It fails only when
  a page table is needed and low memory is full, and has then mapped a proper initial part of the
  pages.
\<close>

theorem proc_map_pages_maps:
  fixes s :: "'a vmm_scheme"
  assumes "user_space p s" "proc \<noteq> 0" "getf proc off_page_directory s = KP2V (frame_addr p)" "pages \<noteq> 0"
    and "unat virt + 4096 * unat pages \<le> 0xC0000000" "unat phys + 4096 * unat pages \<le> 2 ^ 32"
  shows "\<exists>rc s' k. proc_map_pages proc virt phys pages writable s = Some (rc, s') \<and> user_space p s' \<and> space_step p s s' \<and>
    (if rc = 0 then k = unat pages \<and> mem_only s s' else rc = -1 \<and> k < unat pages \<and> low_memory_full s') \<and>
    (\<forall>va. unat va < 0xC0000000 \<longrightarrow>
       user_view (kmem s') (frame_addr p) va =
         (if unat virt div 4096 \<le> unat va div 4096 \<and> unat va div 4096 < unat virt div 4096 + k
          then Some (of_nat (4096 * (unat phys div 4096 + (unat va div 4096 - unat virt div 4096)) + unat va mod 4096), writable)
          else user_view (kmem s) (frame_addr p) va))"
proof -
  let ?a = "unat virt div 4096" and ?b = "unat phys div 4096"
  from proc_map_pages_space [OF assms, of writable] obtain rc s' k where
    l: "proc_map_pages proc virt phys pages writable s = Some (rc, s')"
      "space_maps p (mapped ?a ?b writable 0 k (upage (kmem s) p)) s s'"
      "if rc = 0 then k = unat pages \<and> mem_only s s' else rc = -1 \<and> k < unat pages \<and> low_memory_full s'" by blast
  have u: "user_space p s'" "space_step p s s'" "upage (kmem s') p = mapped ?a ?b writable 0 k (upage (kmem s) p)"
    using l(2) by (simp_all add: space_maps_def)
  have "user_view (kmem s') (frame_addr p) va =
      (if ?a \<le> unat va div 4096 \<and> unat va div 4096 < ?a + k
       then Some (of_nat (4096 * (?b + (unat va div 4096 - ?a)) + unat va mod 4096), writable)
       else user_view (kmem s) (frame_addr p) va)" if "unat va < 0xC0000000" for va
    unfolding user_view_upage [OF u(1) that] user_view_upage [OF assms(1) that] u(3) by (simp add: mapped_def)
  with l(1,3) u(1,2) show ?thesis by blast
qed

theorem proc_map_pages_maps_witness:
  "\<exists>rc s' k. proc_map_pages 0xC0600000 0x400000 0x8000000 2 True sample_space = Some (rc, s') \<and> user_space 0x500 s' \<and>
    space_step 0x500 sample_space s' \<and>
    (if rc = 0 then k = 2 \<and> mem_only sample_space s' else rc = -1 \<and> k < 2 \<and> low_memory_full s') \<and>
    (\<forall>va. unat va < 0xC0000000 \<longrightarrow>
       user_view (kmem s') (frame_addr 0x500) va =
         (if 0x400 \<le> unat va div 4096 \<and> unat va div 4096 < 0x400 + k
          then Some (of_nat (4096 * (0x8000 + (unat va div 4096 - 0x400)) + unat va mod 4096), True)
          else user_view (kmem sample_space) (frame_addr 0x500) va))"
proof -
  have "getf 0xC0600000 off_page_directory sample_space = KP2V (frame_addr 0x500)"
    using sample_space_word [of "0x600" 1] by (simp add: getf_def off_page_directory_def fword_def fptr_def)
  moreover have n: "unat (0x400000 :: u32) div 4096 = 0x400" "unat (0x8000000 :: u32) div 4096 = 0x8000" "unat (2 :: u32) = 2"
    by simp_all
  ultimately show ?thesis
    by (intro proc_map_pages_maps [OF sample_space_ok, of _ 2 "0x400000" "0x8000000" True, unfolded n]) simp_all
qed

end
