(* ===== verification/Scheduler.thy ===== *)
theory Scheduler
  imports Proc
begin

text \<open>
  The round-robin scheduler, \<^verbatim>\<open>src/kernel/kernel/proc/scheduler.c\<close>. The interrupt frame that the
  code overwrites is a value: \<open>scheduler_switch_next\<close> takes the frame of the interrupted process
  and returns the frame the processor continues with.
\<close>

section \<open>Operations\<close>

definition candidate :: "u32 \<Rightarrow> 'a procs_scheme \<Rightarrow> nat \<Rightarrow> bool" where
  "candidate cur s i =
     (let p = proc_list s ! i
      in p \<noteq> 0 \<and> p \<noteq> cur \<and> getf p off_procstate s = procstate_val PROC_RUNNING \<and>
         getf p (off_context + ctx_cs) s AND 3 = 3)"

definition pick_next_proc :: "u32 \<Rightarrow> 'a procs_scheme \<Rightarrow> u32" where
  "pick_next_proc cur s =
     (let start = (case find (\<lambda>i. proc_list s ! i = cur) [0..<MAXPROC] of Some cur_idx \<Rightarrow> cur_idx + 1 | None \<Rightarrow> 0)
      in case find (candidate cur s) [start..<MAXPROC] of
           Some i \<Rightarrow> proc_list s ! i
         | None \<Rightarrow> (case find (candidate cur s) [0..<MAXPROC] of Some i \<Rightarrow> proc_list s ! i | None \<Rightarrow> 0))"

definition scheduler_init :: "'a procs_scheme \<Rightarrow> 'a procs_scheme" where
  "scheduler_init s = s"

definition scheduler_switch_process ::
    "u32 \<Rightarrow> int_regs \<Rightarrow> 'a procs_scheme \<Rightarrow> int_regs \<times> 'a procs_scheme" where
  "scheduler_switch_process next regs s =
     (if next = 0 \<or> next = current_proc s then (regs, s)
      else let s = proc_context_from_regs (current_proc s + off_context) regs s;
               s = tss_set_kernel_stack (getf next off_kstack_top s) s;
               s = swap_dir (getf next off_page_directory s) s;
               s = s\<lparr>current_proc := next\<rparr>;
               s = kprint (''Scheduler: switching to process #%u'' @ nl) [ArgW (getf (current_proc s) off_pid s)] s
           in (proc_context_to_regs regs (next + off_context) s, s))"

definition scheduler_switch_next :: "int_regs \<Rightarrow> 'a procs_scheme \<Rightarrow> int_regs \<times> 'a procs_scheme" where
  "scheduler_switch_next regs s =
     (if r_cs regs AND 3 \<noteq> 3 then (regs, s)
      else let s = proc_context_from_regs (current_proc s + off_context) regs s;
               next = pick_next_proc (current_proc s) s
           in scheduler_switch_process next regs s)"

section \<open>The process table\<close>

text \<open>
  Process structures are word aligned, do not wrap around the address space and do not
  overlap; \<open>sched_inv\<close> is the invariant of the table.
\<close>

definition proc_ok :: "u32 \<Rightarrow> bool" where
  "proc_ok p \<longleftrightarrow> p \<noteq> 0 \<and> 4 dvd unat p \<and> unat p + 104 \<le> 2 ^ 32"

definition procs_apart :: "u32 \<Rightarrow> u32 \<Rightarrow> bool" where
  "procs_apart p q \<longleftrightarrow> unat p + 104 \<le> unat q \<or> unat q + 104 \<le> unat p"

definition live_procs :: "'a procs_scheme \<Rightarrow> u32 set" where
  "live_procs s = set (proc_list s) - {0}"

definition sched_inv :: "'a procs_scheme \<Rightarrow> bool" where
  "sched_inv s \<longleftrightarrow> length (proc_list s) = MAXPROC \<and> current_proc s \<in> live_procs s \<and>
     (\<forall>i<MAXPROC. \<forall>j<i. proc_list s ! i = proc_list s ! j \<longrightarrow> proc_list s ! i = 0) \<and>
     (\<forall>p\<in>live_procs s. proc_ok p) \<and>
     (\<forall>p\<in>live_procs s. \<forall>q\<in>live_procs s. p \<noteq> q \<longrightarrow> procs_apart p q)"

lemma getf_setf:
  assumes "proc_ok p" "proc_ok q" "p \<noteq> q \<longrightarrow> procs_apart p q" "i < 26" "j < 26"
  shows "getf q (4 * of_nat j) (setf p (4 * of_nat i) v s) = (if q = p \<and> j = i then v else getf q (4 * of_nat j) s)"
proof -
  have a: "r + 4 * of_nat k = (of_nat (unat r + 4 * k) :: u32)" for r :: u32 and k by simp
  have "unat q + 4 * j = unat p + 4 * i \<longleftrightarrow> q = p \<and> j = i"
    using assms(3-5) by (auto simp: procs_apart_def)
  moreover have "4 dvd unat p + 4 * i" "4 dvd unat q + 4 * j" "unat p + 4 * i < 2 ^ 32" "unat q + 4 * j < 2 ^ 32"
    using assms by (auto simp: proc_ok_def)
  ultimately show ?thesis
    using word_at_store [where p = "unat p + 4 * i" and q = "unat q + 4 * j" and m = "kmem s" and v = v]
    unfolding getf_def setf_def a by (simp add: word_at_def del: of_nat_add)
qed

text \<open>The 13 words of a saved context, and the fields of an interrupt frame in the same order.\<close>

definition ctx_words :: "u32 \<Rightarrow> 'a kmm_scheme \<Rightarrow> u32 list" where
  "ctx_words p s = map (\<lambda>i. getf p (4 * of_nat i) s) [2..<15]"

definition ctx_of :: "int_regs \<Rightarrow> u32 list" where
  "ctx_of r = [r_edi r, r_esi r, r_ebp r, r_esp r, r_ebx r, r_edx r, r_ecx r, r_eax r, r_eip r,
     r_cs r, r_eflags r, r_useresp r, r_ss r]"

text \<open>A field outside the context.\<close>

definition fixed_field :: "nat \<Rightarrow> bool" where
  "fixed_field j \<longleftrightarrow> j < 26 \<and> (j < 2 \<or> 15 \<le> j)"

lemma getf_at: "getf (p + off_context) ctx s = getf p (off_context + ctx) s"
  by (simp add: getf_def add.assoc)

lemma setf_at: "setf (p + off_context) ctx v s = setf p (off_context + ctx) v s"
  by (simp add: setf_def add.assoc)

lemmas ctx_offsets = ctx_edi_def ctx_esi_def ctx_ebp_def ctx_esp_def ctx_ebx_def ctx_edx_def
  ctx_ecx_def ctx_eax_def ctx_eip_def ctx_cs_def ctx_eflags_def ctx_useresp_def ctx_ss_def off_context_def

lemma upt_context: "[2..<15] = [2, 3, 4, 5, 6, 7, 8, 9, 10, 11, 12, 13, 14]"
  by (simp add: upt_rec)

lemma off_context_nonnull: "proc_ok p \<Longrightarrow> p + off_context \<noteq> 0"
proof
  assume "proc_ok p" "p + off_context = 0"
  then have "unat (p + off_context) = 0" by simp
  moreover have "unat (p + 8) = unat p + 8" using \<open>proc_ok p\<close> by (subst unat_add_u32) (simp_all add: proc_ok_def)
  ultimately show False by (simp add: off_context_def)
qed

definition save_words :: "u32 \<Rightarrow> int_regs \<Rightarrow> (nat \<times> u32) list" where
  "save_words p r = [(2, r_edi r), (3, r_esi r), (4, r_ebp r), (5, r_esp r), (6, r_ebx r), (7, r_edx r),
     (8, r_ecx r), (9, r_eax r), (10, r_eip r), (12, r_eflags r), (11, r_cs r), (13, r_useresp r), (14, r_ss r)]"

lemma context_from_regs_stores:
  assumes "proc_ok p"
  shows "proc_context_from_regs (p + off_context) r s =
    fold (\<lambda>(i, v). setf p (4 * of_nat i) v) (save_words p r) s"
  using off_context_nonnull [OF assms]
  by (simp add: proc_context_from_regs_def setf_at Let_def save_words_def) (simp add: ctx_offsets)

lemma getf_stores:
  assumes "proc_ok p" "proc_ok q" "p \<noteq> q \<longrightarrow> procs_apart p q" "j < 26" "\<forall>(i, v)\<in>set ws. i < 26"
  shows "getf q (4 * of_nat j) (fold (\<lambda>(i, v). setf p (4 * of_nat i) v) ws s) =
    (case (if q = p then map_of (rev ws) j else None) of Some v \<Rightarrow> v | None \<Rightarrow> getf q (4 * of_nat j) s)"
  using assms(5)
proof (induction ws arbitrary: s)
  case (Cons w ws)
  obtain i v where w: "w = (i, v)" by (cases w)
  then have "i < 26" using Cons.prems by auto
  from getf_setf [OF assms(1-3) this assms(4), of v s] show ?case
    using Cons by (auto simp: w map_add_def split: option.splits)
qed simp

lemma context_from_regs:
  assumes "proc_ok p" "proc_ok q" "p \<noteq> q \<longrightarrow> procs_apart p q"
  shows "ctx_words q (proc_context_from_regs (p + off_context) r s) = (if q = p then ctx_of r else ctx_words q s)"
    and "fixed_field j \<Longrightarrow> getf q (4 * of_nat j) (proc_context_from_regs (p + off_context) r s) = getf q (4 * of_nat j) s"
proof -
  have ws: "\<forall>(i, v)\<in>set (save_words p r). i < 26" by (simp add: save_words_def)
  note g = getf_stores [OF assms _ ws, of _ s, folded context_from_regs_stores [OF assms(1)]]
  show "ctx_words q (proc_context_from_regs (p + off_context) r s) = (if q = p then ctx_of r else ctx_words q s)"
    unfolding ctx_words_def upt_context by (simp add: g del: of_nat_numeral) (simp add: save_words_def ctx_of_def)
  show "getf q (4 * of_nat j) (proc_context_from_regs (p + off_context) r s) = getf q (4 * of_nat j) s" if "fixed_field j"
    using that g [of j] by (auto simp: fixed_field_def save_words_def)
qed

lemma context_to_regs:
  assumes "proc_ok p"
  shows "ctx_of (proc_context_to_regs r (p + off_context) s) = ctx_words p s"
    "r_int_no (proc_context_to_regs r (p + off_context) s) = r_int_no r"
    "r_cs (proc_context_to_regs r (p + off_context) s) = getf p (off_context + ctx_cs) s"
  using off_context_nonnull [OF assms]
  by (simp_all add: proc_context_to_regs_def getf_at ctx_of_def ctx_words_def upt_context) (simp_all add: ctx_offsets)

section \<open>Picking the next process\<close>

definition eligible :: "u32 \<Rightarrow> 'a procs_scheme \<Rightarrow> bool" where
  "eligible p s \<longleftrightarrow> p \<noteq> 0 \<and> getf p off_procstate s = procstate_val PROC_RUNNING \<and>
     getf p (off_context + ctx_cs) s AND 3 = 3"

text \<open>The slots in the order of the ring, from the one behind \<open>i\<close> on.\<close>

definition ring :: "nat \<Rightarrow> nat list" where
  "ring i = map (\<lambda>k. (i + k) mod MAXPROC) [1..<MAXPROC]"

lemma find_append: "find P (xs @ ys) = (case find P xs of None \<Rightarrow> find P ys | Some x \<Rightarrow> Some x)"
  by (induction xs) auto

lemma find_skip: "(\<And>x. x \<in> set xs \<Longrightarrow> \<not> P x) \<Longrightarrow> find P (xs @ ys) = find P ys"
  by (induction xs) auto

lemma ring_split:
  assumes "i < MAXPROC"
  shows "ring i = [i + 1..<MAXPROC] @ [0..<i]"
proof (rule nth_equalityI)
  show "length (ring i) = length ([i + 1..<MAXPROC] @ [0..<i])" using assms by (simp add: ring_def)
  fix k
  assume "k < length (ring i)"
  then have k: "k < MAXPROC - 1" by (simp add: ring_def)
  show "ring i ! k = ([i + 1..<MAXPROC] @ [0..<i]) ! k"
  proof (cases "i + 1 + k < MAXPROC")
    case True
    then have "k < MAXPROC - Suc i" by simp
    then show ?thesis using True k by (simp add: ring_def nth_append)
  next
    case False
    then have "(i + Suc k) mod MAXPROC = i + Suc k - MAXPROC" using k assms by (simp add: mod_if)
    moreover have "\<not> k < MAXPROC - Suc i" using False by simp
    ultimately show ?thesis using False k assms by (simp add: ring_def nth_append)
  qed
qed

lemma upt_split: "i < n \<Longrightarrow> [0..<n] = [0..<i] @ i # [Suc i..<n]"
  using upt_add_eq_append [of 0 i "n - i"] upt_conv_Cons [of i n] by simp

lemma sched_slot_unique:
  assumes "sched_inv s" "i < MAXPROC" "j < MAXPROC" "proc_list s ! i = proc_list s ! j" "proc_list s ! i \<noteq> 0"
  shows "i = j"
  using assms unfolding sched_inv_def by (metis linorder_neqE_nat)

lemma find_current:
  assumes "sched_inv s" "i < MAXPROC" "proc_list s ! i = cur" "cur \<noteq> 0"
  shows "find (\<lambda>i. proc_list s ! i = cur) [0..<MAXPROC] = Some i"
proof -
  have "\<not> proc_list s ! j = cur" if "j \<in> set [0..<i]" for j
    using that sched_slot_unique [OF assms(1), of i j] assms(2-4) by auto
  then have "find (\<lambda>i. proc_list s ! i = cur) ([0..<i] @ i # [Suc i..<MAXPROC]) = Some i"
    using assms(3) by (subst find_skip) auto
  then show ?thesis unfolding upt_split [OF assms(2)] .
qed

lemma pick_next_ring:
  assumes "sched_inv s" "i < MAXPROC" "proc_list s ! i = cur" "cur \<noteq> 0"
  shows "pick_next_proc cur s =
    (case find (\<lambda>j. eligible (proc_list s ! j) s) (ring i) of None \<Rightarrow> 0 | Some j \<Rightarrow> proc_list s ! j)"
proof -
  have "candidate cur s j = eligible (proc_list s ! j) s" if "j < MAXPROC" "j \<noteq> i" for j
    using that sched_slot_unique [OF assms(1,2), of j] assms(3,4) by (auto simp: candidate_def eligible_def Let_def)
  then have c: "find (candidate cur s) xs = find (\<lambda>j. eligible (proc_list s ! j) s) xs" if "i \<notin> set xs" "set xs \<subseteq> {..<MAXPROC}" for xs
    using that by (intro find_cong) auto
  have nc: "\<not> candidate cur s i" using assms(3) by (simp add: candidate_def)
  from upt_split [OF assms(2)] have "find (candidate cur s) [0..<MAXPROC] = find (candidate cur s) [0..<i]"
    if "find (candidate cur s) [i + 1..<MAXPROC] = None"
    using nc that by (simp add: find_append split: option.splits)
  then have "pick_next_proc cur s =
      (case find (candidate cur s) ([i + 1..<MAXPROC] @ [0..<i]) of None \<Rightarrow> 0 | Some j \<Rightarrow> proc_list s ! j)"
    by (simp add: pick_next_proc_def find_current [OF assms] Let_def find_append split: option.splits)
  moreover have "i \<notin> set ([i + 1..<MAXPROC] @ [0..<i])" "set ([i + 1..<MAXPROC] @ [0..<i]) \<subseteq> {..<MAXPROC}"
    using assms(2) by auto
  ultimately show ?thesis unfolding ring_split [OF assms(2)] using c by presburger
qed

section \<open>One preemption\<close>

lemma eligible_words:
  "eligible p s \<longleftrightarrow> p \<noteq> 0 \<and> getf p (4 * of_nat 15) s = procstate_val PROC_RUNNING \<and> ctx_words p s ! 9 AND 3 = 3"
  by (simp add: eligible_def off_procstate_def ctx_words_def off_context_def ctx_cs_def)

lemma from_regs_fields [simp]:
  "proc_list (proc_context_from_regs d r s) = proc_list s"
  "current_proc (proc_context_from_regs d r s) = current_proc s"
  "tss (proc_context_from_regs d r s) = tss s"
  "pid_ctr (proc_context_from_regs d r s) = pid_ctr s"
  "cr3 (proc_context_from_regs d r s) = cr3 s"
  by (simp_all add: proc_context_from_regs_def Let_def setf_def)

lemma getf_kmem: "kmem s = kmem s' \<Longrightarrow> getf p off s = getf p off s'"
  by (simp add: getf_def)

lemma ctx_words_kmem: "kmem s = kmem s' \<Longrightarrow> ctx_words p s = ctx_words p s'"
  by (simp add: ctx_words_def getf_def)

text \<open>What saving the current process does to the table.\<close>

lemma sched_invD:
  assumes "sched_inv s"
  shows "current_proc s \<in> live_procs s" "p \<in> live_procs s \<Longrightarrow> proc_ok p"
    "p \<in> live_procs s \<Longrightarrow> q \<in> live_procs s \<Longrightarrow> p \<noteq> q \<longrightarrow> procs_apart p q"
  using assms by (auto simp: sched_inv_def)

lemma save_current:
  assumes "sched_inv s" "q \<in> live_procs s"
  shows "ctx_words q (proc_context_from_regs (current_proc s + off_context) r s) =
      (if q = current_proc s then ctx_of r else ctx_words q s)"
    and "fixed_field j \<Longrightarrow>
      getf q (4 * of_nat j) (proc_context_from_regs (current_proc s + off_context) r s) = getf q (4 * of_nat j) s"
  using context_from_regs [of "current_proc s" q] sched_invD [OF assms(1)] assms(2) by blast+

lemma sched_inv_cong:
  assumes "proc_list s' = proc_list s" "current_proc s' \<in> live_procs s" "sched_inv s"
  shows "sched_inv s'"
  using assms by (simp add: sched_inv_def live_procs_def)

lemma current_slot:
  assumes "sched_inv s"
  obtains i where "i < MAXPROC" "proc_list s ! i = current_proc s" "current_proc s \<noteq> 0"
  using assms by (auto simp: sched_inv_def live_procs_def in_set_conv_nth)

lemma ring_slots: "j \<in> set (ring i) \<Longrightarrow> i < MAXPROC \<Longrightarrow> j < MAXPROC \<and> j \<noteq> i"
  by (auto simp: ring_split)

lemma pick_next_eligible:
  assumes "sched_inv s" "pick_next_proc (current_proc s) s = next" "next \<noteq> 0"
  shows "next \<in> live_procs s" "next \<noteq> current_proc s" "eligible next s"
proof -
  obtain i where i: "i < MAXPROC" "proc_list s ! i = current_proc s" "current_proc s \<noteq> 0"
    using assms(1) by (rule current_slot)
  from pick_next_ring [OF assms(1) i] assms(2,3)
  obtain j where f: "find (\<lambda>j. eligible (proc_list s ! j) s) (ring i) = Some j" and n: "next = proc_list s ! j"
    by (auto split: option.splits)
  then have j: "j \<in> set (ring i)" "eligible next s" by (auto simp: find_Some_iff)
  then show "eligible next s" by simp
  show "next \<noteq> current_proc s"
    using sched_slot_unique [OF assms(1) i(1), of j] ring_slots [OF j(1) i(1)] i n by auto
  show "next \<in> live_procs s"
    using ring_slots [OF j(1) i(1)] assms(1,3) n by (auto simp: live_procs_def sched_inv_def)
qed

lemma eligible_saved:
  assumes "sched_inv s" "p \<in> live_procs s" "p \<noteq> current_proc s"
  shows "eligible p (proc_context_from_regs (current_proc s + off_context) r s) = eligible p s"
  using save_current(1) [OF assms(1,2), where r = r] save_current(2) [OF assms(1,2), where r = r and j = 15] assms(3) unfolding eligible_words by (simp add: fixed_field_def)

lemma pick_next_saved:
  fixes r :: int_regs
  assumes "sched_inv s"
  defines "s1 \<equiv> proc_context_from_regs (current_proc s + off_context) r s"
  shows "pick_next_proc (current_proc s) s1 = pick_next_proc (current_proc s) s"
proof -
  obtain i where i: "i < MAXPROC" "proc_list s ! i = current_proc s" "current_proc s \<noteq> 0"
    using assms(1) by (rule current_slot)
  have l: "proc_list s1 = proc_list s" "current_proc s1 = current_proc s" by (simp_all add: s1_def)
  have inv: "sched_inv s1" using sched_inv_cong [OF l(1)] l assms(1) sched_invD(1) by metis
  have "eligible (proc_list s ! j) s1 = eligible (proc_list s ! j) s" if "j \<in> set (ring i)" for j
  proof (cases "proc_list s ! j = 0")
    case False
    then have "proc_list s ! j \<in> live_procs s" "proc_list s ! j \<noteq> current_proc s"
      using ring_slots [OF that i(1)] sched_slot_unique [OF assms(1) i(1), of j] i assms(1)
      by (auto simp: live_procs_def sched_inv_def)
    then show ?thesis unfolding s1_def by (rule eligible_saved [OF assms(1)])
  qed (simp add: eligible_def)
  then have "find (\<lambda>j. eligible (proc_list s ! j) s1) (ring i) = find (\<lambda>j. eligible (proc_list s ! j) s) (ring i)"
    by (intro find_cong) auto
  then show ?thesis using pick_next_ring [OF inv, of i "current_proc s", unfolded l] pick_next_ring [OF assms(1) i] i l by simp
qed

text \<open>
  The specification of a preemption: the frame of the interrupted process becomes its saved
  context, every other context and every other field stays, and the process picked runs with
  its saved context, in its address space and on its kernel stack.
\<close>

definition preempts :: "int_regs \<Rightarrow> 'a procs_scheme \<Rightarrow> u32 \<Rightarrow> int_regs \<Rightarrow> 'a procs_scheme \<Rightarrow> bool" where
  "preempts r s next r' s' \<longleftrightarrow> proc_list s' = proc_list s \<and>
     (\<forall>q\<in>live_procs s. ctx_words q s' = (if q = current_proc s then ctx_of r else ctx_words q s)) \<and>
     (\<forall>q\<in>live_procs s. \<forall>j. fixed_field j \<longrightarrow> getf q (4 * of_nat j) s' = getf q (4 * of_nat j) s) \<and>
     (if next = 0 then r' = r \<and> current_proc s' = current_proc s \<and> cr3 s' = cr3 s \<and> tss s' = tss s
      else current_proc s' = next \<and> ctx_of r' = ctx_words next s \<and> r_int_no r' = r_int_no r \<and>
        cr3 s' = KV2P (getf next off_page_directory s) \<and>
        tss s' = (tss s)\<lparr>esp0 := getf next off_kstack_top s\<rparr>)"

lemma procs_fields_of_more:
  assumes "tty.more s = tty.more (s' :: 'a procs_scheme)"
  shows "kmem s = kmem s'" "proc_list s = proc_list s'" "current_proc s = current_proc s'" "tss s = tss s'"
    "cr3 s = cr3 s'" "pid_ctr s = pid_ctr s'"
  using assms by (cases s; cases s'; simp)+

lemmas kprint_procs [simp] = procs_fields_of_more [OF kprint_more]

lemma switch_next_preempts:
  assumes "sched_inv s" "r_cs r AND 3 = 3" "scheduler_switch_next r s = (r', s')"
  shows "preempts r s (pick_next_proc (current_proc s) s) r' s' \<and> sched_inv s'"
proof -
  let ?cur = "current_proc s" and ?next = "pick_next_proc (current_proc s) s"
  define s1 where "s1 = proc_context_from_regs (?cur + off_context) r s"
  have l: "proc_list s1 = proc_list s" "current_proc s1 = ?cur" "cr3 s1 = cr3 s" "tss s1 = tss s" by (simp_all add: s1_def)
  have live: "live_procs s1 = live_procs s" by (simp add: live_procs_def l)
  have inv: "sched_inv s1" using sched_inv_cong [OF l(1)] l assms(1) sched_invD(1) by metis
  note save1 = save_current [OF assms(1), where r = r, folded s1_def]
  have sw: "scheduler_switch_process ?next r s1 = (r', s')"
    using assms(2,3) pick_next_saved [OF assms(1), of r] by (simp add: scheduler_switch_next_def Let_def s1_def)
  show ?thesis
  proof (cases "?next = 0")
    case True
    then have "r' = r" "s' = s1" using sw by (auto simp: scheduler_switch_process_def)
    then show ?thesis using True l save1 inv by (simp add: preempts_def)
  next
    case False
    note n = pick_next_eligible [OF assms(1) refl False]
    define s2 where "s2 = proc_context_from_regs (?cur + off_context) r s1"
    note save2 = save_current [OF inv, where r = r, unfolded l live, folded s2_def]
    have s': "kmem s' = kmem s2" "proc_list s' = proc_list s" "current_proc s' = ?next"
      "cr3 s' = KV2P (getf ?next off_page_directory s2)" "tss s' = (tss s)\<lparr>esp0 := getf ?next off_kstack_top s2\<rparr>"
      and r': "r' = proc_context_to_regs r (?next + off_context) s'"
      using sw False n(2) l
      by (auto simp: scheduler_switch_process_def Let_def s2_def tss_set_kernel_stack_def swap_dir_def getf_def)
    have ctx: "ctx_words q s' = (if q = ?cur then ctx_of r else ctx_words q s)" if "q \<in> live_procs s" for q
      using that save1(1) save2(1) ctx_words_kmem [OF s'(1)] by simp
    have fields: "getf q (4 * of_nat j) s2 = getf q (4 * of_nat j) s" if "q \<in> live_procs s" "fixed_field j" for q j
      using that save1(2) save2(2) by simp
    have "getf ?next off_page_directory s2 = getf ?next off_page_directory s"
      "getf ?next off_kstack_top s2 = getf ?next off_kstack_top s"
      using fields [OF n(1), of 1] fields [OF n(1), of 21]
      by (simp_all add: fixed_field_def off_page_directory_def off_kstack_top_def)
    moreover have "sched_inv s'" using sched_inv_cong [OF s'(2)] s'(3) n(1) assms(1) by simp
    moreover have "proc_ok ?next" using sched_invD(2) [OF assms(1) n(1)] .
    ultimately show ?thesis unfolding preempts_def
      using False s' ctx n(1,2) fields getf_kmem [OF s'(1)] context_to_regs(1,2) [of ?next r s'] r' by simp
  qed
qed

section \<open>Sequences of preemptions\<close>

definition user_mode :: "int_regs \<Rightarrow> bool" where
  "user_mode r \<longleftrightarrow> r_cs r AND 3 = 3"

fun preemptions :: "int_regs list \<Rightarrow> 'a procs_scheme \<Rightarrow> 'a procs_scheme" where
  "preemptions [] s = s"
| "preemptions (r # rs) s = preemptions rs (snd (scheduler_switch_next r s))"

lemma preempts_switch:
  assumes "sched_inv s" "user_mode r"
  shows "preempts r s (pick_next_proc (current_proc s) s) (fst (scheduler_switch_next r s)) (snd (scheduler_switch_next r s))"
    "sched_inv (snd (scheduler_switch_next r s))"
  using switch_next_preempts [OF assms(1), of r "fst (scheduler_switch_next r s)" "snd (scheduler_switch_next r s)"]
    assms(2) by (simp_all add: user_mode_def)

lemma preempts_live: "preempts r s next r' s' \<Longrightarrow> live_procs s' = live_procs s"
  by (simp add: preempts_def live_procs_def)

lemma preemptions_keep:
  assumes "sched_inv s" "\<forall>r\<in>set rs. user_mode r" "q \<in> live_procs s"
    and "\<forall>k<length rs. current_proc (preemptions (take k rs) s) \<noteq> q"
  shows "sched_inv (preemptions rs s) \<and> live_procs (preemptions rs s) = live_procs s \<and>
    ctx_words q (preemptions rs s) = ctx_words q s"
  using assms
proof (induction rs arbitrary: s)
  case (Cons r rs)
  let ?s = "snd (scheduler_switch_next r s)"
  have r: "user_mode r" using Cons.prems(2) by simp
  note p = preempts_switch [OF Cons.prems(1) r]
  have "current_proc s \<noteq> q" using Cons.prems(4) by auto
  then have "ctx_words q ?s = ctx_words q s" using p(1) Cons.prems(3) by (simp add: preempts_def)
  moreover note preempts_live [OF p(1)] p(2)
  moreover have "\<forall>k<length rs. current_proc (preemptions (take k rs) ?s) \<noteq> q"
    using Cons.prems(4) by (auto dest: spec [of _ "Suc _"])
  ultimately show ?case using Cons.IH [of ?s] Cons.prems by simp
qed simp

text \<open>The number of slots from the current process to \<open>q\<close> in the order of the ring.\<close>

definition ring_distance :: "nat \<Rightarrow> nat \<Rightarrow> nat" where
  "ring_distance i j = (if i < j then j - i else j + MAXPROC - i)"

lemma find_index_le:
  assumes "find P xs = Some x" "k < length xs" "P (xs ! k)"
  obtains m where "m \<le> k" "xs ! m = x"
proof -
  obtain m where "m < length xs" "x = xs ! m" "\<forall>j<m. \<not> P (xs ! j)"
    using assms(1) by (auto simp: find_Some_iff)
  then show ?thesis using assms(3) by (intro that [of m]) (auto simp: not_le [symmetric])
qed

lemma ring_nth: "k < MAXPROC - 1 \<Longrightarrow> ring i ! k = (i + Suc k) mod MAXPROC"
  by (simp add: ring_def)

lemma ring_distance_nth:
  assumes "i < MAXPROC" "j < MAXPROC" "i \<noteq> j"
  shows "ring_distance i j - 1 < MAXPROC - 1" "ring i ! (ring_distance i j - 1) = j"
  using assms by (auto simp: ring_distance_def ring_nth MAXPROC_def mod_if)

lemma ring_step:
  assumes "i < MAXPROC" "j < MAXPROC" "i \<noteq> j" "m \<le> ring_distance i j - 1"
  defines "k \<equiv> (i + Suc m) mod MAXPROC"
  shows "k < MAXPROC \<and> (k = j \<or> k \<noteq> i \<and> ring_distance k j < ring_distance i j)"
proof (cases "i + Suc m < MAXPROC")
  case True
  then have "k = i + Suc m" by (simp add: k_def)
  then show ?thesis using True assms(2-4) by (auto simp: ring_distance_def split: if_splits)
next
  case False
  then have "k = i + Suc m - MAXPROC"
    using assms(1,2,4) unfolding k_def by (subst mod_if) (auto simp: ring_distance_def split: if_splits)
  then show ?thesis using False assms(1-4) by (auto simp: ring_distance_def split: if_splits)
qed

lemma pick_closer:
  assumes "sched_inv s" "i < MAXPROC" "proc_list s ! i = current_proc s" "j < MAXPROC" "i \<noteq> j"
    and "eligible (proc_list s ! j) s"
  obtains k where "k < MAXPROC" "pick_next_proc (current_proc s) s = proc_list s ! k" "proc_list s ! k \<noteq> 0"
    "k = j \<or> k \<noteq> i \<and> ring_distance k j < ring_distance i j"
proof -
  let ?P = "\<lambda>j. eligible (proc_list s ! j) s"
  have cur: "current_proc s \<noteq> 0" using sched_invD(1) [OF assms(1)] by (simp add: live_procs_def)
  note d = ring_distance_nth [OF assms(2,4,5)]
  have "find ?P (ring i) \<noteq> None"
    using d assms(6) unfolding find_None_iff by (metis ring_def length_map length_upt nth_mem)
  then obtain k where k: "find ?P (ring i) = Some k" by blast
  obtain m where m: "m \<le> ring_distance i j - 1" "ring i ! m = k"
    using find_index_le [OF k, of "ring_distance i j - 1"] d assms(6) by (auto simp: ring_def)
  have "k = (i + Suc m) mod MAXPROC" using m d(1) ring_nth [of m i] by simp
  then have "k < MAXPROC" "k = j \<or> k \<noteq> i \<and> ring_distance k j < ring_distance i j"
    using ring_step [OF assms(2,4,5) m(1)] by auto
  moreover have "pick_next_proc (current_proc s) s = proc_list s ! k"
    using pick_next_ring [OF assms(1-3) cur] k by simp
  moreover have "eligible (proc_list s ! k) s" using k by (auto simp: find_Some_iff)
  ultimately show ?thesis by (intro that [of k]) (auto simp: eligible_def)
qed

lemma eligible_kept:
  assumes "preempts r s next r' s'" "q \<in> live_procs s" "q \<noteq> current_proc s" "eligible q s"
  shows "eligible q s'"
proof -
  have "fixed_field 15" by (simp add: fixed_field_def)
  then have "getf q (4 * of_nat 15) s' = getf q (4 * of_nat 15) s"
    using assms(1,2) unfolding preempts_def by blast
  moreover have "ctx_words q s' = ctx_words q s" using assms(1-3) by (simp add: preempts_def)
  ultimately show ?thesis using assms(4) unfolding eligible_words by (simp only:) simp
qed

lemma scheduled_within:
  assumes "sched_inv s" "\<forall>r\<in>set rs. user_mode r" "i < MAXPROC" "proc_list s ! i = current_proc s"
    and "j < MAXPROC" "eligible (proc_list s ! j) s" "i \<noteq> j \<Longrightarrow> ring_distance i j \<le> length rs"
  shows "\<exists>k\<le>length rs. current_proc (preemptions (take k rs) s) = proc_list s ! j"
  using assms
proof (induction rs arbitrary: s i)
  case Nil
  then have "i = j" by (cases "i = j") (auto simp: ring_distance_def split: if_splits)
  then show ?case using Nil.prems(4) by simp
next
  case (Cons r rs)
  show ?case
  proof (cases "i = j")
    case True
    then show ?thesis using Cons.prems(4) by (intro exI [of _ 0]) simp
  next
    case False
    let ?s = "snd (scheduler_switch_next r s)"
    have r: "user_mode r" using Cons.prems(2) by simp
    note p = preempts_switch [OF Cons.prems(1) r]
    obtain k where k: "k < MAXPROC" "pick_next_proc (current_proc s) s = proc_list s ! k" "proc_list s ! k \<noteq> 0"
      "k = j \<or> k \<noteq> i \<and> ring_distance k j < ring_distance i j"
      using pick_closer [OF Cons.prems(1,3,4,5) False Cons.prems(6)] .
    have l: "proc_list ?s = proc_list s" "current_proc ?s = proc_list s ! k"
      using p(1) k(2,3) by (simp_all add: preempts_def)
    have q: "proc_list s ! j \<in> live_procs s" "proc_list s ! j \<noteq> current_proc s"
      using Cons.prems(1,3-6) False sched_slot_unique [OF Cons.prems(1,3,5)]
      by (auto simp: live_procs_def sched_inv_def eligible_def)
    have "ring_distance k j \<le> length rs" if "k \<noteq> j" using k(4) that Cons.prems(7) [OF False] by simp
    then have "\<exists>m\<le>length rs. current_proc (preemptions (take m rs) ?s) = proc_list ?s ! j"
      using Cons.prems(2,5) l k(1) eligible_kept [OF p(1) q Cons.prems(6)]
      by (intro Cons.IH [OF p(2), of k]) auto
    then obtain m where "m \<le> length rs" "current_proc (preemptions (take m rs) ?s) = proc_list s ! j"
      using l(1) by auto
    then show ?thesis by (intro exI [of _ "Suc m"]) simp
  qed
qed

lemma switch_next_spec:
  "sched_inv s \<Longrightarrow> user_mode r \<Longrightarrow> scheduler_switch_next r s = (r', s') \<Longrightarrow>
   preempts r s (pick_next_proc (current_proc s) s) r' s' \<and> sched_inv s'"
  using switch_next_preempts [of s r r' s'] by (simp add: user_mode_def)

section \<open>A sample table\<close>

text \<open>The kernel in slot 0 and three user processes in slots 1 to 3; process 1 runs.\<close>

definition sample_proc :: "nat \<Rightarrow> nat" where "sample_proc i = 0xC0400000 + 128 * i"

definition sample_words :: "(nat \<times> u32) list" where
  "sample_words = concat (map (\<lambda>i. let p = sample_proc i in
     [(p, of_nat i), (p + 4, 0xC0500000 + of_nat i * 0x2000), (p + 60, 2), (p + 44, if i = 0 then 8 else 0x1B),
      (p + 40, 0x400000 + of_nat i), (p + 84, 0xC0600000 + of_nat i * 0x2000)]) [0..<4])"

definition sample_procs :: procs where
  "sample_procs = \<lparr>terminal_row = 0, terminal_column = 0, terminal_color = 7, terminal_buffer = (\<lambda>_. 0),
     framemap = sample_map, kmem = writes sample_words (\<lambda>_. 0),
     kheap = \<lparr>heap_user = 0, heap_rw = 0, heap_start = 0, heap_end = 0, heap_max_addr = 0, heap_magic = 0\<rparr>,
     kheap_header_array = \<lparr>oa_array = [], oa_size = 0, oa_max_size = 0, oa_predicate = less_predicate\<rparr>,
     kheap_footer_array = \<lparr>oa_array = [], oa_size = 0, oa_max_size = 0, oa_predicate = less_predicate\<rparr>,
     interrupt_handlers = (\<lambda>_. None), kernel_directory = 0xC0104000, cr3 = 0x104000,
     port_log = [], if_flag = True, gdt_entries = (\<lambda>_. \<lparr>limit_low = 0, base_low = 0, base_middle = 0,
       access = 0, granularity = 0, base_high = 0\<rparr>), m_gdt_ptr = \<lparr>gp_limit = 0, gp_base = 0\<rparr>, gdtr = None,
     tss = zero_tss, tr = 0, idt_entries = (\<lambda>_. \<lparr>ie_base_low = 0, ie_selector = 0, ie_reserved = 0,
       ie_flags = 0, ie_base_high = 0\<rparr>), m_idt_ptr = \<lparr>ip_size = 0, ip_offset = 0\<rparr>, idtr = None,
     pid_ctr = 4, current_proc = of_nat (sample_proc 1),
     proc_list = map (of_nat \<circ> sample_proc) [0..<4] @ replicate 60 0\<rparr>"

definition sample_regs :: int_regs where
  "sample_regs = \<lparr>r_edi = 1, r_esi = 2, r_ebp = 3, r_esp = 4, r_ebx = 5, r_edx = 6, r_ecx = 7, r_eax = 8,
     r_int_no = 32, r_err_code = 0, r_eip = 0x400010, r_cs = 0x1B, r_eflags = 0x202, r_useresp = 0xBFFFFF00,
     r_ss = 0x23\<rparr>"

lemma sample_slot:
  assumes "i < 4"
  shows "proc_list sample_procs ! i = of_nat (sample_proc i)" "unat (of_nat (sample_proc i) :: u32) = sample_proc i"
proof -
  show "proc_list sample_procs ! i = of_nat (sample_proc i)" using assms by (simp add: sample_procs_def nth_append)
  have "sample_proc i < 2 ^ 32" using assms by (simp add: sample_proc_def)
  then show "unat (of_nat (sample_proc i) :: u32) = sample_proc i" by (rule unat_of_nat_u32)
qed

lemma sample_empty: "4 \<le> i \<Longrightarrow> i < 64 \<Longrightarrow> proc_list sample_procs ! i = 0"
  by (simp add: sample_procs_def nth_append)

lemma sample_nonzero: "i < 4 \<Longrightarrow> (of_nat (sample_proc i) :: u32) \<noteq> 0"
  using sample_slot(2) [of i] by (metis sample_proc_def add_is_0 unsigned_0 zero_neq_numeral)

lemma sample_live: "live_procs sample_procs = (of_nat \<circ> sample_proc) ` {0..<4}"
proof -
  have "set (proc_list sample_procs) = (of_nat \<circ> sample_proc) ` {0..<4} \<union> {0}"
    by (simp add: sample_procs_def)
  then show ?thesis using sample_nonzero by (auto simp: live_procs_def simp del: of_nat_add)
qed

lemma sample_inj:
  assumes "i < 4" "j < 4" "(of_nat (sample_proc i) :: u32) = of_nat (sample_proc j)"
  shows "i = j"
  using arg_cong [OF assms(3), of unat] sample_slot(2) assms(1,2) by (simp add: sample_proc_def)

lemma sample_sched_inv: "sched_inv sample_procs"
proof -
  have eq: "i = j" if "i < 64" "j < 64" "proc_list sample_procs ! i = proc_list sample_procs ! j" "proc_list sample_procs ! i \<noteq> 0" for i j
  proof -
    have "i < 4" "j < 4" using that sample_empty by (metis not_le)+
    then show ?thesis using that(3) sample_inj by (simp add: sample_slot)
  qed
  have ok: "proc_ok (of_nat (sample_proc i))" if "i < 4" for i
    using that sample_slot(2) [OF that] sample_nonzero [OF that] by (auto simp: proc_ok_def sample_proc_def)
  have ap: "procs_apart (of_nat (sample_proc i)) (of_nat (sample_proc j))" if "i < 4" "j < 4" "i \<noteq> j" for i j
    using that sample_slot(2) by (auto simp: procs_apart_def sample_proc_def)
  have "\<forall>i<64. \<forall>j<i. proc_list sample_procs ! i = proc_list sample_procs ! j \<longrightarrow> proc_list sample_procs ! i = 0"
    using eq by (metis less_irrefl less_trans)
  moreover have "\<forall>p\<in>live_procs sample_procs. \<forall>q\<in>live_procs sample_procs. p \<noteq> q \<longrightarrow> procs_apart p q"
  proof (intro ballI impI)
    fix p q
    assume "p \<in> live_procs sample_procs" "q \<in> live_procs sample_procs" "p \<noteq> q"
    then obtain i j where "i < 4" "j < 4" "p = of_nat (sample_proc i)" "q = of_nat (sample_proc j)" "i \<noteq> j"
      unfolding sample_live by fastforce
    then show "procs_apart p q" using ap by simp
  qed
  moreover have "\<forall>p\<in>live_procs sample_procs. proc_ok p" using ok unfolding sample_live by auto
  moreover have "length (proc_list sample_procs) = 64" "current_proc sample_procs \<in> live_procs sample_procs"
    unfolding sample_live by (simp_all add: sample_procs_def)
  ultimately show ?thesis by (simp add: sched_inv_def MAXPROC_def)
qed

lemma getf_word: "getf (of_nat p) (of_nat n) s = word_at (kmem s) (p + n)"
  by (simp add: getf_def word_at_def)

lemma sample_word:
  assumes "4 dvd q" "q < 2 ^ 32"
  shows "word_at (kmem sample_procs) q = (case map_of (rev sample_words) q of None \<Rightarrow> 0 | Some v \<Rightarrow> v)"
proof -
  have "\<forall>(p, v)\<in>set sample_words. 4 dvd p \<and> p < 2 ^ 32"
    by (simp add: sample_words_def sample_proc_def Let_def)
  from word_at_writes [OF this assms, of "\<lambda>_. 0"] show ?thesis
    by (simp add: sample_procs_def word_at_def load32_def split: option.splits)
qed

lemma sample_eligible:
  assumes "i \<in> {1, 2, 3}"
  shows "eligible (of_nat (sample_proc i)) sample_procs"
proof -
  have "word_at (kmem sample_procs) (sample_proc i + 60) = 2" "word_at (kmem sample_procs) (sample_proc i + 44) = 0x1B"
    using assms by (auto simp: sample_word sample_words_def sample_proc_def upt_rec Let_def)
  then show ?thesis
    using sample_nonzero [of i] assms getf_word [of "sample_proc i" 60 sample_procs] getf_word [of "sample_proc i" 44 sample_procs]
    by (auto simp: eligible_def off_procstate_def off_context_def ctx_cs_def)
qed

lemma sample_pick: "pick_next_proc (of_nat (sample_proc 1)) sample_procs = of_nat (sample_proc 2)"
proof -
  have "ring 1 = 2 # map (\<lambda>k. (1 + k) mod MAXPROC) [2..<MAXPROC]" by (simp add: ring_def MAXPROC_def upt_conv_Cons)
  then show ?thesis
    using pick_next_ring [OF sample_sched_inv, of 1 "of_nat (sample_proc 1)"] sample_eligible [of 2]
      sample_slot(1) [of 1] sample_slot(1) [of 2] sample_nonzero [of 1]
    by (simp add: MAXPROC_def)
qed

lemma preemptions_snoc: "preemptions (rs @ [r]) s = snd (scheduler_switch_next r (preemptions rs s))"
  by (induction rs arbitrary: s) simp_all

lemma sample_return:
  fixes s1
  defines "s1 \<equiv> snd (scheduler_switch_next sample_regs sample_procs)"
  obtains n where "current_proc s1 \<noteq> current_proc sample_procs"
    "\<forall>k\<le>n. current_proc (preemptions (replicate k sample_regs) s1) \<noteq> current_proc sample_procs"
    "current_proc (preemptions (replicate (Suc n) sample_regs) s1) = current_proc sample_procs"
proof -
  let ?q = "current_proc sample_procs"
  have u: "user_mode sample_regs" by (simp add: user_mode_def sample_regs_def)
  have cur: "?q = of_nat (sample_proc 1)" by (simp add: sample_procs_def)
  note p = preempts_switch [OF sample_sched_inv u, folded s1_def]
  have n: "pick_next_proc ?q sample_procs = of_nat (sample_proc 2)" unfolding cur by (rule sample_pick)
  have c: "current_proc s1 = of_nat (sample_proc 2)" "proc_list s1 = proc_list sample_procs"
    using p(1) n sample_nonzero [of 2] by (simp_all add: preempts_def)
  then have ne: "current_proc s1 \<noteq> ?q" using sample_inj [of 2 1] cur by auto
  have q: "?q \<in> live_procs sample_procs" using sched_invD(1) [OF sample_sched_inv] .
  have "fixed_field 15" by (simp add: fixed_field_def)
  then have "getf ?q (4 * of_nat 15) s1 = getf ?q (4 * of_nat 15) sample_procs"
    using p(1) q unfolding preempts_def by blast
  moreover have "ctx_words ?q s1 = ctx_of sample_regs" using p(1) q by (simp add: preempts_def)
  ultimately have el: "eligible ?q s1"
    using sample_eligible [of 1] unfolding cur eligible_words by (simp only:) (simp add: ctx_of_def sample_regs_def)
  let ?P = "\<lambda>k. current_proc (preemptions (replicate k sample_regs) s1) = ?q"
  have "\<exists>k\<le>length (replicate 63 sample_regs). current_proc (preemptions (take k (replicate 63 sample_regs)) s1) = proc_list s1 ! 1"
    using u c el sample_slot(1) cur by (intro scheduled_within [OF p(2), where i = 2]) (auto simp: MAXPROC_def ring_distance_def)
  then have "\<exists>k. ?P k" using c(2) sample_slot(1) [of 1] cur by (auto simp: min_def)
  then have k: "?P (LEAST k. ?P k)" by (rule LeastI_ex)
  moreover from ne have "(LEAST k. ?P k) \<noteq> 0" using k by (metis preemptions.simps(1) replicate_0)
  ultimately obtain m where "(LEAST k. ?P k) = Suc m" "?P (Suc m)" by (metis not0_implies_Suc)
  moreover then have "\<not> ?P k" if "k \<le> m" for k using not_less_Least [of k ?P] that by simp
  ultimately show ?thesis using ne by (intro that [of m]) auto
qed

section \<open>Properties\<close>

text \<open>
  C21: \<^verbatim>\<open>pick_next_proc\<close> is round robin: from the slot of the current process on, around the table, it
  returns the first other process that is running and in user mode, and NULL when there is none.
\<close>

theorem pick_next_round_robin:
  assumes "sched_inv s" "i < MAXPROC" "proc_list s ! i = current_proc s"
  shows "pick_next_proc (current_proc s) s =
    (case find (\<lambda>j. eligible (proc_list s ! j) s) (map (\<lambda>k. (i + k) mod MAXPROC) [1..<MAXPROC]) of
       None \<Rightarrow> 0 | Some j \<Rightarrow> proc_list s ! j)"
  using pick_next_ring [OF assms] sched_invD(1) [OF assms(1)] by (simp add: live_procs_def ring_def)

theorem pick_next_round_robin_witness:
  "pick_next_proc (of_nat (sample_proc 1)) sample_procs = of_nat (sample_proc 2)"
proof -
  have "current_proc sample_procs = of_nat (sample_proc 1)" by (simp add: sample_procs_def)
  moreover have "[1..<MAXPROC] = 1 # [2..<MAXPROC]" by (simp add: MAXPROC_def upt_conv_Cons)
  ultimately show ?thesis
    using pick_next_round_robin [OF sample_sched_inv, of 1] sample_eligible [of 2] sample_slot(1) [of 1] sample_slot(1) [of 2]
    by (simp add: MAXPROC_def numeral_2_eq_2 del: upt_rec_numeral)
qed

text \<open>
  C19: a preemption in user mode saves the interrupted frame as the context of the current process,
  leaves the contexts and all other fields of the other processes alone, and continues with the
  saved context, the address space and the kernel stack of the process picked; with nobody to
  switch to, the frame and the address space stay. The table stays well formed.
\<close>

theorem scheduler_switch_next_correct:
  assumes "sched_inv s" "user_mode r" "scheduler_switch_next r s = (r', s')"
  shows "preempts r s (pick_next_proc (current_proc s) s) r' s' \<and> sched_inv s'"
  using switch_next_spec [OF assms] .

theorem scheduler_switch_next_correct_witness:
  "\<exists>r' s'. scheduler_switch_next sample_regs sample_procs = (r', s') \<and> sched_inv s' \<and>
    ctx_words (of_nat (sample_proc 1)) s' = ctx_of sample_regs \<and>
    ctx_words (of_nat (sample_proc 3)) s' = ctx_words (of_nat (sample_proc 3)) sample_procs"
proof -
  obtain r' s' where sw: "scheduler_switch_next sample_regs sample_procs = (r', s')"
    by (cases "scheduler_switch_next sample_regs sample_procs")
  have "user_mode sample_regs" by (simp add: user_mode_def sample_regs_def)
  from scheduler_switch_next_correct [OF sample_sched_inv this sw] have "sched_inv s'"
    "\<forall>q\<in>live_procs sample_procs. ctx_words q s' = (if q = of_nat (sample_proc 1) then ctx_of sample_regs else ctx_words q sample_procs)"
    by (simp_all add: preempts_def sample_procs_def)
  moreover have "(of_nat (sample_proc 3) :: u32) \<noteq> of_nat (sample_proc 1)" using sample_inj [of 3 1] by auto
  ultimately show ?thesis using sw by (intro exI [of _ r'] exI [of _ s']) (simp add: sample_live)
qed

text \<open>
  C11: a process that is preempted resumes with exactly the registers it was interrupted with,
  whatever other processes ran in between and however often they were preempted.
\<close>

theorem preempted_process_resumes:
  assumes "sched_inv s" "user_mode r" "scheduler_switch_next r s = (r1, s1)" "current_proc s1 \<noteq> current_proc s"
    and "\<forall>r\<in>set rs. user_mode r" "\<forall>k\<le>length rs. current_proc (preemptions (take k rs) s1) \<noteq> current_proc s"
    and "user_mode r2" "scheduler_switch_next r2 (preemptions rs s1) = (r', s')" "current_proc s' = current_proc s"
  shows "ctx_of r' = ctx_of r \<and> cr3 s' = KV2P (getf (current_proc s) off_page_directory (preemptions rs s1))"
proof -
  let ?q = "current_proc s" and ?s = "preemptions rs s1"
  note p1 = switch_next_spec [OF assms(1-3)]
  have q: "?q \<in> live_procs s1" using sched_invD(1) [OF assms(1)] preempts_live p1 by blast
  have k: "sched_inv ?s" "live_procs ?s = live_procs s1" "ctx_words ?q ?s = ctx_words ?q s1"
    using preemptions_keep [OF _ assms(5) q] p1 assms(6) by auto
  have p2: "preempts r2 ?s (pick_next_proc (current_proc ?s) ?s) r' s'"
    using switch_next_spec [OF k(1) assms(7,8)] by simp
  have "current_proc ?s \<noteq> ?q" using assms(6) by (metis order_refl take_all)
  then have "ctx_of r' = ctx_words ?q ?s" "cr3 s' = KV2P (getf ?q off_page_directory ?s)"
    using p2 assms(9) by (auto simp: preempts_def split: if_splits)
  moreover have "ctx_words ?q s1 = ctx_of r" using p1 sched_invD(1) [OF assms(1)] by (auto simp: preempts_def)
  ultimately show ?thesis using k(3) by simp
qed

theorem preempted_process_resumes_witness:
  "\<exists>rs r' s'. scheduler_switch_next sample_regs (preemptions rs (snd (scheduler_switch_next sample_regs sample_procs))) = (r', s') \<and>
    current_proc s' = current_proc sample_procs \<and> ctx_of r' = ctx_of sample_regs"
proof -
  let ?q = "current_proc sample_procs" and ?s1 = "snd (scheduler_switch_next sample_regs sample_procs)"
  have u: "user_mode sample_regs" by (simp add: user_mode_def sample_regs_def)
  obtain n where n: "current_proc ?s1 \<noteq> ?q" "\<forall>k\<le>n. current_proc (preemptions (replicate k sample_regs) ?s1) \<noteq> ?q"
    "current_proc (preemptions (replicate (Suc n) sample_regs) ?s1) = ?q"
    by (rule sample_return)
  let ?s = "preemptions (replicate n sample_regs) ?s1"
  have "current_proc (snd (scheduler_switch_next sample_regs ?s)) = ?q"
    using n(3) by (simp only: replicate_Suc replicate_append_same [symmetric] preemptions_snoc)
  moreover have "\<forall>k\<le>length (replicate n sample_regs). current_proc (preemptions (take k (replicate n sample_regs)) ?s1) \<noteq> ?q"
    using n(2) by simp
  ultimately have "ctx_of (fst (scheduler_switch_next sample_regs ?s)) = ctx_of sample_regs"
    using preempted_process_resumes [OF sample_sched_inv u surjective_pairing n(1), of "replicate n sample_regs" sample_regs] u
    by (metis in_set_replicate prod.collapse)
  then show ?thesis
    using \<open>current_proc (snd (scheduler_switch_next sample_regs ?s)) = ?q\<close> by (metis prod.collapse)
qed

text \<open>
  No running user process starves: within 63 preemptions in user mode, whatever frames they
  interrupt, every process that is running in user mode becomes the current one.
\<close>

lemma scheduler_fair:
  assumes "sched_inv s" "q \<in> live_procs s" "eligible q s" "\<forall>r\<in>set rs. user_mode r" "length rs = 63"
  shows "\<exists>k\<le>63. current_proc (preemptions (take k rs) s) = q"
proof -
  obtain i where i: "i < MAXPROC" "proc_list s ! i = current_proc s" using assms(1) by (rule current_slot)
  obtain j where j: "j < MAXPROC" "proc_list s ! j = q"
    using assms(1,2) by (auto simp: live_procs_def sched_inv_def in_set_conv_nth)
  have "ring_distance i j \<le> length rs" if "i \<noteq> j"
    using that i(1) j(1) assms(5) by (auto simp: ring_distance_def MAXPROC_def)
  then show ?thesis using scheduled_within [OF assms(1,4) i j(1)] assms(3,5) j(2) by auto
qed

end
