(* ===== verification/Kheap_Refine.thy ===== *)
theory Kheap_Refine
  imports Kheap
begin

text \<open>
  The kernel heap implements its contract: \<^verbatim>\<open>alloc\<close> is first fit with splitting on the list of
  blocks, \<^verbatim>\<open>free\<close> is release with coalescing, \<^verbatim>\<open>kheap_init\<close> sets up one free block. The last
  section shows what happens to blocks of fewer than 96 bytes.
\<close>

section \<open>Allocation refines first fit\<close>

text \<open>
  The contract of \<^verbatim>\<open>alloc\<close>: the first free block that is large enough is taken, whole if less than
  96 bytes would remain beside the request, and split otherwise.
\<close>

fun spec_alloc :: "nat \<Rightarrow> nat \<Rightarrow> blocks \<Rightarrow> (nat \<times> blocks) option" where
  "spec_alloc sz a [] = None"
| "spec_alloc sz a ((n, u) # bs) =
     (if \<not> u \<and> sz \<le> n
      then Some (a + 16, if n \<le> sz + 96 then (n, True) # bs
                         else (sz, True) # (n - sz - 32, False) # bs)
      else map_option (\<lambda>(p, bs'). (p, (n, u) # bs')) (spec_alloc sz (a + n + 32) bs))"

text \<open>The first block that fits is not one of those for which the size test wraps.\<close>

fun fit_ok :: "nat \<Rightarrow> blocks \<Rightarrow> bool" where
  "fit_ok sz [] = True"
| "fit_ok sz ((n, u) # bs) = (if \<not> u \<and> sz \<le> n then 96 \<le> n else fit_ok sz bs)"

fun used_payload :: "nat \<Rightarrow> blocks \<Rightarrow> nat set" where
  "used_payload a [] = {}"
| "used_payload a ((n, u) # bs) = (if u then {a + 16..<a + 16 + n} else {}) \<union> used_payload (a + n + 32) bs"

text \<open>The payload of blocks in use and all memory outside the heap keep their bytes.\<close>

definition payload_kept :: "nat \<Rightarrow> blocks \<Rightarrow> mem \<Rightarrow> mem \<Rightarrow> bool" where
  "payload_kept a bs m m' \<longleftrightarrow> (\<forall>k\<in>used_payload a bs. m' (of_nat k) = m (of_nat k)) \<and>
     same_outside a (block_end a bs) m m'"

lemma used_payload_append [simp]: "used_payload a (xs @ ys) = used_payload a xs \<union> used_payload (block_end a xs) ys"
  by (induction a xs rule: block_end.induct) auto

lemma used_payload_bounds: "k \<in> used_payload a bs \<Longrightarrow> a + 16 \<le> k \<and> k + 16 < block_end a bs"
proof (induction a bs rule: used_payload.induct)
  case (2 a n u bs)
  have "a + n + 32 \<le> block_end (a + n + 32) bs" by simp
  with 2 show ?case by (auto simp del: block_end_le split: if_splits)
qed simp

lemma payload_kept_outside:
  assumes "same_outside (block_end a xs) (block_end (block_end a xs) bs) m m'"
    and "block_end a (xs @ bs @ ys) < 2 ^ 32" "used_payload (block_end a xs) bs = {}"
  shows "payload_kept a (xs @ bs @ ys) m m'"
proof -
  let ?b = "block_end a xs"
  let ?e = "block_end ?b bs"
  have e: "block_end ?e ys < 2 ^ 32" using assms(2) by simp
  have b: "?b < 2 ^ 32" using e by (rule le_less_trans [OF order_trans [OF block_end_le block_end_le]])
  have "m' (of_nat k) = m (of_nat k)" if "k \<in> used_payload a xs \<union> used_payload ?e ys" for k
  proof -
    have "k < 2 ^ 32 \<and> (k < ?b \<or> ?e \<le> k)"
      using that used_payload_bounds [of k a xs] used_payload_bounds [of k ?e ys] e b by auto
    then show ?thesis using assms(1) by (auto simp: same_outside_def)
  qed
  moreover have "same_outside a (block_end ?e ys) m m'"
    using assms(1) block_end_le [of a xs] block_end_le [of ?e ys] unfolding same_outside_def by (meson le_trans less_le_trans)
  ultimately show ?thesis using assms(3) by (simp add: payload_kept_def)
qed

text \<open>Only the heap's memory and its two arrays change.\<close>

definition heap_only :: "'a kmm_scheme \<Rightarrow> 'a kmm_scheme \<Rightarrow> bool" where
  "heap_only s s' \<longleftrightarrow> s' = s\<lparr>kmem := kmem s', kheap_header_array := kheap_header_array s',
     kheap_footer_array := kheap_footer_array s'\<rparr>"

lemma set_used_inv:
  fixes v :: bool
  assumes "heap_inv s a (xs @ (n, u) # ys)"
  defines "s' \<equiv> set_header_used (of_nat (block_end a xs)) (of_bool v) s"
  shows "heap_inv s' a (xs @ (n, v) # ys)" "heap_only s s'"
    "same_outside (block_end a xs) (block_end a xs + n + 32) (kmem s) (kmem s')"
proof -
  define b where "b = block_end a xs"
  note blk = heap_inv_block [OF assms(1), folded b_def]
  have al: "4 dvd b" "4 dvd n" using blk(1,2) by (auto elim: dvd_trans [rotated])
  have s': "s' = s\<lparr>kmem := writes [(b + 8, of_bool v)] (kmem s)\<rparr>"
    by (simp add: s'_def b_def block_access)
  have out: "same_outside b (b + n + 32) (kmem s) (kmem s')"
    using blk(4) unfolding s' by (auto intro: same_outside_writes)
  have "word_at (kmem s') q = (if q = b + 8 then of_bool v else word_at (kmem s) q)" if "4 dvd q" "q < 2 ^ 32" for q
    using word_at_writes [of "[(b + 8, of_bool v)]" q "kmem s"] that al blk(4) by (simp add: s')
  then have "block_at (kmem s') b n v" using blk(3,4) al by (simp add: block_at_def)
  moreover have "holds_addrs (kheap_header_array s') (headers a (xs @ [(n, v)] @ ys))"
    "holds_addrs (kheap_footer_array s') (footers a (xs @ [(n, v)] @ ys))"
    using assms(1) by (simp_all add: heap_inv_arrays s')
  ultimately have "heap_inv s' a (xs @ [(n, v)] @ ys)"
    by (intro heap_inv_replace [where bs = "[(n, u)]" and s = s and s' = s'])
      (use assms(1) out blk(2) in \<open>simp_all add: b_def s'\<close>)
  then show "heap_inv s' a (xs @ (n, v) # ys)" by simp
  show "heap_only s s'" by (simp add: heap_only_def s')
  show "same_outside (block_end a xs) (block_end a xs + n + 32) (kmem s) (kmem s')" using out by (simp add: b_def)
qed

text \<open>The 32-bit size test of \<^verbatim>\<open>alloc_from_block\<close>, when it does not wrap.\<close>

lemma size_test:
  assumes "96 \<le> n" "n < 2 ^ 32" "sz < 2 ^ 32"
  shows "((of_nat n :: u32) - 16 - 16 - 64 \<le> of_nat sz) = (n \<le> sz + 96)"
proof -
  have "(of_nat n :: u32) - 16 - 16 - 64 = of_nat (n - 96)" using assms(1) by (simp add: of_nat_diff)
  then show ?thesis using assms by (auto simp: word_le_nat_alt unat_of_nat_u32 simp del: of_nat_diff)
qed

lemma alloc_whole:
  assumes "heap_inv s a (xs @ (n, False) # ys)" "n \<le> sz + 96" "96 \<le> n" "sz < 2 ^ 32"
  shows "\<exists>s'. alloc_from_block (of_nat (block_end a xs)) (of_nat (block_end a xs + n + 16)) (of_nat sz) s =
      Some (of_nat (block_end a xs), s') \<and> heap_inv s' a (xs @ (n, True) # ys) \<and>
    heap_only s s' \<and> same_outside (block_end a xs) (block_end a xs + n + 32) (kmem s) (kmem s')"
proof -
  note blk = heap_inv_block [OF assms(1)]
  have "header_size (of_nat (block_end a xs)) s = of_nat n" using blk(3) by (simp add: header_reads block_at_def)
  then have "alloc_from_block (of_nat (block_end a xs)) (of_nat (block_end a xs + n + 16)) (of_nat sz) s =
      Some (of_nat (block_end a xs), set_header_used (of_nat (block_end a xs)) (of_bool True) s)"
    using size_test [of n sz] assms(2-4) blk(4) by (simp add: alloc_from_block_def)
  then show ?thesis using set_used_inv [OF assms(1), of True] by blast
qed

lemma alloc_split:
  assumes "heap_inv s a (xs @ (n, False) # ys)" "sz + 96 < n" "16 dvd sz" "length (xs @ (n, False) # ys) < 4096"
  shows "\<exists>s'. alloc_from_block (of_nat (block_end a xs)) (of_nat (block_end a xs + n + 16)) (of_nat sz) s =
      Some (of_nat (block_end a xs), s') \<and> heap_inv s' a (xs @ (sz, True) # (n - sz - 32, False) # ys) \<and>
    heap_only s s' \<and> same_outside (block_end a xs) (block_end a xs + n + 32) (kmem s) (kmem s')"
proof -
  define b where "b = block_end a xs"
  note blk = heap_inv_block [OF assms(1), folded b_def]
  let ?cs = "[(sz, True), (n - sz - 32, False)]"
  have cs: "b + sz + 32 + (n - sz - 32) = b + n" using assms(2) by simp
  obtain m' where m': "split_block (of_nat b) (of_nat (b + n + 16)) (of_nat sz) s = s\<lparr>kmem := m'\<rparr>"
    "block_at m' b sz True" "block_at m' (b + sz + 32) (n - sz - 32) False" "same_outside b (b + n + 32) (kmem s) m'"
    using split_block_at [OF blk(3,1,2) assms(3,2) blk(4)] by blast
  have inv: "holds_addrs (kheap_header_array s) (headers a (xs @ [(n, False)]) @ headers (b + n + 32) ys)"
    "holds_addrs (kheap_footer_array s) (footers a xs @ (b + n + 16) # footers (b + n + 32) ys)"
    "block_end (b + n + 32) ys < 2 ^ 32"
    using assms(1) by (simp_all add: heap_inv_arrays b_def)
  have "\<exists>i oa'. insert_ordered_array (kheap_header_array s) (of_nat (b + sz + 32)) = Some (i, oa') \<and>
      holds_addrs oa' (headers a (xs @ [(n, False)]) @ (b + sz + 32) # headers (b + n + 32) ys)"
    using inv assms(2,4) blk(4) headers_bounds [of _ a xs] headers_bounds [of _ "b + n + 32" ys]
    by (intro holds_insert) (fastforce simp: b_def)+
  moreover have "\<exists>i oa'. insert_ordered_array (kheap_footer_array s) (of_nat (b + sz + 16)) = Some (i, oa') \<and>
      holds_addrs oa' (footers a xs @ (b + sz + 16) # (b + n + 16) # footers (b + n + 32) ys)"
    using inv assms(2,4) blk(4) footers_bounds [of _ a xs] footers_bounds [of _ "b + n + 32" ys]
    by (intro holds_insert) (fastforce simp: b_def)+
  ultimately obtain i oa j oa' where
    ins: "insert_ordered_array (kheap_header_array s) (of_nat (b + sz + 32)) = Some (i, oa)"
      "holds_addrs oa (headers a (xs @ ?cs @ ys))"
      "insert_ordered_array (kheap_footer_array s) (of_nat (b + sz + 16)) = Some (j, oa')"
      "holds_addrs oa' (footers a (xs @ ?cs @ ys))"
    using cs by (auto simp: b_def)
  let ?s = "s\<lparr>kmem := m', kheap_header_array := oa, kheap_footer_array := oa'\<rparr>"
  have size: "\<not> (of_nat n :: u32) - 16 - 16 - 64 \<le> of_nat sz"
    using size_test [of n sz] assms(2) blk(4) by simp
  have addr: "of_nat b + of_nat sz + 16 = (of_nat (b + sz + 16) :: u32)"
    "(of_nat (b + sz + 16) :: u32) + 16 = of_nat (b + sz + 32)" by simp_all
  have "word_at (kmem s) b = of_nat n" using blk(3) by (simp add: block_at_def)
  then have res: "alloc_from_block (of_nat b) (of_nat (b + n + 16)) (of_nat sz) s = Some (of_nat b, ?s)"
    unfolding alloc_from_block_def Let_def addr header_reads m'(1) insert_header_def insert_footer_def
    using size ins(1,3) by (simp del: of_nat_add)
  have "heap_inv ?s a (xs @ ?cs @ ys)"
    by (rule heap_inv_replace [where bs = "[(n, False)]" and s = s])
      (use assms(1-3) m' ins blk(2) cs in \<open>simp_all add: b_def dvd_diff_nat\<close>)
  then show ?thesis using res m'(4) unfolding b_def by (auto simp: heap_only_def)
qed

lemma alloc_block:
  assumes "heap_inv s a (xs @ (n, False) # ys)" "sz \<le> n" "96 \<le> n" "16 dvd sz" "length (xs @ (n, False) # ys) < 4096"
  shows "\<exists>s'. alloc_from_block (of_nat (block_end a xs)) (of_nat (block_end a xs + n + 16)) (of_nat sz) s =
      Some (of_nat (block_end a xs), s') \<and> heap_only s s' \<and>
    heap_inv s' a (xs @ (if n \<le> sz + 96 then (n, True) # ys else (sz, True) # (n - sz - 32, False) # ys)) \<and>
    payload_kept a (xs @ (n, False) # ys) (kmem s) (kmem s')"
proof -
  have n: "n < 2 ^ 32" using heap_inv_block(4) [OF assms(1)] by simp
  have kept: "payload_kept a (xs @ (n, False) # ys) (kmem s) m'"
    if "same_outside (block_end a xs) (block_end a xs + n + 32) (kmem s) m'" for m'
    using payload_kept_outside [of a xs "[(n, False)]" "kmem s" m' ys] that assms(1)
    by (simp add: heap_inv_arrays)
  show ?thesis
    using alloc_whole [OF assms(1) _ assms(3)] alloc_split [OF assms(1) _ assms(4,5)] kept assms(2) n
    by (cases "n \<le> sz + 96") (auto, fastforce+)
qed

text \<open>One round of the search: a block that is used or too small is passed over.\<close>

lemma alloc_search_step:
  assumes "heap_inv s a (xs @ (n, u) # ys)" "sz < 2 ^ 32"
  shows "alloc_search (of_nat sz) [length xs..<length (xs @ (n, u) # ys)] s =
    (if \<not> u \<and> sz \<le> n
     then map_option (\<lambda>(h, s). (h + 16, s))
            (alloc_from_block (of_nat (block_end a xs)) (of_nat (block_end a xs + n + 16)) (of_nat sz) s)
     else alloc_search (of_nat sz) [length (xs @ [(n, u)])..<length ((xs @ [(n, u)]) @ ys)] s)"
proof -
  note blk = heap_inv_block [OF assms(1)] and get = heap_inv_get [OF assms(1)]
  have upt: "[length xs..<length (xs @ (n, u) # ys)] =
      length xs # [length (xs @ [(n, u)])..<length ((xs @ [(n, u)]) @ ys)]"
    by (subst upt_conv_Cons) simp_all
  have words: "header_used (of_nat (block_end a xs)) s = of_bool u" "header_size (of_nat (block_end a xs)) s = of_nat n"
    using blk(3) by (simp_all add: header_reads block_at_def)
  have less: "((of_nat n :: u32) < of_nat sz) = (n < sz)" using blk(4) assms(2) by (simp add: of_nat_less_u32)
  then show ?thesis
    unfolding upt
    by (auto simp: get words kmm_checks_ok [OF blk(3)] linorder_not_less [symmetric] simp del: of_nat_add)
qed

lemma alloc_search_skip:
  assumes "heap_inv s a (xs @ zs @ ys)" "sz < 2 ^ 32" "spec_alloc sz (block_end a xs) zs = None"
  shows "alloc_search (of_nat sz) [length xs..<length (xs @ zs @ ys)] s =
    alloc_search (of_nat sz) [length (xs @ zs)..<length ((xs @ zs) @ ys)] s"
  using assms
proof (induction zs arbitrary: xs)
  case (Cons z zs)
  obtain n u where z: "z = (n, u)" by fastforce
  with Cons.prems(3) have nofit: "\<not> (\<not> u \<and> sz \<le> n)" and rest: "spec_alloc sz (block_end a (xs @ [z])) zs = None"
    by (auto split: if_splits)
  have inv: "heap_inv s a (xs @ (n, u) # zs @ ys)" "heap_inv s a ((xs @ [z]) @ zs @ ys)"
    using Cons.prems(1) z by simp_all
  have "alloc_search (of_nat sz) [length xs..<length (xs @ (z # zs) @ ys)] s =
      alloc_search (of_nat sz) [length (xs @ [z])..<length ((xs @ [z]) @ zs @ ys)] s"
    using alloc_search_step [OF inv(1) Cons.prems(2)] unfolding if_not_P [OF nofit] z append_Cons .
  also have "\<dots> = alloc_search (of_nat sz) [length ((xs @ [z]) @ zs)..<length (((xs @ [z]) @ zs) @ ys)] s"
    by (rule Cons.IH [OF inv(2) Cons.prems(2) rest])
  finally show ?case by simp
qed simp

lemma alloc_search_spec:
  assumes "heap_inv s a (xs @ ys)" "fit_ok sz ys" "16 dvd sz" "sz < 2 ^ 32" "length (xs @ ys) < 4096"
  shows "case spec_alloc sz (block_end a xs) ys of
      None \<Rightarrow> alloc_search (of_nat sz) [length xs..<length (xs @ ys)] s = Some (0, s)
    | Some (p, ys') \<Rightarrow> \<exists>s'. alloc_search (of_nat sz) [length xs..<length (xs @ ys)] s = Some (of_nat p, s') \<and>
        heap_only s s' \<and> heap_inv s' a (xs @ ys') \<and> payload_kept a (xs @ ys) (kmem s) (kmem s')"
  using assms
proof (induction ys arbitrary: xs)
  case (Cons b ys)
  obtain n u where b: "b = (n, u)" by fastforce
  have ptr: "(of_nat (block_end a xs) :: u32) + 16 = of_nat (block_end a xs + 16)" by simp
  note step = alloc_search_step [OF Cons.prems(1) [unfolded b] Cons.prems(4), folded b]
  show ?case
  proof (cases "\<not> u \<and> sz \<le> n")
    case True
    then have "heap_inv s a (xs @ (n, False) # ys)" "96 \<le> n" "length (xs @ (n, False) # ys) < 4096"
      using Cons.prems b by auto
    from alloc_block [OF this(1) _ this(2) Cons.prems(3) this(3)] True b step ptr
    show ?thesis by (auto simp del: of_nat_add)
  next
    case False
    moreover have "fit_ok sz ys" using Cons.prems(2) False b by (auto split: if_splits)
    ultimately show ?thesis
      using step Cons.IH [of "xs @ [b]"] Cons.prems by (auto simp: b split: option.splits)
  qed
qed simp

definition round16 :: "nat \<Rightarrow> nat" where
  "round16 n = (n + 15) div 16 * 16"

lemma round16_word:
  "(if sz mod 16 \<noteq> 0 then sz + (16 - sz mod 16) else sz) = (of_nat (round16 (unat sz)) :: u32)"
proof -
  define q r where "q = unat sz div 16" and "r = unat sz mod 16"
  have sz: "unat sz = r + 16 * q" "r < 16" by (simp_all add: q_def r_def)
  have w: "sz = of_nat (r + 16 * q)" by (simp flip: sz(1))
  have m: "sz mod 16 = of_nat r" by (simp add: r_def word_unat_eq_iff unat_mod unat_of_nat_u32)
  show ?thesis
  proof (cases "r = 0")
    case True
    then show ?thesis using w m sz(1) by (simp add: round16_def mult.commute)
  next
    case False
    then have "(unat sz + 15) div 16 = Suc q" using ceil_div [of 16 "unat sz"] by (simp add: q_def r_def)
    moreover have "(of_nat r :: u32) \<noteq> 0" using of_nat_eq_u32 [of r 0] False sz(2) by simp
    moreover have "sz + (16 - of_nat r) = of_nat (Suc q * 16)" by (subst w) simp
    ultimately show ?thesis by (simp add: m round16_def)
  qed
qed

lemma alloc_spec:
  assumes "heap_inv s a bs" "sz \<noteq> 0" "fit_ok n bs" "of_nat n = (of_nat (round16 (unat sz)) :: u32)"
    and "16 dvd n" "n < 2 ^ 32" "length bs < 4096"
  shows "case spec_alloc n a bs of
      None \<Rightarrow> alloc sz s = Some (0, s)
    | Some (p, bs') \<Rightarrow> \<exists>s'. alloc sz s = Some (of_nat p, s') \<and> heap_only s s' \<and> heap_inv s' a bs' \<and>
        payload_kept a bs (kmem s) (kmem s')"
proof -
  have "alloc sz s = alloc_search (of_nat n) [0..<length bs] s"
    using assms(2) unfolding alloc_def kmm_prechecks_ok [OF assms(1)] Let_def round16_word
    by (simp add: assms(4) heap_inv_sizes(1) [OF assms(1)])
  then show ?thesis
    using alloc_search_spec [of s a "[]" bs n] assms
    by (cases "spec_alloc n a bs") (auto simp del: of_nat_unat_u32)
qed

lemma round16_less:
  assumes "n \<le> 0xFFFFFFF0"
  shows "round16 n < 2 ^ 32" "16 dvd round16 n" "n \<le> round16 n"
  using assms by (auto simp: round16_def)

section \<open>Release refines coalescing\<close>

text \<open>
  The contract of \<^verbatim>\<open>free\<close> on the block \<open>(n, True)\<close> between \<open>xs\<close> and \<open>ys\<close>: it becomes free and
  is joined with a free block on its left and a free block on its right.
\<close>

fun merge_right :: "nat \<Rightarrow> blocks \<Rightarrow> blocks" where
  "merge_right n [] = [(n, False)]"
| "merge_right n ((k, u) # ys) = (if u then (n, False) # (k, u) # ys else (n + k + 32, False) # ys)"

definition spec_free :: "blocks \<Rightarrow> nat \<Rightarrow> blocks \<Rightarrow> blocks" where
  "spec_free xs n ys =
     (case rev xs of
        (k, False) # rxs \<Rightarrow> rev rxs @ merge_right (k + n + 32) ys
      | _ \<Rightarrow> xs @ merge_right n ys)"

text \<open>What \<^verbatim>\<open>free\<close> may change besides the heap: it prints.\<close>

definition heap_frame :: "'a kmm_scheme \<Rightarrow> 'a kmm_scheme \<Rightarrow> bool" where
  "heap_frame s s' \<longleftrightarrow> framemap s' = framemap s \<and> kheap s' = kheap s \<and> kmm.more s' = kmm.more s \<and>
     (tty_inv s \<longrightarrow> tty_inv s')"

lemma heap_frame_trans: "heap_frame s t \<Longrightarrow> heap_frame t u \<Longrightarrow> heap_frame s u"
  by (simp add: heap_frame_def)

lemma heap_frame_refl [simp]: "heap_frame s s"
  by (simp add: heap_frame_def)

lemma heap_frame_kprint [simp]: "heap_frame s (kprint f ap s)"
  using printed_inv [OF kprint_printed, of s f ap] by (simp add: heap_frame_def)

lemma heap_frame_fields:
  "heap_frame s (s\<lparr>kmem := m\<rparr>)" "heap_frame s (s\<lparr>kheap_header_array := oa\<rparr>)"
  "heap_frame s (s\<lparr>kheap_footer_array := oa\<rparr>)"
  by (simp_all add: heap_frame_def tty_inv_def)

lemma heap_inv_kprint [simp]: "heap_inv (kprint f ap s) a bs = heap_inv s a bs"
  by (simp add: heap_inv_def)

lemma heap_inv_length:
  assumes "heap_inv s a bs"
  shows "length bs \<le> 4096"
proof -
  have "oa_size (kheap_header_array s) \<le> 4096" using assms by (auto simp: heap_inv_def oa_inv_def)
  then show ?thesis using heap_inv_sizes(1) [OF assms] by (simp add: word_le_nat_alt)
qed

lemma word_at_writes_other:
  assumes "\<forall>(p, v)\<in>set ws. 4 dvd p \<and> p < 2 ^ 32" "4 dvd q" "q < 2 ^ 32" "q \<notin> fst ` set ws"
  shows "word_at (writes ws m) q = word_at m q"
proof -
  have "map_of (rev ws) q = None" using assms(4) by (simp add: map_of_eq_None_iff)
  then show ?thesis using word_at_writes [OF assms(1-3)] by simp
qed

text \<open>Two neighbours become one block; the tags between them are cleared in any order.\<close>

lemma merged_block:
  assumes "block_at m b n u" "block_at m (b + n + 32) k v" "16 dvd b" "16 dvd n" "16 dvd k"
    and "b + n + k + 64 < 2 ^ 32" "\<forall>(p, w)\<in>set ws. 4 dvd p \<and> b + n + 16 \<le> p \<and> p < b + n + 48"
  defines "m' \<equiv> writes ([(b, of_nat (n + k + 32)), (b + 4, of_nat (b + n + k + 48)),
      (b + n + k + 48, of_nat b)] @ ws) m"
  shows "block_at m' b (n + k + 32) u" "same_outside b (b + n + k + 64) m m'"
proof -
  let ?vs = "[(b, of_nat (n + k + 32)), (b + 4, of_nat (b + n + k + 48)), (b + n + k + 48, of_nat b)] :: (nat \<times> u32) list"
  have al: "4 dvd b" "4 dvd n" "4 dvd k" using assms(3-5) by (auto elim: dvd_trans [rotated])
  have m': "m' = writes ws (writes ?vs m)" by (simp add: m'_def)
  have ws: "\<forall>(p, w)\<in>set ws. 4 dvd p \<and> p < 2 ^ 32" "\<forall>(p, w)\<in>set ?vs. 4 dvd p \<and> p < 2 ^ 32"
    using assms(6,7) al by auto
  have "word_at m' q = (if q = b then of_nat (n + k + 32) else if q = b + 4 then of_nat (b + n + k + 48)
      else if q = b + n + k + 48 then of_nat b else word_at m q)"
    if "4 dvd q" "q < b + 16 \<or> b + n + 48 \<le> q" "q < 2 ^ 32" for q
  proof -
    have "q \<notin> fst ` set ws" using assms(7) that(2) by fastforce
    then have "word_at m' q = word_at (writes ?vs m) q"
      unfolding m' using ws(1) that by (intro word_at_writes_other)
    then show ?thesis using word_at_writes [OF ws(2) that(1,3), of m] by auto
  qed
  then show "block_at m' b (n + k + 32) u"
    using assms(1,2,6) al by (simp add: block_at_def ac_simps del: of_nat_add)
  show "same_outside b (b + n + k + 64) m m'"
    unfolding m'_def using assms(6,7) by (intro same_outside_writes) auto
qed


lemma remove_boundary:
  assumes "heap_inv s a (xs @ (n, u) # (k, v) # ys)"
    and "block_at m' (block_end a xs) (n + k + 32) w"
    and "same_outside (block_end a xs) (block_end a xs + n + k + 64) (kmem s) m'"
  shows "\<exists>t s'. remove_footer (of_nat (length xs)) (s\<lparr>kmem := m'\<rparr>) = Some t \<and>
    remove_header (of_nat (length xs) + 1) t = Some s' \<and> heap_inv s' a (xs @ (n + k + 32, w) # ys) \<and>
    kmem s' = m' \<and> heap_frame s s'"
proof -
  define b where "b = block_end a xs"
  have inv: "holds_addrs (kheap_header_array s) ((headers a xs @ [b]) @ (b + n + 32) # headers (b + n + k + 64) ys)"
    "holds_addrs (kheap_footer_array s) (footers a xs @ (b + n + 16) # (b + n + k + 48) # footers (b + n + k + 64) ys)"
    using assms(1) by (simp_all add: heap_inv_arrays b_def ac_simps)
  obtain ho fo where ho: "remove_ordered_array (kheap_header_array s) (of_nat (length (headers a xs @ [b]))) = Some ho"
      "holds_addrs ho ((headers a xs @ [b]) @ headers (b + n + k + 64) ys)"
    and fo: "remove_ordered_array (kheap_footer_array s) (of_nat (length (footers a xs))) = Some fo"
      "holds_addrs fo (footers a xs @ (b + n + k + 48) # footers (b + n + k + 64) ys)"
    using holds_remove [OF inv(1)] holds_remove [OF inv(2)] by blast
  let ?s = "s\<lparr>kmem := m', kheap_footer_array := fo, kheap_header_array := ho\<rparr>"
  have "heap_inv ?s a (xs @ [(n + k + 32, w)] @ ys)"
    by (rule heap_inv_replace [where bs = "[(n, u), (k, v)]" and s = s])
      (use assms ho fo heap_inv_block(2) [OF assms(1)] heap_inv_block(2) [of s a "xs @ [(n, u)]" k v ys]
       in \<open>simp_all add: b_def ac_simps\<close>)
  moreover have "remove_header (of_nat (length xs) + 1) (s\<lparr>kmem := m', kheap_footer_array := fo\<rparr>) = Some ?s"
    using ho(1) by (simp add: remove_header_def add.commute)
  moreover have "heap_frame s ?s" by (simp add: heap_frame_def tty_inv_def)
  ultimately show ?thesis using fo(1) by (simp add: remove_footer_def)
qed

lemma clear_writes:
  "clear_header (of_nat h) s = s\<lparr>kmem := writes [(h, 0), (h + 4, 0), (h + 8, 0), (h + 12, 0)] (kmem s)\<rparr>"
  "clear_footer (of_nat h) s = s\<lparr>kmem := writes [(h, 0), (h + 4, 0), (h + 8, 0), (h + 12, 0)] (kmem s)\<rparr>"
  by (simp_all add: clear_header_def clear_footer_def block_access)

lemma two_blocks:
  assumes "heap_inv s a (xs @ (n, u) # (k, v) # ys)"
  shows "block_at (kmem s) (block_end a xs) n u" "block_at (kmem s) (block_end a xs + n + 32) k v"
    "16 dvd block_end a xs" "16 dvd n" "16 dvd k" "block_end a xs + n + k + 64 < 2 ^ 32"
  using heap_inv_block [OF assms] heap_inv_block [of s a "xs @ [(n, u)]" k v ys] assms by auto

text \<open>Both directions join the block at \<open>b\<close> with its right neighbour.\<close>

lemma join_blocks:
  assumes "heap_inv s a (xs @ (n, u) # (k, v) # ys)"
    and "\<forall>(p, w)\<in>set ws. 4 dvd p \<and> block_end a xs + n + 16 \<le> p \<and> p < block_end a xs + n + 48"
  defines "b \<equiv> block_end a xs"
  defines "m' \<equiv> writes ([(b, of_nat (n + k + 32)), (b + 4, of_nat (b + n + k + 48)),
      (b + n + k + 48, of_nat b)] @ ws) (kmem s)"
  shows "\<exists>t s'. remove_footer (of_nat (length xs)) (s\<lparr>kmem := m'\<rparr>) = Some t \<and>
    remove_header (of_nat (length xs) + 1) t = Some s' \<and> heap_inv s' a (xs @ (n + k + 32, u) # ys) \<and>
    same_outside b (b + n + k + 64) (kmem s) (kmem s') \<and> heap_frame s s'"
proof -
  note m = merged_block [OF two_blocks [OF assms(1)] assms(2), folded b_def, folded m'_def]
  from remove_boundary [OF assms(1) m [unfolded b_def]] m(2) show ?thesis by (auto simp: b_def)
qed

lemma unify_left_joins:
  assumes "heap_inv s a (xs @ (k, False) # (n, u) # ys)"
  defines "b \<equiv> block_end a xs"
  shows "\<exists>s'. unify_left (of_nat (b + k + 32)) (of_nat (b + k + n + 48)) s = Some (of_nat b, s') \<and>
    heap_inv s' a (xs @ (k + n + 32, False) # ys) \<and>
    same_outside b (b + k + n + 64) (kmem s) (kmem s') \<and> heap_frame s s'"
proof -
  note blk = two_blocks [OF assms(1), folded b_def]
  have al: "4 dvd b" "4 dvd k" "4 dvd n" using blk(3-5) by (auto elim: dvd_trans [rotated])
  have len: "length xs < 4096" using heap_inv_length [OF assms(1)] by simp
  define msg where "msg = ''coalescing left from %x to %x'' @ nl"
  define s1 where "s1 = kprint msg [ArgW (of_nat b), ArgW (of_nat (b + k + n + 48) + 16)] s"
  have s1: "kmem s1 = kmem s" "heap_inv s1 a (xs @ (k, False) # (n, u) # ys)" "heap_frame s s1"
    using assms(1) by (simp_all add: s1_def)
  let ?ws = "[(b + k + 32, 0), (b + k + 32 + 4, 0), (b + k + 32 + 8, 0), (b + k + 32 + 12, 0),
    (b + k + 16, 0), (b + k + 16 + 4, 0), (b + k + 16 + 8, 0), (b + k + 16 + 12, 0)] :: (nat \<times> u32) list"
  have ws: "\<forall>(p, w)\<in>set ?ws. 4 dvd p \<and> b + k + 16 \<le> p \<and> p < b + k + 48" using al by auto
  from join_blocks [OF s1(2) ws [unfolded b_def], folded b_def] obtain t s' where
    s': "remove_footer (of_nat (length xs)) (s1\<lparr>kmem := writes ([(b, of_nat (k + n + 32)),
        (b + 4, of_nat (b + k + n + 48)), (b + k + n + 48, of_nat b)] @ ?ws) (kmem s1)\<rparr>) = Some t"
      "remove_header (of_nat (length xs) + 1) t = Some s'"
      "heap_inv s' a (xs @ (k + n + 32, False) # ys)" "same_outside b (b + k + n + 64) (kmem s) (kmem s')"
      "heap_frame s1 s'"
    unfolding s1(1) by auto
  have find: "find_ordered_array (kheap_header_array s) (of_nat (b + k + 32)) = Some (of_nat (length xs) + 1)"
    using heap_inv_get(3) [of s a "xs @ [(k, False)]" n u ys] assms by (simp add: b_def add.commute)
  have pos: "0 < (of_nat (length xs) + 1 :: u32)"
    using len by (simp add: word_less_nat_alt unat_word_ariths unat_of_nat_u32)
  have words: "header_used (of_nat b) s = 0" "header_footer (of_nat b) s = of_nat (b + k + 16)"
    "header_size (of_nat b) s1 = of_nat k" "header_size (of_nat (b + k + 32)) s1 = of_nat n"
    unfolding header_reads s1(1) using blk(1,2) by (simp_all add: block_at_def ac_simps)
  have sum: "(of_nat k :: u32) + (32 + of_nat n) = of_nat (k + n + 32)" by simp
  have "unify_left (of_nat (b + k + 32)) (of_nat (b + k + n + 48)) s = Some (of_nat b, s')"
    using s'(1,2) pos heap_inv_get(1) [OF assms(1), folded b_def]
    unfolding unify_left_def find msg_def [symmetric]
    by (simp add: words s1_def [symmetric] header_writes clear_writes sum Let_def del: of_nat_add)
  then show ?thesis using s' heap_frame_trans [OF s1(3)] by blast
qed

lemma unify_right_joins:
  assumes "heap_inv s a (xs @ (n, u) # (k, False) # ys)"
  defines "b \<equiv> block_end a xs"
  shows "\<exists>s'. unify_right (of_nat b) (of_nat (b + n + 16)) s = Some (of_nat (b + n + k + 48), s') \<and>
    heap_inv s' a (xs @ (n + k + 32, u) # ys) \<and>
    same_outside b (b + n + k + 64) (kmem s) (kmem s') \<and> heap_frame s s'"
proof -
  note blk = two_blocks [OF assms(1), folded b_def]
  have al: "4 dvd b" "4 dvd k" "4 dvd n" using blk(3-5) by (auto elim: dvd_trans [rotated])
  have len: "length xs + 2 \<le> 4096" using heap_inv_length [OF assms(1)] by simp
  define msg where "msg = ''coalescing right from %x to %x'' @ nl"
  define s1 where "s1 = kprint msg [ArgW (of_nat b), ArgW (of_nat (b + n + k + 48) + 16)] s"
  have s1: "kmem s1 = kmem s" "heap_inv s1 a (xs @ (n, u) # (k, False) # ys)" "heap_frame s s1"
    using assms(1) by (simp_all add: s1_def)
  let ?ws = "[(b + n + 16, 0), (b + n + 16 + 4, 0), (b + n + 16 + 8, 0), (b + n + 16 + 12, 0),
    (b + n + 32, 0), (b + n + 32 + 4, 0), (b + n + 32 + 8, 0), (b + n + 32 + 12, 0)] :: (nat \<times> u32) list"
  have ws: "\<forall>(p, w)\<in>set ?ws. 4 dvd p \<and> b + n + 16 \<le> p \<and> p < b + n + 48" using al by auto
  from join_blocks [OF s1(2) ws [unfolded b_def], folded b_def] obtain t s' where
    s': "remove_footer (of_nat (length xs)) (s1\<lparr>kmem := writes ([(b, of_nat (n + k + 32)),
        (b + 4, of_nat (b + n + k + 48)), (b + n + k + 48, of_nat b)] @ ?ws) (kmem s1)\<rparr>) = Some t"
      "remove_header (of_nat (length xs) + 1) t = Some s'"
      "heap_inv s' a (xs @ (n + k + 32, u) # ys)" "same_outside b (b + n + k + 64) (kmem s) (kmem s')"
      "heap_frame s1 s'"
    unfolding s1(1) by auto
  have get: "get_ordered_array (kheap_header_array s) (of_nat (length xs) + 1) = Some (of_nat (b + n + 32))"
    using heap_inv_get(1) [of s a "xs @ [(n, u)]" k False ys] assms by (simp add: b_def add.commute)
  have "unat (oa_size (kheap_header_array s) - 1) = length xs + 1 + length ys"
    using heap_inv_sizes(1) [OF assms(1)] by (simp add: unat_sub_u32)
  then have more: "of_nat (length xs) < oa_size (kheap_header_array s) - 1"
    using len by (simp add: word_less_nat_alt unat_of_nat_u32)
  have words: "header_used (of_nat (b + n + 32)) s = 0" "header_footer (of_nat (b + n + 32)) s = of_nat (b + n + k + 48)"
    "header_size (of_nat b) s1 = of_nat n" "header_size (of_nat (b + n + 32)) s1 = of_nat k"
    unfolding header_reads s1(1) using blk(1,2) by (simp_all add: block_at_def ac_simps)
  have sum: "(of_nat n :: u32) + (32 + of_nat k) = of_nat (n + k + 32)" by simp
  have "unify_right (of_nat b) (of_nat (b + n + 16)) s = Some (of_nat (b + n + k + 48), s')"
    using s'(1,2) more get heap_inv_get(3) [OF assms(1), folded b_def]
    unfolding unify_right_def msg_def [symmetric]
    by (simp add: words s1_def [symmetric] header_writes clear_writes sum Let_def del: of_nat_add)
  then show ?thesis using s' heap_frame_trans [OF s1(3)] by blast
qed

lemma unify_left_keeps:
  assumes "heap_inv s a (xs @ (n, u) # ys)" "xs = [] \<or> snd (last xs)"
  shows "unify_left (of_nat (block_end a xs)) footer s = Some (of_nat (block_end a xs), s)"
proof (cases xs rule: rev_cases)
  case Nil
  then show ?thesis using heap_inv_get(3) [OF assms(1)] by (simp add: unify_left_def)
next
  case (snoc zs z)
  then obtain k where z: "z = (k, True)" using assms(2) by (cases z) auto
  have inv: "heap_inv s a (zs @ (k, True) # (n, u) # ys)" using assms(1) snoc z by simp
  have "find_ordered_array (kheap_header_array s) (of_nat (block_end a xs)) = Some (of_nat (length zs) + 1)"
    using heap_inv_get(3) [OF assms(1)] snoc by (simp add: add.commute)
  moreover have "header_used (of_nat (block_end a zs)) s = 1"
    using heap_inv_block(3) [OF inv] by (simp add: header_reads block_at_def)
  ultimately show ?thesis using heap_inv_get(1) [OF inv] by (simp add: unify_left_def)
qed

lemma unify_right_keeps:
  assumes "heap_inv s a (xs @ (n, u) # ys)" "ys = [] \<or> snd (hd ys)"
  shows "unify_right (of_nat (block_end a xs)) footer s = Some (footer, s)"
proof (cases ys)
  case Nil
  have "unat (oa_size (kheap_header_array s) - 1) = length xs"
    using heap_inv_sizes(1) [OF assms(1)] Nil by (simp add: unat_sub_u32)
  then have "oa_size (kheap_header_array s) - 1 = of_nat (length xs)" by (metis of_nat_unat_u32)
  then show ?thesis using heap_inv_get(3) [OF assms(1)] by (simp add: unify_right_def)
next
  case (Cons z zs)
  then obtain k where z: "z = (k, True)" using assms(2) by (cases z) auto
  have inv: "heap_inv s a ((xs @ [(n, u)]) @ (k, True) # zs)" using assms(1) Cons z by simp
  have "get_ordered_array (kheap_header_array s) (of_nat (length xs) + 1) = Some (of_nat (block_end a (xs @ [(n, u)])))"
    using heap_inv_get(1) [OF inv] by (simp add: add.commute)
  moreover have "header_used (of_nat (block_end a (xs @ [(n, u)]))) s = 1"
    using heap_inv_block(3) [OF inv] unfolding header_reads by (simp add: block_at_def)
  ultimately show ?thesis
    using heap_inv_get(3) [OF assms(1)] by (simp add: unify_right_def del: of_nat_add block_end_append block_end.simps)
qed

lemma payload_kept_trans:
  "payload_kept a bs m m' \<Longrightarrow> payload_kept a cs m' m'' \<Longrightarrow> used_payload a bs = used_payload a cs \<Longrightarrow>
   block_end a bs = block_end a cs \<Longrightarrow> payload_kept a bs m m''"
  by (simp add: payload_kept_def same_outside_def)

lemma heap_only_frame: "heap_only s s' \<Longrightarrow> heap_frame s s'"
  by (cases s; cases s') (simp add: heap_only_def heap_frame_def tty_inv_def)

text \<open>The right half of \<^verbatim>\<open>unify\<close>: join to the right and mark free.\<close>

lemma unify_right_spec:
  assumes "heap_inv s a (xs @ (n, u) # ys)"
  shows "\<exists>f t. unify_right (of_nat (block_end a xs)) (of_nat (block_end a xs + n + 16)) s = Some (f, t) \<and>
    heap_inv (set_header_used (of_nat (block_end a xs)) 0 t) a (xs @ merge_right n ys) \<and>
    heap_frame s (set_header_used (of_nat (block_end a xs)) 0 t) \<and>
    payload_kept a (xs @ (n, False) # ys) (kmem s) (kmem (set_header_used (of_nat (block_end a xs)) 0 t))"
proof -
  have bound: "block_end a (xs @ (n, u) # ys) < 2 ^ 32" using assms by (simp add: heap_inv_arrays)
  show ?thesis
  proof (cases "ys = [] \<or> snd (hd ys)")
    case True
    note mark = set_used_inv [OF assms, of False]
    have "payload_kept a (xs @ [(n, False)] @ ys) (kmem s) (kmem (set_header_used (of_nat (block_end a xs)) 0 s))"
      using mark(3) bound by (intro payload_kept_outside) simp_all
    moreover have "merge_right n ys = (n, False) # ys" using True by (cases ys) auto
    ultimately show ?thesis
      using unify_right_keeps [OF assms True] mark heap_only_frame [OF mark(2)] by simp
  next
    case False
    then obtain k zs where ys: "ys = (k, False) # zs" by (cases ys) auto
    obtain t where t: "unify_right (of_nat (block_end a xs)) (of_nat (block_end a xs + n + 16)) s =
        Some (of_nat (block_end a xs + n + k + 48), t)" "heap_inv t a (xs @ (n + k + 32, u) # zs)"
      "same_outside (block_end a xs) (block_end a xs + n + k + 64) (kmem s) (kmem t)" "heap_frame s t"
      using unify_right_joins [of s a xs n u k zs] assms ys by auto
    note mark = set_used_inv [OF t(2), of False]
    have "payload_kept a (xs @ [(n, False), (k, False)] @ zs) (kmem s) (kmem t)"
      using t(3) bound ys by (intro payload_kept_outside) (simp_all add: ac_simps)
    moreover have "payload_kept a (xs @ [(n + k + 32, False)] @ zs) (kmem t)
        (kmem (set_header_used (of_nat (block_end a xs)) 0 t))"
      using mark(3) t(2) by (intro payload_kept_outside) (simp_all add: heap_inv_arrays)
    ultimately have "payload_kept a (xs @ (n, False) # ys) (kmem s)
        (kmem (set_header_used (of_nat (block_end a xs)) 0 t))"
      using ys by (simp add: payload_kept_def same_outside_def ac_simps)
    then show ?thesis
      using t(1) mark(1) heap_frame_trans [OF t(4) heap_only_frame [OF mark(2)]] ys by auto
  qed
qed

lemma unify_spec:
  assumes "heap_inv s a (xs @ (n, u) # ys)"
  shows "\<exists>s'. unify (of_nat (block_end a xs)) (of_nat (block_end a xs + n + 16)) s = Some s' \<and>
    heap_inv s' a (spec_free xs n ys) \<and> heap_frame s s' \<and>
    payload_kept a (xs @ (n, False) # ys) (kmem s) (kmem s')"
proof (cases "xs = [] \<or> snd (last xs)")
  case True
  then have "spec_free xs n ys = xs @ merge_right n ys"
    by (cases xs rule: rev_cases) (auto simp: spec_free_def split: prod.splits bool.splits)
  then show ?thesis
    using unify_left_keeps [OF assms True] unify_right_spec [OF assms] by (auto simp: unify_def)
next
  case False
  then obtain zs k where xs: "xs = zs @ [(k, False)]" by (cases xs rule: rev_cases) auto
  define b where "b = block_end a zs"
  have inv: "heap_inv s a (zs @ (k, False) # (n, u) # ys)" using assms xs by simp
  obtain t where t: "unify_left (of_nat (b + k + 32)) (of_nat (b + k + n + 48)) s = Some (of_nat b, t)"
    "heap_inv t a (zs @ (k + n + 32, False) # ys)" "same_outside b (b + k + n + 64) (kmem s) (kmem t)" "heap_frame s t"
    using unify_left_joins [OF inv] unfolding b_def by blast
  obtain f t' where t': "unify_right (of_nat b) (of_nat (b + (k + n + 32) + 16)) t = Some (f, t')"
    "heap_inv (set_header_used (of_nat b) 0 t') a (zs @ merge_right (k + n + 32) ys)"
    "heap_frame t (set_header_used (of_nat b) 0 t')"
    "payload_kept a (zs @ (k + n + 32, False) # ys) (kmem t) (kmem (set_header_used (of_nat b) 0 t'))"
    using unify_right_spec [OF t(2)] unfolding b_def by blast
  have addr: "block_end a xs = b + k + 32" "b + k + 32 + n + 16 = b + k + n + 48" "b + (k + n + 32) + 16 = b + k + n + 48"
    by (simp_all add: xs b_def)
  have "unify (of_nat (block_end a xs)) (of_nat (block_end a xs + n + 16)) s = Some (set_header_used (of_nat b) 0 t')"
    unfolding unify_def addr using t(1) t'(1) [unfolded addr] by simp
  moreover have "payload_kept a (zs @ [(k, False), (n, False)] @ ys) (kmem s) (kmem t)"
    using t(3) inv by (intro payload_kept_outside) (simp_all add: heap_inv_arrays b_def ac_simps)
  then have "payload_kept a (xs @ (n, False) # ys) (kmem s) (kmem (set_header_used (of_nat b) 0 t'))"
    using t'(4) by (simp add: payload_kept_def same_outside_def xs ac_simps)
  moreover have "spec_free xs n ys = zs @ merge_right (k + n + 32) ys" by (simp add: spec_free_def xs)
  ultimately show ?thesis using t'(2) heap_frame_trans [OF t(4) t'(3)] by auto
qed

lemma free_spec:
  assumes "heap_inv s a (xs @ (n, u) # ys)"
  shows "\<exists>s'. free (of_nat (block_end a xs + 16)) s = Some s' \<and> heap_inv s' a (spec_free xs n ys) \<and>
    heap_frame s s' \<and> payload_kept a (xs @ (n, False) # ys) (kmem s) (kmem s')"
proof -
  have h: "of_nat (block_end a xs + 16) - 16 = (of_nat (block_end a xs) :: u32)" by simp
  have "header_footer (of_nat (block_end a xs)) s = of_nat (block_end a xs + n + 16)"
    using heap_inv_block(3) [OF assms] by (simp add: header_reads block_at_def)
  then have "free (of_nat (block_end a xs + 16)) s = unify (of_nat (block_end a xs)) (of_nat (block_end a xs + n + 16)) s"
    unfolding free_def h Let_def
    using kmm_prechecks_ok [OF assms] kmm_checks_ok [OF heap_inv_block(3) [OF assms]] by simp
  then show ?thesis using unify_spec [OF assms] by simp
qed

section \<open>Initialisation establishes the invariant\<close>

lemma fresh_array:
  "\<exists>oa. init_ordered_array_place (replicate 4096 0) 4096 = Some oa \<and> holds_addrs oa []"
  using init_ordered_array_place_correct [of 4096 "replicate 4096 0"] by (auto simp: holds_addrs_def)

lemma kheap_init_inv:
  assumes "first_fit s 0 LOW_FRAMES 1024 = Some f"
  shows "\<exists>s'. kheap_init s = Some s' \<and> heap_inv s' (0xC0000000 + f * 4096) [(0x3FFFE0, False)] \<and>
    (\<forall>g<ALL_FRAMES. frame_used s' g = (f \<le> g \<and> g < f + 1024 \<or> frame_used s g)) \<and>
    kmm.more s' = kmm.more s"
proof -
  define a where "a = 0xC0000000 + f * 4096"
  have f: "f + 1024 \<le> LOW_FRAMES" using assms by (simp add: first_fit_Some)
  then have a: "a + 0x400000 < 2 ^ 32" "4 dvd a" "16 dvd a" "0 < a" by (simp_all add: a_def)
  obtain oa where oa: "init_ordered_array_place (replicate 4096 0) 4096 = Some oa" "holds_addrs oa []"
    using fresh_array by blast
  define s1 where "s1 = s\<lparr>kheap_header_array := oa, kheap_footer_array := oa\<rparr>"
  have s1: "frame_used s1 = frame_used s" by (simp add: s1_def frame_used_def fun_eq_iff)
  then have "first_fit s1 0 LOW_FRAMES (unat KHEAP_PAGES) = Some f"
    using assms by (simp add: KHEAP_PAGES_def first_fit_Some free_run_def)
  from alloc_default_hit [OF this] obtain s2 where
    s2: "alloc_pages PMM_FLAGS_DEFAULT KHEAP_PAGES s1 = Some (frame_addr f, s2)" "marked s1 s2 f 1024"
    by (auto simp: KHEAP_PAGES_def)
  have s2': "s2 = s1\<lparr>framemap := framemap s2\<rparr>" using s2(2) by (simp add: marked_def)
  have arr: "kheap_header_array s2 = oa" "kheap_footer_array s2 = oa" "kmm.more s2 = kmm.more s"
    by (subst s2', simp add: s1_def)+
  have words: "KP2V (frame_addr f) = of_nat a" "of_nat a + 1024 * PAGE_SIZE = (of_nat (a + 0x400000) :: u32)"
    "of_nat (a + 0x400000) - 16 = (of_nat (a + 0x3FFFF0) :: u32)"
    "of_nat (a + 0x400000) - (of_nat a + 16 + 16) = (0x3FFFE0 :: u32)"
    by (simp_all add: KP2V_def frame_addr_def a_def PAGE_SIZE_def)
  obtain i ha j fa where ins: "insert_ordered_array oa (of_nat a) = Some (i, ha)" "holds_addrs ha [a]"
    "insert_ordered_array oa (of_nat (a + 0x3FFFF0)) = Some (j, fa)" "holds_addrs fa [a + 0x3FFFF0]"
    using holds_insert [of oa "[]" "[]" a] holds_insert [of oa "[]" "[]" "a + 0x3FFFF0"] oa(2) a(1) by auto
  define msg where "msg = ''kheap start: %x'' @ nl"
  define s3 where "s3 = kprint msg [ArgW (of_nat a)] s2"
  have s3: "kheap_header_array s3 = oa" "kheap_footer_array s3 = oa" "kmem s3 = kmem s2" "kmm.more s3 = kmm.more s"
    "framemap s3 = framemap s2"
    by (simp_all add: s3_def arr)
  have sz: "1024 * PAGE_SIZE - 32 = (0x3FFFE0 :: u32)" by (simp add: PAGE_SIZE_def)
  let ?heap = "\<lparr>heap_user = 0, heap_rw = 1, heap_start = of_nat a, heap_end = of_nat (a + 0x400000),
    heap_max_addr = of_nat (a + 0x400000), heap_magic = KHEAP_MAGIC_64\<rparr>"
  let ?ws = "[(a + 12, KHEAP_MAGIC_32), (a, 0x3FFFE0), (a + 8, 0), (a + 4, of_nat (a + 0x3FFFF0)),
    (a + 0x3FFFF0 + 8, KHEAP_MAGIC_32), (a + 0x3FFFF0 + 12, KHEAP_MAGIC_32), (a + 0x3FFFF0, of_nat a),
    (a + 0x3FFFF0 + 4, 0)] :: (nat \<times> u32) list"
  let ?s = "s3\<lparr>kheap := ?heap, kmem := writes ?ws (kmem s3), kheap_header_array := ha, kheap_footer_array := fa\<rparr>"
  have "kheap_init s = Some ?s"
    unfolding kheap_init_def oa(1) msg_def [symmetric]
    by (simp add: s1_def [symmetric] s2(1) words s3_def [symmetric] s3 arr sz ins header_writes footer_magic_writes
        insert_header_def insert_footer_def Let_def del: of_nat_add)
  moreover have "\<forall>(p, v)\<in>set ?ws. 4 dvd p \<and> p < 2 ^ 32" using a by auto
  from word_at_writes [OF this, of _ "kmem s3"] have "block_at (kmem ?s) a 0x3FFFE0 False"
    using a(1,2) by (simp add: block_at_def ac_simps del: of_nat_add)
  then have "heap_inv ?s a [(0x3FFFE0, False)]"
    using a ins by (simp add: heap_inv_arrays ac_simps)
  moreover have "frame_used ?s g = (f \<le> g \<and> g < f + 1024 \<or> frame_used s g)" if "g < ALL_FRAMES" for g
    using marked_used [OF s2(2) that] s1 by (simp add: frame_used_def s3)
  moreover have "kmm.more ?s = kmm.more s" by (simp add: s3)
  ultimately show ?thesis unfolding a_def by blast
qed

section \<open>Properties of the contract\<close>

lemma spec_alloc_payload:
  assumes "spec_alloc sz a bs = Some (p, bs')" "16 dvd a" "blocks_at m a bs" "16 dvd sz"
  shows "a + 16 \<le> p \<and> 16 dvd p \<and> block_end a bs' = block_end a bs \<and>
    (\<exists>n\<ge>sz. p + n + 16 \<le> block_end a bs \<and> {p..<p + n} \<inter> used_payload a bs = {} \<and>
      used_payload a bs' = used_payload a bs \<union> {p..<p + n})"
  using assms(1-3)
proof (induction sz a bs arbitrary: p bs' rule: spec_alloc.induct)
  case (2 sz a n u bs)
  define e where "e = block_end (a + n + 32) bs"
  have e: "a + n + 32 \<le> e" by (simp add: e_def)
  have above: "a + n + 48 \<le> k" if "k \<in> used_payload (a + n + 32) bs" for k
    using used_payload_bounds [OF that] by simp
  show ?case
  proof (cases "\<not> u \<and> sz \<le> n")
    case True
    then have "p = a + 16" "bs' = (if n \<le> sz + 96 then (n, True) # bs else (sz, True) # (n - sz - 32, False) # bs)"
      using "2.prems"(1) by auto
    moreover have "{a + 16..<a + 16 + k} \<inter> used_payload (a + n + 32) bs = {}" if "k \<le> n" for k
      using above that by fastforce
    moreover have "a + sz + 32 + (n - sz - 32) + 32 = a + n + 32" if "\<not> n \<le> sz + 96" using that by simp
    ultimately show ?thesis using True "2.prems"(2) e
      by (intro conjI exI [of _ "if n \<le> sz + 96 then n else sz"]) (auto simp flip: e_def)
  next
    case False
    then obtain cs where cs: "spec_alloc sz (a + n + 32) bs = Some (p, cs)" "bs' = (n, u) # cs"
      using "2.prems"(1) by (auto split: option.splits)
    have "16 dvd a + n + 32" "blocks_at m (a + n + 32) bs" using "2.prems"(2,3) by simp_all
    from "2.IH" [OF False cs(1) this] cs(2) show ?thesis by fastforce
  qed
qed simp

lemma spec_free_payload:
  "used_payload a (spec_free xs n ys) = used_payload a (xs @ (n, False) # ys)"
  "block_end a (spec_free xs n ys) = block_end a (xs @ (n, False) # ys)"
proof -
  have right: "used_payload b (merge_right k ys) = used_payload b ((k, False) # ys)"
    "block_end b (merge_right k ys) = block_end b ((k, False) # ys)" for b k
    by (cases ys; auto simp: ac_simps split: if_splits)+
  show "used_payload a (spec_free xs n ys) = used_payload a (xs @ (n, False) # ys)"
    "block_end a (spec_free xs n ys) = block_end a (xs @ (n, False) # ys)"
    by (cases xs rule: rev_cases;
        auto simp: spec_free_def right ac_simps split: prod.splits bool.splits)+
qed

text \<open>No two neighbours are both free.\<close>

fun coalesced :: "blocks \<Rightarrow> bool" where
  "coalesced ((n, u) # (k, v) # bs) = ((u \<or> v) \<and> coalesced ((k, v) # bs))"
| "coalesced _ = True"

lemma coalesced_Cons:
  "coalesced ((n, u) # bs) \<longleftrightarrow> coalesced bs \<and> (bs = [] \<or> u \<or> snd (hd bs))"
  by (cases bs) auto

lemma coalesced_append:
  "coalesced (xs @ ys) \<longleftrightarrow> coalesced xs \<and> coalesced ys \<and>
     (xs = [] \<or> ys = [] \<or> snd (last xs) \<or> snd (hd ys))"
proof (induction xs)
  case (Cons x xs)
  then show ?case by (cases x; cases xs) (auto simp: coalesced_Cons)
qed simp

lemma spec_alloc_coalesced:
  "spec_alloc sz a bs = Some (p, bs') \<Longrightarrow> coalesced bs \<Longrightarrow>
   coalesced bs' \<and> (bs \<noteq> [] \<and> snd (hd bs) \<longrightarrow> snd (hd bs'))"
proof (induction sz a bs arbitrary: p bs' rule: spec_alloc.induct)
  case (2 sz a n u bs)
  show ?case
  proof (cases "\<not> u \<and> sz \<le> n")
    case True
    then show ?thesis using 2 by (auto simp: coalesced_Cons split: if_splits)
  next
    case False
    then obtain cs where cs: "spec_alloc sz (a + n + 32) bs = Some (p, cs)" "bs' = (n, u) # cs"
      using "2.prems"(1) by (auto split: option.splits)
    moreover have "bs \<noteq> []" using cs(1) by auto
    ultimately show ?thesis using "2.IH" [OF False cs(1)] "2.prems"(2) by (auto simp: coalesced_Cons)
  qed
qed simp

lemma spec_free_coalesced:
  assumes "coalesced (xs @ (n, True) # ys)"
  shows "coalesced (spec_free xs n ys)"
proof -
  have right: "coalesced (merge_right k ys)" for k
    using assms by (cases ys) (auto simp: coalesced_append coalesced_Cons)
  show ?thesis
  proof (cases xs rule: rev_cases)
    case (snoc zs z)
    obtain k u where z: "z = (k, u)" by fastforce
    have "coalesced zs" "u \<or> zs = [] \<or> snd (last zs)"
      using assms snoc z by (auto simp: coalesced_append)
    then show ?thesis
      using right snoc z by (cases u) (auto simp: spec_free_def coalesced_append coalesced_Cons)
  qed (simp add: spec_free_def right)
qed

section \<open>Blocks below 96 bytes\<close>

text \<open>
  For a block of fewer than 96 bytes the size test of \<^verbatim>\<open>alloc_from_block\<close> wraps, and the block is
  split although it has no room: the new header lands on the next block's.
\<close>

lemma insert_total:
  assumes "oa_inv oa"
  shows "\<exists>i oa'. insert_ordered_array oa v = Some (i, oa')"
  using insert_ordered_array_correct [OF assms, of v]
  by (cases "oa_size oa < oa_max_size oa") (auto simp: insert_ordered_array_def)

lemma small_split:
  assumes "heap_inv s a (xs @ (n, False) # (k, u) # ys)" "n < 96"
  defines "b \<equiv> block_end a xs"
  shows "\<exists>s'. alloc_from_block (of_nat b) (of_nat (b + n + 16)) (of_nat n) s = Some (of_nat b, s') \<and>
    header_size (of_nat (b + n + 32)) s' = 0xFFFFFFE0 \<and> header_used (of_nat (b + n + 32)) s' = 0"
proof -
  note blk = two_blocks [OF assms(1), folded b_def]
  have al: "4 dvd b" "4 dvd n" using blk(3,4) by (auto elim: dvd_trans [rotated])
  let ?vs = "[(b + n + 16, of_nat b), (b + n + 16 + 8, KHEAP_MAGIC_32),
        (b + n + 16 + 12, KHEAP_MAGIC_32), (b + n + 16 + 4, 0)] :: (nat \<times> u32) list"
  let ?ws = "?vs @ [(b + n + 32, - 32), (b + n + 32 + 4, of_nat (b + n + 16)),
        (b + n + 32 + 8, 0), (b + n + 32 + 12, KHEAP_MAGIC_32), (b + n + 16, of_nat (b + n + 32)),
        (b, of_nat n), (b + 4, of_nat (b + n + 16)), (b + 8, 1)]"
  have addr: "of_nat b + of_nat n + 16 = (of_nat (b + n + 16) :: u32)"
    "(of_nat (b + n + 16) :: u32) + 16 = of_nat (b + n + 32)" by simp_all
  have n: "word_at (kmem s) b = of_nat n" using blk(1) by (simp add: block_at_def)
  have "word_at (writes ?vs (kmem s)) b = of_nat n"
    using n blk(6) al by (subst word_at_writes) auto
  then have split: "split_block (of_nat b) (of_nat (b + n + 16)) (of_nat n) s = s\<lparr>kmem := writes ?ws (kmem s)\<rparr>"
    unfolding split_block_def Let_def addr by (simp add: block_access del: of_nat_add)
  have "\<not> (of_nat n :: u32) - 16 - 16 - 64 \<le> of_nat n"
  proof -
    have "(of_nat n :: u32) - 16 - 16 - 64 = of_nat (2 ^ 32 + n - 96)" using assms(2) by (simp add: of_nat_diff)
    then show ?thesis using assms(2) by (simp add: word_le_nat_alt unat_of_nat_u32 del: of_nat_diff of_nat_add)
  qed
  moreover obtain i oa j oa' where
    "insert_ordered_array (kheap_header_array s) (of_nat (b + n + 32)) = Some (i, oa)"
    "insert_ordered_array (kheap_footer_array s) (of_nat (b + n + 16)) = Some (j, oa')"
    using insert_total assms(1) unfolding heap_inv_def by metis
  ultimately have "alloc_from_block (of_nat b) (of_nat (b + n + 16)) (of_nat n) s =
      Some (of_nat b, s\<lparr>kmem := writes ?ws (kmem s), kheap_header_array := oa, kheap_footer_array := oa'\<rparr>)"
    unfolding alloc_from_block_def Let_def addr header_reads split insert_header_def insert_footer_def
    using n by (simp del: of_nat_add)
  moreover have "word_at (writes ?ws (kmem s)) q = (case map_of (rev ?ws) q of None \<Rightarrow> word_at (kmem s) q | Some v \<Rightarrow> v)"
    if "4 dvd q" "q < 2 ^ 32" for q
    using that al blk(6) by (intro word_at_writes) auto
  then have "word_at (writes ?ws (kmem s)) (b + n + 32) = - 32" "word_at (writes ?ws (kmem s)) (b + n + 32 + 8) = 0"
    using al blk(6) by (simp_all del: of_nat_add)
  moreover have "(- 32 :: u32) = 0xFFFFFFE0" by simp
  ultimately show ?thesis unfolding header_reads by (auto simp del: append_Cons)
qed

text \<open>In a coalesced heap a release undoes the allocation exactly.\<close>

lemma spec_alloc_free:
  assumes "spec_alloc sz a bs = Some (p, bs')" "coalesced bs"
  shows "\<exists>xs n ys. bs' = xs @ (n, True) # ys \<and> p = block_end a xs + 16 \<and> spec_free xs n ys = bs"
  using assms
proof (induction sz a bs arbitrary: p bs' rule: spec_alloc.induct)
  case (2 sz a n u bs)
  show ?case
  proof (cases "\<not> u \<and> sz \<le> n")
    case True
    show ?thesis
    proof (cases "n \<le> sz + 96")
      case whole: True
      then have "bs' = [] @ (n, True) # bs" "p = block_end a [] + 16" using True "2.prems"(1) by auto
      moreover have "spec_free [] n bs = (n, u) # bs"
        using True "2.prems"(2) by (cases bs) (auto simp: spec_free_def)
      ultimately show ?thesis by blast
    next
      case False
      then have "bs' = [] @ (sz, True) # (n - sz - 32, False) # bs" "p = block_end a [] + 16"
        using True "2.prems"(1) by auto
      moreover have "spec_free [] sz ((n - sz - 32, False) # bs) = (n, u) # bs"
        using True False by (simp add: spec_free_def)
      ultimately show ?thesis by blast
    qed
  next
    case False
    then obtain cs where cs: "spec_alloc sz (a + n + 32) bs = Some (p, cs)" "bs' = (n, u) # cs"
      using "2.prems"(1) by (auto split: option.splits)
    have "coalesced bs" using "2.prems"(2) by (simp add: coalesced_Cons)
    from "2.IH" [OF False cs(1) this] obtain xs k ys where
      xs: "cs = xs @ (k, True) # ys" "p = block_end (a + n + 32) xs + 16" "spec_free xs k ys = bs" by blast
    have "spec_free ((n, u) # xs) k ys = (n, u) # bs"
    proof (cases "xs = []")
      case True
      have "u \<or> snd (hd bs)" using "2.prems"(2) cs(1) by (cases bs) (auto simp: coalesced_Cons)
      moreover have "\<not> snd (hd bs)" using xs(3) True by (cases ys) (auto simp: spec_free_def split: if_splits)
      ultimately show ?thesis using xs(3) True by (simp add: spec_free_def split: bool.splits)
    next
      case False
      then show ?thesis using xs(3)
        by (cases xs rule: rev_cases) (auto simp: spec_free_def split: prod.splits bool.splits)
    qed
    then show ?thesis using xs(1,2) cs(2)
      by (intro exI [of _ "(n, u) # xs"] exI [of _ k] exI [of _ ys]) simp
  qed
qed simp

end
