(* ===== verification/Kheap_Props.thy ===== *)
theory Kheap_Props
  imports Kheap_Refine
begin

text \<open>
  The properties of the kernel heap, with witnesses on a small heap of four blocks.
\<close>

section \<open>Properties\<close>

text \<open>A heap at 0x1000 with a used, a small free, a used and a large free block.\<close>

definition sample_blocks :: blocks where
  "sample_blocks = [(16, True), (16, False), (32, True), (256, False)]"

definition block_words :: "nat \<Rightarrow> nat \<Rightarrow> bool \<Rightarrow> (nat \<times> u32) list" where
  "block_words a n u = [(a, of_nat n), (a + 4, of_nat (a + n + 16)), (a + 8, of_bool u),
     (a + 12, KHEAP_MAGIC_32), (a + n + 16, of_nat a), (a + n + 24, KHEAP_MAGIC_32),
     (a + n + 28, KHEAP_MAGIC_32)]"

fun heap_words :: "nat \<Rightarrow> blocks \<Rightarrow> (nat \<times> u32) list" where
  "heap_words a [] = []"
| "heap_words a ((n, u) # bs) = block_words a n u @ heap_words (a + n + 32) bs"

definition sample_array_of :: "nat list \<Rightarrow> ordered_array" where
  "sample_array_of as = \<lparr>oa_array = map of_nat as @ replicate (4096 - length as) 0,
     oa_size = of_nat (length as), oa_max_size = 4096, oa_predicate = less_predicate\<rparr>"

definition sample_kmm :: "nat \<Rightarrow> blocks \<Rightarrow> kmm" where
  "sample_kmm a bs = \<lparr>terminal_row = 0, terminal_column = 0, terminal_color = 7,
     terminal_buffer = (\<lambda>_. 0), framemap = sample_map, kmem = writes (heap_words a bs) (\<lambda>_. 0),
     kheap = \<lparr>heap_user = 0, heap_rw = 1, heap_start = of_nat a, heap_end = of_nat (block_end a bs),
       heap_max_addr = of_nat (block_end a bs), heap_magic = KHEAP_MAGIC_64\<rparr>,
     kheap_header_array = sample_array_of (headers a bs),
     kheap_footer_array = sample_array_of (footers a bs)\<rparr>"

lemma sample_array_of:
  assumes "length as \<le> 4096" "sorted as" "\<forall>k\<in>set as. k < 2 ^ 32"
  shows "holds_addrs (sample_array_of as) as"
proof -
  have n: "unat (of_nat (length as) :: u32) = length as" using assms(1) by (simp add: unat_of_nat_u32)
  have "sorted (map of_nat as :: u32 list)"
    using assms(2,3) by (induction as) (auto simp: word_le_nat_alt unat_of_nat_u32)
  then show ?thesis
    using n assms(1)
    by (simp add: holds_addrs_def oa_inv_def oa_list_def sample_array_of_def word_le_nat_alt)
qed

lemma sample_kmm_inv:
  assumes "blocks_at (writes (heap_words a bs) (\<lambda>_. 0)) a bs" "16 dvd a" "0 < a" "block_end a bs < 2 ^ 32"
    and "length bs \<le> 4096" "sorted (headers a bs)" "sorted (footers a bs)"
  shows "heap_inv (sample_kmm a bs) a bs"
proof -
  have "\<forall>k\<in>set (headers a bs). k < 2 ^ 32" "\<forall>k\<in>set (footers a bs). k < 2 ^ 32"
    using headers_bounds footers_bounds assms(4) by fastforce+
  then show ?thesis
    using assms sample_array_of [of "headers a bs"] sample_array_of [of "footers a bs"]
    by (simp add: heap_inv_arrays sample_kmm_def)
qed

lemma sample_inv:
  "heap_inv (sample_kmm 0x1000 sample_blocks) 0x1000 sample_blocks"
  "heap_inv (sample_kmm 0x1000 [(256, False)]) 0x1000 [(256, False)]"
proof -
  have "\<forall>(p, v)\<in>set (heap_words 0x1000 sample_blocks). 4 dvd p \<and> p < 2 ^ 32"
    "\<forall>(p, v)\<in>set (heap_words 0x1000 [(256, False)]). 4 dvd p \<and> p < 2 ^ 32"
    by (simp_all add: sample_blocks_def block_words_def)
  from this [THEN word_at_writes, of _ "\<lambda>_. 0"]
  have "blocks_at (writes (heap_words 0x1000 sample_blocks) (\<lambda>_. 0)) 0x1000 sample_blocks"
    "blocks_at (writes (heap_words 0x1000 [(256, False)]) (\<lambda>_. 0)) 0x1000 [(256, False)]"
    by (simp_all add: sample_blocks_def block_words_def block_at_def)
  from this [THEN sample_kmm_inv] show "heap_inv (sample_kmm 0x1000 sample_blocks) 0x1000 sample_blocks"
    "heap_inv (sample_kmm 0x1000 [(256, False)]) 0x1000 [(256, False)]"
    by (simp_all add: sample_blocks_def)
qed

text \<open>
  C1: on a well-formed heap \<^verbatim>\<open>kmalloc\<close> takes the first free block that holds the request rounded up
  to 16 bytes, whole or split, and the heap stays well formed; without such a block it returns 0
  and changes nothing. The block it finds must have at least 96 bytes and the arrays room for one
  more entry.
\<close>

theorem kmalloc_first_fit:
  assumes "heap_inv s a bs" "sz \<noteq> 0" "unat sz \<le> 0xFFFFFFF0" "length bs < 4096"
    and "fit_ok (round16 (unat sz)) bs"
  shows "case spec_alloc (round16 (unat sz)) a bs of
      None \<Rightarrow> kmalloc sz s = Some (0, s)
    | Some (p, bs') \<Rightarrow> \<exists>s'. kmalloc sz s = Some (of_nat p, s') \<and> heap_inv s' a bs' \<and> heap_only s s'"
  using alloc_spec [OF assms(1,2,5) refl _ _ assms(4)] round16_less [OF assms(3)]
  by (cases "spec_alloc (round16 (unat sz)) a bs") (auto simp: kmalloc_def)

theorem kmalloc_first_fit_witness:
  "\<exists>s'. kmalloc 100 (sample_kmm 0x1000 sample_blocks) = Some (0x10B0, s') \<and>
     heap_inv s' 0x1000 [(16, True), (16, False), (32, True), (112, True), (112, False)]"
proof -
  have "round16 (unat (100 :: u32)) = 112" by (simp add: round16_def)
  then show ?thesis
    using kmalloc_first_fit [OF sample_inv(1), of 100] by (auto simp: sample_blocks_def)
qed

text \<open>
  C2: memory that \<^verbatim>\<open>kmalloc\<close> returns is 16-byte aligned, at least as large as the request, lies
  inside the heap and apart from the payload of every block in use, and no byte of these
  payloads or outside the heap changes.
\<close>

theorem kmalloc_fresh:
  assumes "heap_inv s a bs" "unat sz \<le> 0xFFFFFFF0" "length bs < 4096" "fit_ok (round16 (unat sz)) bs"
    and "kmalloc sz s = Some (q, s')" "q \<noteq> 0"
  shows "\<exists>bs' n. heap_inv s' a bs' \<and> unat sz \<le> n \<and> unat q mod 16 = 0 \<and>
    a + 16 \<le> unat q \<and> unat q + n + 16 \<le> block_end a bs \<and>
    {unat q..<unat q + n} \<inter> used_payload a bs = {} \<and>
    used_payload a bs' = used_payload a bs \<union> {unat q..<unat q + n} \<and>
    payload_kept a bs (kmem s) (kmem s')"
proof -
  have sz: "sz \<noteq> 0" using assms(5,6) by (auto simp: kmalloc_def alloc_def)
  note spec = alloc_spec [OF assms(1) sz assms(4) refl _ _ assms(3)] round16_less [OF assms(2)]
  then obtain p bs' where p: "spec_alloc (round16 (unat sz)) a bs = Some (p, bs')"
    using assms(5,6) by (cases "spec_alloc (round16 (unat sz)) a bs") (auto simp: kmalloc_def)
  have inv: "16 dvd a" "blocks_at (kmem s) a bs" "block_end a bs < 2 ^ 32" using assms(1) by (simp_all add: heap_inv_def)
  from spec_alloc_payload [OF p inv(1,2) round16_less(2) [OF assms(2)]] obtain n where
    n: "round16 (unat sz) \<le> n" "p + n + 16 \<le> block_end a bs" "{p..<p + n} \<inter> used_payload a bs = {}"
      "used_payload a bs' = used_payload a bs \<union> {p..<p + n}" "a + 16 \<le> p" "16 dvd p"
    by auto
  have "heap_inv s' a bs'" "q = of_nat p" "payload_kept a bs (kmem s) (kmem s')"
    using spec assms(5) p by (auto simp: kmalloc_def)
  moreover from this n(2) inv(3) have "unat q = p" by (simp add: unat_of_nat_u32)
  ultimately show ?thesis using n spec(4) by (auto intro!: exI [of _ bs'] exI [of _ n])
qed

theorem kmalloc_fresh_witness:
  "\<exists>s' bs' n. kmalloc 100 (sample_kmm 0x1000 sample_blocks) = Some (0x10B0, s') \<and> heap_inv s' 0x1000 bs' \<and>
     100 \<le> n \<and> {0x10B0..<0x10B0 + n} \<inter> used_payload 0x1000 sample_blocks = {}"
proof -
  have r: "round16 (unat (100 :: u32)) = 112" by (simp add: round16_def)
  obtain s' where s': "kmalloc 100 (sample_kmm 0x1000 sample_blocks) = Some (0x10B0, s')"
    using alloc_spec [OF sample_inv(1), of 100 112] r by (auto simp: sample_blocks_def kmalloc_def)
  from kmalloc_fresh [OF sample_inv(1) _ _ _ s'] r obtain bs' n where
    "heap_inv s' 0x1000 bs'" "100 \<le> n" "{0x10B0..<0x10B0 + n} \<inter> used_payload 0x1000 sample_blocks = {}"
    by (auto simp: sample_blocks_def)
  with s' show ?thesis by blast
qed

text \<open>
  C3: \<^verbatim>\<open>kfree\<close> of the payload address of a block frees it and joins it with its free neighbours;
  the heap stays well formed, a coalesced heap stays coalesced, and the payload of every other
  block in use and all memory outside the heap keep their bytes.
\<close>

theorem kfree_coalesces:
  assumes "heap_inv s a (xs @ (n, True) # ys)"
  shows "\<exists>s'. kfree (of_nat (block_end a xs + 16)) s = Some s' \<and> heap_inv s' a (spec_free xs n ys) \<and>
    heap_frame s s' \<and> payload_kept a (xs @ (n, False) # ys) (kmem s) (kmem s') \<and>
    used_payload a (spec_free xs n ys) = used_payload a (xs @ (n, False) # ys) \<and>
    (coalesced (xs @ (n, True) # ys) \<longrightarrow> coalesced (spec_free xs n ys))"
  using free_spec [OF assms] spec_free_coalesced spec_free_payload(1) unfolding kfree_def by blast

theorem kfree_coalesces_witness:
  "\<exists>s'. kfree 0x1070 (sample_kmm 0x1000 sample_blocks) = Some s' \<and>
     heap_inv s' 0x1000 [(16, True), (368, False)]"
  using kfree_coalesces [of "sample_kmm 0x1000 sample_blocks" "0x1000" "[(16, True), (16, False)]" 32 "[(256, False)]"]
    sample_inv(1) by (auto simp: sample_blocks_def spec_free_def)

text \<open>
  C4: in a coalesced heap a \<^verbatim>\<open>kmalloc\<close> followed by the \<^verbatim>\<open>kfree\<close> of its result leads back to the very
  same blocks, with the payload of all blocks in use intact.
\<close>

theorem kmalloc_kfree_roundtrip:
  assumes "heap_inv s a bs" "unat sz \<le> 0xFFFFFFF0" "length bs < 4096" "fit_ok (round16 (unat sz)) bs"
    and "coalesced bs" "kmalloc sz s = Some (q, s')" "q \<noteq> 0"
  shows "\<exists>s''. kfree q s' = Some s'' \<and> heap_inv s'' a bs \<and> payload_kept a bs (kmem s) (kmem s'')"
proof -
  have sz: "sz \<noteq> 0" using assms(6,7) by (auto simp: kmalloc_def alloc_def)
  note spec = alloc_spec [OF assms(1) sz assms(4) refl _ _ assms(3)] round16_less [OF assms(2)]
  then obtain p bs' where p: "spec_alloc (round16 (unat sz)) a bs = Some (p, bs')"
    using assms(6,7) by (cases "spec_alloc (round16 (unat sz)) a bs") (auto simp: kmalloc_def)
  with spec assms(6) have s': "heap_inv s' a bs'" "q = of_nat p" "payload_kept a bs (kmem s) (kmem s')"
    by (auto simp: kmalloc_def)
  from spec_alloc_free [OF p assms(5)] obtain xs n ys where
    bs': "bs' = xs @ (n, True) # ys" "p = block_end a xs + 16" "spec_free xs n ys = bs" by blast
  obtain s'' where s'': "kfree q s' = Some s''" "heap_inv s'' a bs"
    "payload_kept a (xs @ (n, False) # ys) (kmem s') (kmem s'')"
    using free_spec [of s' a xs n True ys] s'(1,2) bs' unfolding kfree_def by auto
  moreover have "used_payload a (xs @ (n, False) # ys) = used_payload a bs"
    using spec_free_payload(1) [of a xs n ys] bs'(3) by simp
  moreover have "block_end a (xs @ (n, False) # ys) = block_end a bs"
    using spec_free_payload(2) [of a xs n ys] bs'(3) by simp
  ultimately show ?thesis using s'(3) payload_kept_trans by metis
qed

theorem kmalloc_kfree_roundtrip_witness:
  "\<exists>s' s''. kmalloc 100 (sample_kmm 0x1000 sample_blocks) = Some (0x10B0, s') \<and>
     kfree 0x10B0 s' = Some s'' \<and> heap_inv s'' 0x1000 sample_blocks"
proof -
  have r: "round16 (unat (100 :: u32)) = 112" by (simp add: round16_def)
  obtain s' where s': "kmalloc 100 (sample_kmm 0x1000 sample_blocks) = Some (0x10B0, s')"
    using alloc_spec [OF sample_inv(1), of 100 112] r by (auto simp: sample_blocks_def kmalloc_def)
  have "coalesced sample_blocks" by (simp add: sample_blocks_def)
  from kmalloc_kfree_roundtrip [OF sample_inv(1) _ _ _ this s'] s' r show ?thesis
    by (auto simp: sample_blocks_def)
qed

text \<open>
  C5: \<^verbatim>\<open>kheap_init\<close>, when 1024 contiguous low frames are free, takes the first such run and sets up
  a well-formed heap of one free block that fills the 4 MiB.
\<close>

theorem kheap_init_heap:
  assumes "first_fit s 0 LOW_FRAMES 1024 = Some f"
  shows "\<exists>s'. kheap_init s = Some s' \<and> heap_inv s' (0xC0000000 + f * 4096) [(0x3FFFE0, False)] \<and>
    used_frames s' = used_frames s \<union> {f..<f + 1024}"
proof -
  have "f + 1024 \<le> LOW_FRAMES" using assms by (simp add: first_fit_Some)
  moreover obtain s' where "kheap_init s = Some s'" "heap_inv s' (0xC0000000 + f * 4096) [(0x3FFFE0, False)]"
    "\<forall>g<ALL_FRAMES. frame_used s' g = (f \<le> g \<and> g < f + 1024 \<or> frame_used s g)"
    using kheap_init_inv [OF assms] by blast
  ultimately show ?thesis by (intro exI [of _ s'] conjI) (auto simp: used_frames_def)
qed

theorem kheap_init_heap_witness:
  "\<exists>s'. kheap_init (sample_kmm 0x1000 []) = Some s' \<and> heap_inv s' 0xC0007000 [(0x3FFFE0, False)]"
proof -
  have used: "frame_used (sample_kmm 0x1000 []) = frame_used (sample_pmm sample_map)"
    by (simp add: frame_used_def fun_eq_iff sample_kmm_def sample_pmm_def)
  have "free_run (sample_kmm 0x1000 []) 7 1024" by (simp add: free_run_def used sample_used)
  moreover have "\<not> free_run (sample_kmm 0x1000 []) g 1024" if "g < 7" for g
    using that sample_used [of 6] by (auto simp: free_run_def used intro: exI [of _ "6 - g"])
  ultimately have "first_fit (sample_kmm 0x1000 []) 0 LOW_FRAMES 1024 = Some 7" by (simp add: first_fit_Some)
  from kheap_init_heap [OF this] show ?thesis by auto
qed

text \<open>
  C6: a free block of fewer than 96 bytes is split although it has no room: when the search finds
  a block of exactly the requested size below 96 bytes, the header of the following block is
  overwritten and marked free with size 0xFFFFFFE0, even if that block is in use.
\<close>

theorem kmalloc_small_corrupts:
  assumes "heap_inv s a (xs @ (n, False) # (k, True) # ys)" "0 < n" "n < 96" "spec_alloc n a xs = None"
  shows "\<exists>s'. kmalloc (of_nat n) s = Some (of_nat (block_end a xs + 16), s') \<and>
    header_used (of_nat (block_end a xs + n + 32)) s = 1 \<and>
    header_used (of_nat (block_end a xs + n + 32)) s' = 0 \<and>
    header_size (of_nat (block_end a xs + n + 32)) s' = 0xFFFFFFE0"
proof -
  note blk = two_blocks [OF assms(1)]
  have n: "unat (of_nat n :: u32) = n" "n < 2 ^ 32" using assms(3) by (simp_all add: unat_of_nat_u32)
  have "(n + 15) div 16 * 16 = n" using blk(4) by (auto elim!: dvdE)
  then have r: "round16 (unat (of_nat n :: u32)) = n" unfolding n(1) round16_def .
  have nz: "(of_nat n :: u32) \<noteq> 0" using n(1) assms(2) by (metis less_irrefl unat_0)
  have "alloc (of_nat n) s = alloc_search (of_nat n) [0..<length (xs @ (n, False) # (k, True) # ys)] s"
    using nz unfolding alloc_def kmm_prechecks_ok [OF assms(1)] Let_def round16_word
    by (simp add: r heap_inv_sizes(1) [OF assms(1)])
  also have "\<dots> = alloc_search (of_nat n) [length xs..<length (xs @ (n, False) # (k, True) # ys)] s"
    using alloc_search_skip [of s a "[]" xs "(n, False) # (k, True) # ys" n] assms(1,4) n(2) by simp
  also have "\<dots> = map_option (\<lambda>(h, s). (h + 16, s))
      (alloc_from_block (of_nat (block_end a xs)) (of_nat (block_end a xs + n + 16)) (of_nat n) s)"
    using alloc_search_step [OF assms(1) n(2)] by (simp only: not_False_eq_True le_refl simp_thms if_True)
  finally show ?thesis
    using small_split [OF assms(1,3)] blk(2) unfolding kmalloc_def header_reads
    by (auto simp: block_at_def)
qed

theorem kmalloc_small_corrupts_witness:
  "\<exists>s'. kmalloc 16 (sample_kmm 0x1000 sample_blocks) = Some (0x1040, s') \<and>
     header_used 0x1060 (sample_kmm 0x1000 sample_blocks) = 1 \<and> header_used 0x1060 s' = 0"
  using kmalloc_small_corrupts [of "sample_kmm 0x1000 sample_blocks" "0x1000" "[(16, True)]" 16 32 "[(256, False)]"]
    sample_inv(1) by (auto simp: sample_blocks_def)

text \<open>
  A request of more than 0xFFFFFFF0 bytes wraps to 0 when it is rounded up and is granted: with
  a large first block the caller gets a block of size 0.
\<close>

theorem kmalloc_huge_wraps:
  assumes "heap_inv s a ((n, False) # bs)" "96 < n" "length bs < 4095" "0xFFFFFFF0 < unat sz"
  shows "\<exists>s'. kmalloc sz s = Some (of_nat (a + 16), s') \<and> heap_inv s' a ((0, True) # (n - 32, False) # bs)"
proof -
  have "(unat sz + 15) div 16 = 0x10000000"
    using assms(4) unat_u32_le [of sz] by (intro div_nat_eqI) auto
  then have "of_nat 0 = (of_nat (round16 (unat sz)) :: u32)" by (simp add: round16_def word_unat_eq_iff)
  moreover have "sz \<noteq> 0" using assms(4) by auto
  ultimately show ?thesis
    using alloc_spec [OF assms(1), of sz 0] assms(2,3) by (auto simp: kmalloc_def)
qed

theorem kmalloc_huge_wraps_witness:
  "\<exists>s'. kmalloc 0xFFFFFFFF (sample_kmm 0x1000 [(256, False)]) = Some (0x1010, s') \<and>
     heap_inv s' 0x1000 [(0, True), (224, False)]"
  using kmalloc_huge_wraps [OF sample_inv(2), of "0xFFFFFFFF"] by auto

end
