(* ===== verification/Proc_Create.thy ===== *)
theory Proc_Create
  imports Proc_Maps Scheduler Kheap_Props
begin

text \<open>
  Correctness of \<^verbatim>\<open>create_proc\<close>, the composition of heap, frame allocator, page tables and process
  table: what each step leaves in memory, and the process that results.
\<close>

section \<open>Memory outside a region\<close>

text \<open>The aligned words outside \<open>X\<close> are the same.\<close>

definition agree :: "nat set \<Rightarrow> mem \<Rightarrow> mem \<Rightarrow> bool" where
  "agree X m m' \<longleftrightarrow> (\<forall>w. 4 dvd w \<longrightarrow> w < 2 ^ 32 \<longrightarrow> w \<notin> X \<longrightarrow> word_at m' w = word_at m w)"

lemma agree_refl [simp]: "agree X m m"
  by (simp add: agree_def)

lemma agree_trans: "agree X m m' \<Longrightarrow> agree Y m' m'' \<Longrightarrow> agree (X \<union> Y) m m''"
  by (simp add: agree_def)

lemma agree_mono: "agree X m m' \<Longrightarrow> X \<subseteq> Y \<Longrightarrow> agree Y m m'"
  by (auto simp: agree_def)

lemma agree_word: "agree X m m' \<Longrightarrow> 4 dvd w \<Longrightarrow> w < 2 ^ 32 \<Longrightarrow> w \<notin> X \<Longrightarrow> word_at m' w = word_at m w"
  by (simp add: agree_def)

lemma agree_store: "4 dvd p \<Longrightarrow> p < 2 ^ 32 \<Longrightarrow> agree {p} m (store32 m (of_nat p) v)"
  by (simp add: agree_def word_at_store)

lemma getf_setf_off:
  assumes "proc_ok p" "4 dvd unat x" "4 dvd unat y" "unat x < 104" "unat y < 104"
  shows "getf p x (setf p y v s) = (if x = y then v else getf p x s)"
proof -
  obtain i j where "unat x = 4 * i" "unat y = 4 * j" using assms(2,3) by (auto elim!: dvdE)
  moreover from this have "x = 4 * of_nat i" "y = 4 * of_nat j" by (metis of_nat_mult of_nat_numeral of_nat_unat_u32)+
  ultimately show ?thesis using getf_setf [OF assms(1,1), of j i v s] assms(4,5) by auto
qed

lemma setf_fields [simp]:
  "framemap (setf p x v s) = framemap s" "kheap (setf p x v s) = kheap s"
  "kheap_header_array (setf p x v s) = kheap_header_array s" "kheap_footer_array (setf p x v s) = kheap_footer_array s"
  by (simp_all add: setf_def)

text \<open>The words of a process structure.\<close>

definition struct_words :: "nat \<Rightarrow> nat set" where
  "struct_words q = {q..<q + 104}"

lemma setf_agree:
  assumes "proc_ok (of_nat q)" "q < 2 ^ 32" "4 dvd unat x" "unat x < 104"
  shows "agree (struct_words q) (kmem s) (kmem (setf (of_nat q) x v s))"
proof -
  have q: "unat (of_nat q :: u32) = q" using assms(2) by (rule unat_of_nat_u32)
  have "of_nat q + x = (of_nat (q + unat x) :: u32)" by simp
  moreover have "agree {q + unat x} (kmem s) (store32 (kmem s) (of_nat (q + unat x)) v)"
    using assms q by (intro agree_store) (auto simp: proc_ok_def)
  ultimately have "agree {q + unat x} (kmem s) (kmem (setf (of_nat q) x v s))" by (simp add: setf_def)
  then show ?thesis by (rule agree_mono) (use assms(4) in \<open>auto simp: struct_words_def\<close>)
qed

section \<open>The heap\<close>

lemma used_payload_aligned:
  assumes "blocks_at m a bs" "16 dvd a" "w \<in> used_payload a bs" "4 dvd w" "i < 4"
  shows "w + i \<in> used_payload a bs"
  using assms
proof (induction a bs rule: used_payload.induct)
  case (2 a n u bs)
  have n: "16 dvd n" "16 dvd a + n + 32" using "2.prems"(1,2) by auto
  show ?case
  proof (cases "w \<in> used_payload (a + n + 32) bs")
    case True
    then show ?thesis using "2.IH" [OF _ n(2)] "2.prems" by simp
  next
    case False
    then have w: "u" "a + 16 \<le> w" "w < a + 16 + n" using "2.prems"(3) by (auto split: if_splits)
    obtain x y z where "w = 4 * x" "a = 16 * y" "n = 16 * z" using "2.prems"(2,4) n(1) by (auto elim!: dvdE)
    moreover from this have "x < 4 * y + 4 + 4 * z" using w(3) by simp
    ultimately have "w + i < a + 16 + n" using "2.prems"(5) by linarith
    then show ?thesis using w by simp
  qed
qed simp

text \<open>What an allocation may change.\<close>

definition heap_gaps :: "nat \<Rightarrow> blocks \<Rightarrow> nat set" where
  "heap_gaps a bs = {a..<block_end a bs} - used_payload a bs"

lemma payload_kept_agree:
  assumes "payload_kept a bs m m'" "heap_inv s a bs"
  shows "agree (heap_gaps a bs) m m'"
  unfolding agree_def
proof (intro allI impI)
  fix w :: nat assume w: "4 dvd w" "w < 2 ^ 32" "w \<notin> heap_gaps a bs"
  have inv: "16 dvd a" "blocks_at (kmem s) a bs" "block_end a bs < 2 ^ 32" using assms(2) by (simp_all add: heap_inv_def)
  have "16 dvd block_end a bs" using inv(2,1) by (rule block_end_aligned)
  have "m' (of_nat (w + i)) = m (of_nat (w + i))" if i: "i < 4" for i
  proof (cases "w \<in> used_payload a bs")
    case True
    from used_payload_aligned [OF inv(2,1) this w(1) i] show ?thesis using assms(1) by (auto simp: payload_kept_def)
  next
    case False
    then have "w < a \<or> block_end a bs \<le> w" using w(3) by (auto simp: heap_gaps_def)
    moreover obtain x y where "w = 4 * x" "a = 16 * y" using w(1) inv(1) by (auto elim!: dvdE)
    ultimately have "w + i < a \<or> block_end a bs \<le> w + i" "w + i < 2 ^ 32" using i w(2) by auto
    then show ?thesis using assms(1) by (auto simp: payload_kept_def same_outside_def)
  qed
  from this [of 0] this [of 1] this [of 2] this [of 3] show "word_at m' w = word_at m w"
    by (simp add: word_at_def load32_def add.commute)
qed

lemma blocks_at_agree:
  assumes "blocks_at m a bs" "agree X m m'" "X \<inter> {a..<block_end a bs} \<subseteq> used_payload a bs" "16 dvd a" "block_end a bs < 2 ^ 32"
  shows "blocks_at m' a bs"
  using assms(1,3-5)
proof (induction a bs rule: used_payload.induct)
  case (2 a n u bs)
  define e where "e = block_end (a + n + 32) bs"
  have e: "a + n + 32 \<le> e" "e < 2 ^ 32" "16 dvd n" "16 dvd a + n + 32" "X \<inter> {a..<e} \<subseteq> used_payload a ((n, u) # bs)"
    using 2 by (auto simp: e_def)
  have tail: "k \<in> used_payload (a + n + 32) bs \<Longrightarrow> a + n + 48 \<le> k" for k
    using used_payload_bounds [of k "a + n + 32" bs] by simp
  have "word_at m' w = word_at m w" if "4 dvd w" "a \<le> w" "w < a + 16 \<or> a + n + 16 \<le> w" "w < a + n + 32" for w
  proof (rule agree_word [OF assms(2) that(1)])
    show "w < 2 ^ 32" using that e by simp
    show "w \<notin> X"
    proof
      assume "w \<in> X"
      then have "w \<in> used_payload a ((n, u) # bs)" using e that by auto
      then show False using that tail [of w] by (auto split: if_splits)
    qed
  qed
  moreover have "4 dvd a" "4 dvd n" using 2(4) e(3) by (auto elim!: dvdE)
  ultimately have "block_at m' a n u = block_at m a n u" by (simp add: block_at_def)
  moreover have "X \<inter> {a + n + 32..<e} \<subseteq> used_payload (a + n + 32) bs"
  proof
    fix w assume w: "w \<in> X \<inter> {a + n + 32..<e}"
    then have "w \<in> X \<inter> {a..<e}" by auto
    then have "w \<in> used_payload a ((n, u) # bs)" using e(5) by blast
    with w show "w \<in> used_payload (a + n + 32) bs" by (auto split: if_splits)
  qed
  then have "blocks_at m' (a + n + 32) bs" using 2 e by (simp add: e_def)
  ultimately show ?case using "2.prems"(1) by simp
qed simp

lemma heap_inv_agree:
  assumes "heap_inv s a bs" "agree X (kmem s) (kmem s')" "X \<inter> {a..<block_end a bs} \<subseteq> used_payload a bs"
    and "kheap s' = kheap s" "kheap_header_array s' = kheap_header_array s" "kheap_footer_array s' = kheap_footer_array s"
  shows "heap_inv s' a bs"
  using assms(1,4-6) blocks_at_agree [OF _ assms(2,3)] by (simp add: heap_inv_def)

text \<open>An allocation for which there is room.\<close>

lemma kmalloc_room:
  assumes "heap_inv s a bs" "sz \<noteq> 0" "unat sz \<le> 0xFFFFFFF0" "length bs < 4096" "fit_ok (round16 (unat sz)) bs"
    and "spec_alloc (round16 (unat sz)) a bs = Some (p, bs')"
  obtains s' n where "kmalloc sz s = Some (of_nat p, s')" "heap_only s s'" "heap_inv s' a bs'"
    "agree (heap_gaps a bs) (kmem s) (kmem s')" "unat sz \<le> n" "16 dvd p" "a + 16 \<le> p" "p + n + 16 \<le> block_end a bs"
    "{p..<p + n} \<inter> used_payload a bs = {}" "used_payload a bs' = used_payload a bs \<union> {p..<p + n}"
    "block_end a bs' = block_end a bs"
proof -
  note r = round16_less [OF assms(3)]
  obtain s' where s': "kmalloc sz s = Some (of_nat p, s')" "heap_only s s'" "heap_inv s' a bs'"
    "payload_kept a bs (kmem s) (kmem s')"
    using alloc_spec [OF assms(1,2,5) refl r(2,1) assms(4)] assms(6) by (auto simp: kmalloc_def)
  have inv: "16 dvd a" "blocks_at (kmem s) a bs" using assms(1) by (simp_all add: heap_inv_def)
  from spec_alloc_payload [OF assms(6) inv r(2)] obtain n where n: "round16 (unat sz) \<le> n" "p + n + 16 \<le> block_end a bs"
    "{p..<p + n} \<inter> used_payload a bs = {}" "used_payload a bs' = used_payload a bs \<union> {p..<p + n}"
    "a + 16 \<le> p" "16 dvd p" "block_end a bs' = block_end a bs" by auto
  show ?thesis using n r(3) by (intro that [OF s'(1-3) payload_kept_agree [OF s'(4) assms(1)], of n]) auto
qed

section \<open>The new directory\<close>

text \<open>The kernel addresses of frame \<open>f\<close> and \<open>n\<close> frames from it on.\<close>

definition frame_words :: "nat \<Rightarrow> nat \<Rightarrow> nat set" where
  "frame_words f n = {0xC0000000 + 4096 * f..<0xC0000000 + 4096 * (f + n)}"

lemma frame_words_disjoint:
  assumes "0xC0000000 + 4096 * g + 4 * k \<in> frame_words f n" "k < 1024"
  shows "f \<le> g \<and> g < f + n"
  using assms by (auto simp: frame_words_def)

lemma fword_agree:
  assumes "agree X m m'" "g < LOW_FRAMES" "k < 1024" "0xC0000000 + 4096 * g + 4 * k \<notin> X"
  shows "fword m' g k = fword m g k"
  using agree_word [OF assms(1) fptr_word [OF assms(2,3)] assms(4)] by (simp add: fword_word_at)

lemma word_at_clear:
  assumes "4 dvd A" "4 dvd n" "A + n \<le> 2 ^ 32" "0 < n" "n < 2 ^ 32" "4 dvd w" "w < 2 ^ 32"
  shows "word_at (memset (of_nat A) 0 (of_nat n) m) w = (if A \<le> w \<and> w < A + n then 0 else word_at m w)"
proof -
  have un: "unat (of_nat n :: u32) = n" using assms(5) by (rule unat_of_nat_u32)
  obtain x y z where e: "w = 4 * x" "A = 4 * y" "n = 4 * z" using assms(1,2,6) by (auto elim!: dvdE)
  have byte: "memset (of_nat A) 0 (of_nat n) m (of_nat (w + i)) = (if A \<le> w \<and> w < A + n then 0 else m (of_nat (w + i)))"
    if "i < 4" for i
  proof -
    have "w + i < 2 ^ 32" using assms(7) that e(1) by simp
    then have "unat (of_nat (w + i) - of_nat A :: u32) < n \<longleftrightarrow> A \<le> w + i \<and> w + i < A + n"
      using assms(3,4) by (intro unat_diff_range)
    also have "\<dots> \<longleftrightarrow> A \<le> w \<and> w < A + n"
    proof -
      have "4 * x < 4 * y + 4 * z \<longleftrightarrow> 4 * x + i < 4 * y + 4 * z" using that by (cases "x < y + z") auto
      moreover have "4 * y \<le> 4 * x \<longleftrightarrow> 4 * y \<le> 4 * x + i" using that by auto
      ultimately show ?thesis by (simp add: e)
    qed
    finally show ?thesis by (simp add: memset_fill block_fill_def un)
  qed
  from byte [of 0] byte [of 1] byte [of 2] byte [of 3] show ?thesis by (simp add: word_at_def load32_def add.commute)
qed

lemma clear_dir:
  assumes "Suc d < LOW_FRAMES"
  shows "agree (frame_words d 2) m (memset (fptr d 0) 0 (PAGE_SIZE * 2) m)"
    "k < 1024 \<Longrightarrow> fword (memset (fptr d 0) 0 (PAGE_SIZE * 2) m) d k = 0"
    "k < 1024 \<Longrightarrow> fword (memset (fptr d 0) 0 (PAGE_SIZE * 2) m) (Suc d) k = 0"
proof -
  let ?A = "0xC0000000 + 4096 * d"
  have w: "word_at (memset (fptr d 0) 0 (PAGE_SIZE * 2) m) w = (if ?A \<le> w \<and> w < ?A + 8192 then 0 else word_at m w)"
    if "4 dvd w" "w < 2 ^ 32" for w
    using word_at_clear [of ?A 8192 w m] that assms by (simp add: fptr_def PAGE_SIZE_def)
  then show "agree (frame_words d 2) m (memset (fptr d 0) 0 (PAGE_SIZE * 2) m)" by (auto simp: agree_def frame_words_def)
  show "k < 1024 \<Longrightarrow> fword (memset (fptr d 0) 0 (PAGE_SIZE * 2) m) d k = 0"
    "k < 1024 \<Longrightarrow> fword (memset (fptr d 0) 0 (PAGE_SIZE * 2) m) (Suc d) k = 0"
    using assms by (auto simp: fword_word_at w)
qed

lemma clone_entries_append: "clone_entries src dest (xs @ ys) s = clone_entries src dest xs s \<bind> clone_entries src dest ys"
proof (induction xs arbitrary: s)
  case (Cons x xs)
  then show ?case by (cases "clone_entry src dest x s") simp_all
qed simp

text \<open>A clone of the kernel's directory, which has no user part: the upper quarter is copied.\<close>

lemma clone_kernel_entries:
  assumes "Suc d < LOW_FRAMES" "4 dvd D" "D + 8192 \<le> 2 ^ 32" "{D..<D + 8192} \<inter> frame_words d 2 = {}" "n \<le> 1024"
    and "\<forall>i<768. entry_frame (word_at (kmem s) (D + 4 * i)) = 0"
  shows "\<exists>m'. clone_entries (of_nat D) (fptr d 0) [0..<n] s = Some (s\<lparr>kmem := m'\<rparr>) \<and> agree (frame_words d 2) (kmem s) m' \<and>
    (\<forall>i<1024. fword m' d i = (if 768 \<le> i \<and> i < n then word_at (kmem s) (D + 4 * i) else fword (kmem s) d i) \<and>
      fword m' (Suc d) i = (if 768 \<le> i \<and> i < n then word_at (kmem s) (D + 4096 + 4 * i) else fword (kmem s) (Suc d) i))"
  using assms(5)
proof (induction n)
  case 0
  then show ?case by (intro exI [of _ "kmem s"]) simp
next
  case (Suc n)
  then obtain m where m: "clone_entries (of_nat D) (fptr d 0) [0..<n] s = Some (s\<lparr>kmem := m\<rparr>)" "agree (frame_words d 2) (kmem s) m"
    "\<And>i. i < 1024 \<Longrightarrow> fword m d i = (if 768 \<le> i \<and> i < n then word_at (kmem s) (D + 4 * i) else fword (kmem s) d i)"
    "\<And>i. i < 1024 \<Longrightarrow> fword m (Suc d) i = (if 768 \<le> i \<and> i < n then word_at (kmem s) (D + 4096 + 4 * i) else fword (kmem s) (Suc d) i)"
    by auto
  have n: "n < 1024" using Suc.prems by simp
  have src: "load32 m' (dir_entry (of_nat D) (of_nat n)) = word_at (kmem s) (D + 4 * n)"
    "load32 m' (dir_table (of_nat D) (of_nat n)) = word_at (kmem s) (D + 4096 + 4 * n)"
    if "agree (frame_words d 2) (kmem s) m'" for m'
  proof -
    have "D + 4 * n \<in> {D..<D + 8192}" "D + 4096 + 4 * n \<in> {D..<D + 8192}" using n by auto
    then have "D + 4 * n \<notin> frame_words d 2" "D + 4096 + 4 * n \<notin> frame_words d 2" using assms(4) by blast+
    then have "word_at m' (D + 4 * n) = word_at (kmem s) (D + 4 * n)" "word_at m' (D + 4096 + 4 * n) = word_at (kmem s) (D + 4096 + 4 * n)"
      using assms(2,3) n by (auto intro!: agree_word [OF that])
    then show "load32 m' (dir_entry (of_nat D) (of_nat n)) = word_at (kmem s) (D + 4 * n)"
      "load32 m' (dir_table (of_nat D) (of_nat n)) = word_at (kmem s) (D + 4096 + 4 * n)"
      by (simp_all add: word_at_def dir_entry_def dir_table_def)
  qed
  show ?case
  proof (cases "n < 768")
    case True
    then have "clone_entry (of_nat D) (fptr d 0) n (s\<lparr>kmem := m\<rparr>) = Some (s\<lparr>kmem := m\<rparr>)"
      using assms(6) src(1) [OF m(2)] by (simp add: clone_entry_def KERN_START_TBL_def)
    with True m show ?thesis by (intro exI [of _ m]) (auto simp: clone_entries_append)
  next
    case False
    define m1 where "m1 = store32 m (fptr d n) (word_at (kmem s) (D + 4 * n))"
    define m2 where "m2 = store32 m1 (fptr (Suc d) n) (word_at (kmem s) (D + 4096 + 4 * n))"
    have at: "agree (frame_words d 2) mm (store32 mm (fptr (d + j) n) v)" if "j < 2" for j mm v
    proof -
      have "agree {0xC0000000 + 4096 * (d + j) + 4 * n} mm (store32 mm (fptr (d + j) n) v)"
        unfolding fptr_def using assms(1) n that by (intro agree_store) auto
      then show ?thesis by (rule agree_mono) (use n that in \<open>auto simp: frame_words_def\<close>)
    qed
    have a1: "agree (frame_words d 2) (kmem s) m1" using agree_trans [OF m(2) at [of 0 m]] by (simp add: m1_def)
    have a2: "agree (frame_words d 2) (kmem s) m2" using agree_trans [OF a1 at [of 1 m1]] by (simp add: m2_def)
    have "clone_entry (of_nat D) (fptr d 0) n (s\<lparr>kmem := m\<rparr>) = Some (s\<lparr>kmem := m2\<rparr>)"
      using False src(1) [OF m(2)] src(2) [OF a1]
      by (simp add: clone_entry_def KERN_START_TBL_def Let_def upd_word_def m1_def m2_def)
    moreover have "fword m2 d i = (if i = n then word_at (kmem s) (D + 4 * n) else fword m d i)"
      "fword m2 (Suc d) i = (if i = n then word_at (kmem s) (D + 4096 + 4 * n) else fword m (Suc d) i)" if "i < 1024" for i
      using that n assms(1) by (simp_all add: m2_def m1_def fword_store)
    ultimately show ?thesis using False m a2 by (intro exI [of _ m2]) (auto simp: clone_entries_append less_Suc_eq)
  qed
qed

section \<open>The kernel's memory\<close>

definition word_frame :: "nat \<Rightarrow> nat" where
  "word_frame w = (w - 0xC0000000) div 4096"

definition in_window :: "nat \<Rightarrow> bool" where
  "in_window w \<longleftrightarrow> 0xC0000000 \<le> w \<and> w < 0xF8000000"

text \<open>
  The invariant that the operations on processes rely on: the heap, the kernel's directory and its
  tables are well formed, lie in frames that are marked used and do not overlap, and the kernel's
  directory has no user part.
\<close>

definition kernel_mem :: "nat \<Rightarrow> nat \<Rightarrow> nat \<Rightarrow> blocks \<Rightarrow> 'a vmm_scheme \<Rightarrow> bool" where
  "kernel_mem D T a bs s \<longleftrightarrow> heap_inv s a bs \<and> kernel_paging D T s \<and> null_reserved s \<and>
     (\<forall>w\<in>{a..<block_end a bs} \<union> {D..<D + 8192} \<union> {T..<T + 0x100000}. in_window w \<and> frame_used s (word_frame w)) \<and>
     {a..<block_end a bs} \<inter> ({D..<D + 8192} \<union> {T..<T + 0x100000}) = {} \<and>
     (\<forall>i<768. entry_frame (word_at (kmem s) (D + 4 * i)) = 0)"

text \<open>
  \<open>kept a bs s t\<close>: from \<open>s\<close> to \<open>t\<close> frames stay used, and words keep their contents, but for frames of
  low memory that were free and the parts of the heap that were not allocated.
\<close>

definition kept :: "nat \<Rightarrow> blocks \<Rightarrow> 'a kmm_scheme \<Rightarrow> 'a kmm_scheme \<Rightarrow> bool" where
  "kept a bs s t \<longleftrightarrow> (\<forall>f<ALL_FRAMES. frame_used s f \<longrightarrow> frame_used t f) \<and>
     (\<forall>w<2 ^ 32. 4 dvd w \<longrightarrow> (in_window w \<longrightarrow> frame_used s (word_frame w)) \<longrightarrow> w \<notin> heap_gaps a bs \<longrightarrow>
        word_at (kmem t) w = word_at (kmem s) w)"

lemma kept_refl [simp]: "kept a bs s s"
  by (simp add: kept_def)

lemma kept_word:
  "kept a bs s t \<Longrightarrow> 4 dvd w \<Longrightarrow> in_window w \<Longrightarrow> frame_used s (word_frame w) \<Longrightarrow> w \<notin> heap_gaps a bs \<Longrightarrow>
   word_at (kmem t) w = word_at (kmem s) w"
  by (simp add: kept_def in_window_def)

lemma kept_step:
  assumes "kept a bs s t" "agree X (kmem t) (kmem t')"
    and "\<And>f. f < ALL_FRAMES \<Longrightarrow> frame_used t f \<Longrightarrow> frame_used t' f"
    and "\<And>w. w \<in> X \<Longrightarrow> in_window w \<longrightarrow> frame_used s (word_frame w) \<Longrightarrow> w \<in> heap_gaps a bs"
  shows "kept a bs s t'"
proof -
  have "word_at (kmem t') w = word_at (kmem s) w"
    if w: "4 dvd w" "w < 2 ^ 32" "in_window w \<longrightarrow> frame_used s (word_frame w)" "w \<notin> heap_gaps a bs" for w
  proof -
    have "w \<notin> X" using assms(4) w by blast
    then have "word_at (kmem t') w = word_at (kmem t) w"
      using agree_word [OF assms(2) w(1,2)] by simp
    also have "\<dots> = word_at (kmem s) w" using assms(1) w by (simp add: kept_def)
    finally show ?thesis .
  qed
  then show ?thesis using assms(1,3) by (simp add: kept_def)
qed

lemma kept_same:
  assumes "kept a bs s t" "agree X (kmem t) (kmem t')" "framemap t' = framemap t" "X \<subseteq> heap_gaps a bs"
  shows "kept a bs s t'"
  using kept_step [OF assms(1,2)] assms(3,4) by (auto simp: frame_used_def)

lemma kept_framemap:
  assumes "kept a bs s t" "kmem t' = kmem t" "\<And>f. f < ALL_FRAMES \<Longrightarrow> frame_used t f \<Longrightarrow> frame_used t' f"
  shows "kept a bs s t'"
  using kept_step [OF assms(1), of "{}" t'] assms(2,3) by simp

lemma kernel_mem_frames:
  assumes "kernel_mem D T a bs s"
  shows "w \<in> {a..<block_end a bs} \<Longrightarrow> in_window w \<and> frame_used s (word_frame w)"
    "w \<in> {D..<D + 8192} \<Longrightarrow> in_window w \<and> frame_used s (word_frame w)"
    "w \<in> {T..<T + 0x100000} \<Longrightarrow> in_window w \<and> frame_used s (word_frame w)"
  using assms unfolding kernel_mem_def by blast+

lemma heap_gaps_sub: "heap_gaps a bs \<subseteq> {a..<block_end a bs}"
  by (auto simp: heap_gaps_def)

text \<open>The invariant of the kernel survives what \<open>kept\<close> allows, with a heap that is well formed.\<close>

lemma kernel_words_kept:
  assumes "kernel_mem D T a bs s" "kept a bs s t"
  shows "i < 2048 \<Longrightarrow> word_at (kmem t) (D + 4 * i) = word_at (kmem s) (D + 4 * i)"
    "k < 0x40000 \<Longrightarrow> word_at (kmem t) (T + 4 * k) = word_at (kmem s) (T + 4 * k)"
proof -
  note inv = assms(1) [unfolded kernel_mem_def]
  have lay: "kernel_layout D T" using inv by (simp add: kernel_paging_def)
  have same: "word_at (kmem t) w = word_at (kmem s) w" if "w \<in> {D..<D + 8192} \<union> {T..<T + 0x100000}" "4 dvd w" for w
  proof -
    have "w \<notin> {a..<block_end a bs}" using inv that(1) by blast
    then have "w \<notin> heap_gaps a bs" using heap_gaps_sub by blast
    moreover have "in_window w \<and> frame_used s (word_frame w)" using inv that(1) by blast
    ultimately show ?thesis using kept_word [OF assms(2) that(2)] by blast
  qed
  have al: "4 dvd D" "4 dvd T" using lay by (auto simp: kernel_layout_def elim!: dvdE)
  show "i < 2048 \<Longrightarrow> word_at (kmem t) (D + 4 * i) = word_at (kmem s) (D + 4 * i)"
    using al by (intro same) auto
  show "k < 0x40000 \<Longrightarrow> word_at (kmem t) (T + 4 * k) = word_at (kmem s) (T + 4 * k)"
    using al by (intro same) auto
qed

lemma kernel_mem_kept:
  assumes "kernel_mem D T a bs s" "kept a bs s t" "heap_inv t a bs'" "block_end a bs' = block_end a bs"
    and "kernel_directory t = kernel_directory s"
  shows "kernel_mem D T a bs' t"
proof -
  note inv = assms(1) [unfolded kernel_mem_def]
  note D = kernel_words_kept(1) [OF assms(1,2)] and T = kernel_words_kept(2) [OF assms(1,2)]
  have used: "frame_used t (word_frame w)" if "in_window w" "frame_used s (word_frame w)" for w
    using that assms(2) by (auto simp: kept_def in_window_def word_frame_def)
  have D': "word_at (kmem t) (D + 3072 + 4 * n) = word_at (kmem s) (D + 3072 + 4 * n)"
    "word_at (kmem t) (D + 7168 + 4 * n) = word_at (kmem s) (D + 7168 + 4 * n)" if "n < 256" for n
    using D [of "768 + n"] D [of "1792 + n"] that by (simp_all add: algebra_simps)
  have "kernel_paging D T t"
    using inv assms(5) D' T by (simp add: kernel_paging_def kernel_entries_def Let_def)
  moreover have "null_reserved t" using inv assms(2) by (simp add: null_reserved_def kept_def)
  moreover have "\<forall>i<768. entry_frame (word_at (kmem t) (D + 4 * i)) = 0" using inv D by simp
  ultimately show ?thesis unfolding kernel_mem_def assms(4) using assms(3) inv used by blast
qed

lemma fresh_frame_words:
  assumes "w \<in> frame_words d n" "in_window w" "frame_used s (word_frame w)" "\<And>j. j < n \<Longrightarrow> \<not> frame_used s (d + j)"
  shows False
proof -
  have "d \<le> word_frame w" "word_frame w < d + n"
    using assms(1) by (auto simp: frame_words_def word_frame_def less_mult_imp_div_less div_le_mono)
  then obtain j where "word_frame w = d + j" "j < n" by (metis le_iff_add nat_add_left_cancel_less)
  with assms(3,4) show False by simp
qed

section \<open>Structure and directory\<close>

lemma procs_fields_of_kmm_more:
  assumes "kmm.more s = kmm.more (s' :: 'a procs_scheme)"
  shows "kernel_directory s = kernel_directory s'" "cr3 s = cr3 s'" "proc_list s = proc_list s'"
    "current_proc s = current_proc s'" "pid_ctr s = pid_ctr s'" "interrupt_handlers s = interrupt_handlers s'" "procs.more s = procs.more s'"
  using assms by (cases s; cases s'; simp)+

lemma kmm_more_steps [simp]:
  "kmm.more (setf p x v s) = kmm.more s" "heap_only s s' \<Longrightarrow> kmm.more s' = kmm.more s"
  by (cases s; simp add: setf_def) (cases s; cases s'; simp add: heap_only_def)

lemma marked_same:
  assumes "marked s s' f c"
  shows "kmem s' = kmem (s :: 'a kmm_scheme)" "kheap s' = kheap s" "kheap_header_array s' = kheap_header_array s"
    "kheap_footer_array s' = kheap_footer_array s" "kmm.more s' = kmm.more s"
proof -
  from assms obtain fm where "s' = s\<lparr>framemap := fm\<rparr>" by (metis marked_def)
  then show "kmem s' = kmem s" "kheap s' = kheap s" "kheap_header_array s' = kheap_header_array s"
    "kheap_footer_array s' = kheap_footer_array s" "kmm.more s' = kmm.more s" by simp_all
qed

lemma first_fit_cong: "framemap s' = framemap s \<Longrightarrow> first_fit s' lo hi c = first_fit s lo hi c"
  by (simp add: first_fit_def free_run_def frame_used_def)

lemma getf_agree:
  assumes "agree X (kmem s) (kmem s')" "struct_words q \<inter> X = {}" "4 dvd q" "q + 104 \<le> 2 ^ 32" "4 dvd unat x" "unat x < 104"
  shows "getf (of_nat q) x s' = getf (of_nat q) x s"
proof -
  have "q + unat x \<in> struct_words q" using assms(6) by (simp add: struct_words_def)
  then have "q + unat x \<notin> X" using assms(2) by blast
  then have "word_at (kmem s') (q + unat x) = word_at (kmem s) (q + unat x)"
    using assms(3-6) by (intro agree_word [OF assms(1)]) auto
  then show ?thesis using getf_word [of q "unat x" s] getf_word [of q "unat x" s'] by simp
qed

lemmas struct_offsets = off_pid_def off_page_directory_def off_procstate_def off_priority_def off_brk_def off_heap_start_def
  off_stack_top_def off_stack_size_def off_kstack_top_def off_kstack_size_def off_kstack_base_def off_cr3_def off_run_next_def

lemma struct_in_gaps:
  assumes "{q..<q + n} \<inter> used_payload a bs = {}" "104 \<le> n" "a + 16 \<le> q" "q + n + 16 \<le> block_end a bs"
  shows "struct_words q \<subseteq> heap_gaps a bs"
proof
  fix w assume "w \<in> struct_words q"
  then have w: "w \<in> {q..<q + n}" using assms(2) by (simp add: struct_words_def)
  then have "w \<notin> used_payload a bs" using assms(1) by blast
  then show "w \<in> heap_gaps a bs" using w assms(3,4) by (simp add: heap_gaps_def)
qed

text \<open>The structure at \<open>q\<close> lies in memory that was free before and is allocated in \<open>bs'\<close>.\<close>

definition placed :: "nat \<Rightarrow> blocks \<Rightarrow> blocks \<Rightarrow> nat \<Rightarrow> bool" where
  "placed a bs bs' q \<longleftrightarrow> proc_ok (of_nat q) \<and> q < 2 ^ 32 \<and> struct_words q \<subseteq> heap_gaps a bs \<and>
     struct_words q \<subseteq> used_payload a bs' \<and> block_end a bs' = block_end a bs \<and> used_payload a bs \<subseteq> used_payload a bs'"

text \<open>What holds while the process at \<open>q\<close> is under construction; \<open>s\<close> is the state at the start.\<close>

definition under_way :: "nat \<Rightarrow> blocks \<Rightarrow> blocks \<Rightarrow> nat \<Rightarrow> 'a procs_scheme \<Rightarrow> 'a procs_scheme \<Rightarrow> bool" where
  "under_way a bs bs' q s t \<longleftrightarrow> placed a bs bs' q \<and> kept a bs s t \<and> heap_inv t a bs' \<and>
     kmm.more t = kmm.more (s\<lparr>pid_ctr := pid_ctr s + 1\<rparr>)"

lemma under_way_fields:
  assumes "under_way a bs bs' q s t"
  shows "kernel_directory t = kernel_directory s" "cr3 t = cr3 s" "proc_list t = proc_list s" "current_proc t = current_proc s"
    "pid_ctr t = pid_ctr s + 1" "interrupt_handlers t = interrupt_handlers s" "procs.more t = procs.more s"
  using procs_fields_of_kmm_more [of t "s\<lparr>pid_ctr := pid_ctr s + 1\<rparr>"] assms by (simp_all add: under_way_def)

lemma under_way_setf:
  assumes "under_way a bs bs' q s t" "4 dvd unat x" "unat x < 104"
  shows "under_way a bs bs' q s (setf (of_nat q) x v t)"
proof -
  have p: "proc_ok (of_nat q)" "q < 2 ^ 32" "struct_words q \<subseteq> heap_gaps a bs" "struct_words q \<subseteq> used_payload a bs'"
    using assms(1) by (simp_all add: under_way_def placed_def)
  note ag = setf_agree [OF p(1,2) assms(2,3), of t v]
  have "kept a bs s (setf (of_nat q) x v t)"
    using kept_same [OF _ ag _ p(3)] assms(1) by (simp add: under_way_def)
  moreover have "heap_inv (setf (of_nat q) x v t) a bs'"
    using heap_inv_agree [OF _ ag] assms(1) p(4) by (auto simp: under_way_def)
  ultimately show ?thesis using assms(1) by (simp add: under_way_def)
qed

lemma create_struct_ok:
  fixes s :: "'a procs_scheme"
  assumes "heap_inv s a bs" "length bs < 4096" "fit_ok 112 bs" "spec_alloc 112 a bs = Some (q, bs')"
  obtains t where "create_struct prio s = Some (of_nat q, t)" "under_way a bs bs' q s t" "framemap t = framemap s"
    "getf (of_nat q) off_pid t = pid_ctr s" "getf (of_nat q) off_priority t = procpriority_val prio"
proof -
  have r: "round16 (unat sizeof_proc) = 112" by (simp add: round16_def sizeof_proc_def)
  obtain s1 n where k: "kmalloc sizeof_proc s = Some (of_nat q, s1)" "heap_only s s1" "heap_inv s1 a bs'"
    "agree (heap_gaps a bs) (kmem s) (kmem s1)" "104 \<le> n" "16 dvd q" "a + 16 \<le> q" "q + n + 16 \<le> block_end a bs"
    "{q..<q + n} \<inter> used_payload a bs = {}" "used_payload a bs' = used_payload a bs \<union> {q..<q + n}"
    "block_end a bs' = block_end a bs"
    using kmalloc_room [OF assms(1), of sizeof_proc q bs'] assms(2-4) r by (auto simp: sizeof_proc_def)
  have e: "block_end a bs < 2 ^ 32" "0 < a" using assms(1) by (simp_all add: heap_inv_def)
  have q: "unat (of_nat q :: u32) = q" using k(8) e(1) by (intro unat_of_nat_u32) simp
  have "4 dvd q" using k(6) by (rule dvd_trans [rotated]) simp
  moreover have "(of_nat q :: u32) \<noteq> 0" using q k(7) e(2) by auto
  ultimately have ok: "proc_ok (of_nat q)" using k(5,8) e(1) q by (simp add: proc_ok_def)
  have "struct_words q \<subseteq> {q..<q + n}" using k(5) by (simp add: struct_words_def)
  then have pl: "placed a bs bs' q"
    using ok k(8,10,11) e(1) struct_in_gaps [OF k(9,5,7,8)] by (auto simp: placed_def)
  have fm: "framemap s1 = framemap s" using k(2) by (cases s; cases s1) (simp add: heap_only_def)
  have kp: "kept a bs s s1" using kept_same [OF kept_refl k(4) fm] by simp
  define t0 where "t0 = (setf (of_nat q) off_pid (pid_ctr s) s1)\<lparr>pid_ctr := pid_ctr s + 1\<rparr>"
  have more: "kmm.more s1 = kmm.more s" using k(2) by simp
  note f = procs_fields_of_kmm_more [OF more]
  have ag: "agree (struct_words q) (kmem s1) (kmem t0)"
    using setf_agree [OF ok _, of off_pid s1 "pid_ctr s"] pl by (simp add: t0_def placed_def off_pid_def)
  have "kept a bs s t0" using kept_same [OF kp ag] pl by (simp add: t0_def placed_def)
  moreover have "heap_inv t0 a bs'" using heap_inv_agree [OF k(3) ag] pl by (auto simp: t0_def placed_def)
  moreover have "kmm.more t0 = kmm.more (s\<lparr>pid_ctr := pid_ctr s + 1\<rparr>)"
    using more by (cases s; cases s1) (simp add: t0_def setf_def)
  ultimately have t0: "under_way a bs bs' q s t0" using pl by (simp add: under_way_def)
  define t where "t = setf (of_nat q) off_priority (procpriority_val prio) (setf (of_nat q) off_procstate (procstate_val PROC_SETUP) t0)"
  show ?thesis
  proof (rule that [of t])
    show "create_struct prio s = Some (of_nat q, t)"
      using k(1) f(5) ok by (simp add: create_struct_def t_def t0_def proc_ok_def Let_def setf_def)
    show "under_way a bs bs' q s t" unfolding t_def
      using t0 by (intro under_way_setf) (simp_all add: struct_offsets)
    show "framemap t = framemap s" using fm by (simp add: t_def t0_def)
    have "getf (of_nat q) off_pid t0 = pid_ctr s"
      using getf_setf_off [OF ok, of off_pid off_pid "pid_ctr s" s1] by (simp add: t0_def getf_def off_pid_def)
    then show "getf (of_nat q) off_pid t = pid_ctr s" "getf (of_nat q) off_priority t = procpriority_val prio"
      by (simp_all add: t_def getf_setf_off [OF ok] struct_offsets)
  qed
qed


text \<open>Words of frames that were free at the start may change freely.\<close>

definition fresh_words :: "'a kmm_scheme \<Rightarrow> nat set \<Rightarrow> bool" where
  "fresh_words s X \<longleftrightarrow> (\<forall>w\<in>X. in_window w \<and> \<not> frame_used s (word_frame w))"

lemma fresh_frames:
  assumes "free_run s d n" "d + n \<le> LOW_FRAMES"
  shows "fresh_words s (frame_words d n)"
proof -
  have "in_window w" if "w \<in> frame_words d n" for w using that assms(2) by (auto simp: frame_words_def in_window_def)
  then show ?thesis unfolding fresh_words_def using fresh_frame_words [of _ d n s] assms(1) by (auto simp: free_run_def)
qed

lemma fresh_heap:
  assumes "kernel_mem D T a bs s" "fresh_words s X"
  shows "X \<inter> {a..<block_end a bs} = {}"
  using kernel_mem_frames(1) [OF assms(1)] assms(2) unfolding fresh_words_def by blast

lemma under_way_fresh:
  assumes "kernel_mem D T a bs s" "under_way a bs bs' q s t" "agree X (kmem t) (kmem t')" "fresh_words s X"
    and "\<And>f. f < ALL_FRAMES \<Longrightarrow> frame_used t f \<Longrightarrow> frame_used t' f"
    and "kheap t' = kheap t" "kheap_header_array t' = kheap_header_array t" "kheap_footer_array t' = kheap_footer_array t"
    and "kmm.more t' = kmm.more t"
  shows "under_way a bs bs' q s t'"
proof -
  have "kept a bs s t'"
    using kept_step [OF _ assms(3,5)] assms(2,4) unfolding under_way_def fresh_words_def by blast
  moreover have "heap_inv t' a bs'"
  proof -
    have "X \<inter> {a..<block_end a bs'} = {}" using fresh_heap [OF assms(1,4)] assms(2) by (simp add: under_way_def placed_def)
    then show ?thesis using heap_inv_agree [OF _ assms(3) _ assms(6-8)] assms(2) by (auto simp: under_way_def)
  qed
  ultimately show ?thesis using assms(2,9) by (simp add: under_way_def)
qed

lemma under_way_mem:
  assumes "kernel_mem D T a bs s" "under_way a bs bs' q s t" "agree X (kmem t) m" "fresh_words s X"
  shows "under_way a bs bs' q s (t\<lparr>kmem := m\<rparr>)"
  using assms by (intro under_way_fresh [OF assms(1,2)]) (simp_all add: frame_used_def)

lemma getf_fresh:
  assumes "kernel_mem D T a bs s" "placed a bs bs' q" "agree X (kmem t) (kmem t')" "fresh_words s X" "4 dvd unat x" "unat x < 104"
  shows "getf (of_nat q) x t' = getf (of_nat q) x t"
proof -
  have "struct_words q \<subseteq> {a..<block_end a bs}" using assms(2) heap_gaps_sub by (auto simp: placed_def)
  then have "struct_words q \<inter> X = {}" using fresh_heap [OF assms(1,4)] by blast
  moreover have "4 dvd q" "q + 104 \<le> 2 ^ 32" using assms(2) by (auto simp: placed_def proc_ok_def unat_of_nat_u32)
  ultimately show ?thesis using assms(3,5,6) by (intro getf_agree)
qed

lemma fword_setf:
  assumes "kernel_mem D T a bs s" "placed a bs bs' q" "g < LOW_FRAMES" "k < 1024" "\<not> frame_used s g" "4 dvd unat x" "unat x < 104"
  shows "fword (kmem (setf (of_nat q) x v t)) g k = fword (kmem t) g k"
proof (rule fword_agree [OF setf_agree])
  have p: "struct_words q \<subseteq> {a..<block_end a bs}" using assms(2) heap_gaps_sub by (auto simp: placed_def)
  show "proc_ok (of_nat q)" "q < 2 ^ 32" using assms(2) by (simp_all add: placed_def)
  have "word_frame (0xC0000000 + 4096 * g + 4 * k) = g" using assms(4) by (simp add: word_frame_def)
  then show "0xC0000000 + 4096 * g + 4 * k \<notin> struct_words q"
    using kernel_mem_frames(1) [OF assms(1)] p assms(5) by (metis subsetD)
qed (use assms in simp_all)

lemma KV2P_fptr: "KV2P (fptr d 0) = frame_addr d"
  by (simp add: KV2P_def fptr_def frame_addr_def)

lemma create_directory_ok:
  fixes s :: "'a procs_scheme"
  assumes mem: "kernel_mem D T a bs s" and uw: "under_way a bs bs' q s t" and "framemap t = framemap s"
    and "first_fit s 0 LOW_FRAMES 2 = Some d"
  obtains t' where "create_directory (of_nat q) t = Some (True, t')" "under_way a bs bs' q s t'"
    "\<forall>g<ALL_FRAMES. frame_used t' g \<longleftrightarrow> g = d \<or> g = Suc d \<or> frame_used s g"
    "\<forall>i<1024. fword (kmem t') d i = (if 768 \<le> i then word_at (kmem s) (D + 4 * i) else 0)"
    "\<forall>x. 4 dvd unat x \<and> unat x < 104 \<longrightarrow> getf (of_nat q) x t' =
      (if x = off_page_directory then fptr d 0 else if x = off_cr3 then frame_addr d else getf (of_nat q) x t)"
proof -
  have pl: "placed a bs bs' q" using uw by (simp add: under_way_def)
  then have ok: "proc_ok (of_nat q)" by (simp add: placed_def)
  have d: "d + 2 \<le> LOW_FRAMES" "free_run s d 2" using assms(4) by (simp_all add: first_fit_Some)
  then have un: "\<not> frame_used s d" "\<not> frame_used s (Suc d)" by (auto simp: free_run_def dest: spec [of _ 0] spec [of _ 1])
  note fresh = fresh_frames [OF d(2,1)]
  obtain s1 where s1: "alloc_pages PMM_FLAGS_DEFAULT 2 t = Some (frame_addr d, s1)" "marked t s1 d 2"
    using alloc_default_hit [of t 2 d] assms(4) first_fit_cong [OF assms(3)] by auto
  note m1 = marked_same [OF s1(2)]
  have u1: "frame_used s1 g \<longleftrightarrow> g = d \<or> g = Suc d \<or> frame_used s g" if "g < ALL_FRAMES" for g
    using s1(2) that assms(3) by (auto simp: marked_def frame_used_def)
  have w1: "under_way a bs bs' q s s1"
    using under_way_fresh [OF mem uw, of "{}" s1] m1 u1 assms(3) by (simp add: fresh_words_def frame_used_def)
  define s2 where "s2 = setf (of_nat q) off_page_directory (fptr d 0) s1"
  have w2: "under_way a bs bs' q s s2" unfolding s2_def using w1 by (rule under_way_setf) (simp_all add: struct_offsets)
  have g2: "getf (of_nat q) x s2 = (if x = off_page_directory then fptr d 0 else getf (of_nat q) x t)"
    if "4 dvd unat x" "unat x < 104" for x
    using getf_setf_off [OF ok that(1) _ that(2), of off_page_directory "fptr d 0" s1] m1(1)
    by (simp add: s2_def struct_offsets getf_def)
  define s3 where "s3 = s2\<lparr>kmem := memset (fptr d 0) 0 (PAGE_SIZE * 2) (kmem s2)\<rparr>"
  note cl = clear_dir [where d = d and m = "kmem s2"]
  have a3: "agree (frame_words d 2) (kmem s2) (kmem s3)" using cl(1) d(1) by (simp add: s3_def)
  have w3: "under_way a bs bs' q s s3" unfolding s3_def using a3 by (intro under_way_mem [OF mem w2 _ fresh]) (simp add: s3_def)
  have apart: "{D..<D + 8192} \<inter> frame_words d 2 = {}"
    using kernel_mem_frames(2) [OF mem] fresh unfolding fresh_words_def by blast
  have lay: "4 dvd D" "D + 8192 \<le> 2 ^ 32"
    using mem by (auto simp: kernel_mem_def kernel_paging_def kernel_layout_def elim!: dvdE)
  have kp: "kept a bs s s3" using w3 by (simp only: under_way_def)
  note k3 = kernel_words_kept(1) [OF mem kp]
  have "\<forall>i<768. entry_frame (word_at (kmem s) (D + 4 * i)) = 0" using mem unfolding kernel_mem_def by blast
  then have "\<forall>i<768. entry_frame (word_at (kmem s3) (D + 4 * i)) = 0" using k3 by simp
  from clone_kernel_entries [OF _ lay apart order_refl this] d(1)
  obtain m where m: "clone_page_dir (of_nat D) (fptr d 0) s3 = Some (s3\<lparr>kmem := m\<rparr>)" "agree (frame_words d 2) (kmem s3) m"
    "\<And>i. i < 1024 \<Longrightarrow> fword m d i = (if 768 \<le> i then word_at (kmem s3) (D + 4 * i) else fword (kmem s3) d i)"
    unfolding clone_page_dir_def by auto
  have m3: "fword m d i = (if 768 \<le> i then word_at (kmem s) (D + 4 * i) else 0)" if "i < 1024" for i
    using m(3) [OF that] k3 [of i] cl(2) [OF _ that] d(1) that by (simp add: s3_def)
  define s4 where "s4 = s3\<lparr>kmem := m\<rparr>"
  have w4: "under_way a bs bs' q s s4" unfolding s4_def by (rule under_way_mem [OF mem w3 m(2) fresh])
  have g4: "getf (of_nat q) x s4 = getf (of_nat q) x s2" if "4 dvd unat x" "unat x < 104" for x
    using getf_fresh [OF mem pl a3 fresh that] getf_fresh [OF mem pl _ fresh that, of s3 s4] m(2) by (simp add: s4_def)
  have kd: "kernel_directory s3 = of_nat D"
    using mem under_way_fields(1) [OF w3] by (simp add: kernel_mem_def kernel_paging_def)
  define t' where "t' = setf (of_nat q) off_cr3 (frame_addr d) s4"
  show ?thesis
  proof (rule that [of t'])
    have pd: "getf (of_nat q) off_page_directory s2 = fptr d 0" "getf (of_nat q) off_page_directory s4 = fptr d 0"
      using g2 [of off_page_directory] g4 [of off_page_directory] by (simp_all add: struct_offsets)
    moreover from pd(1) have "getf (of_nat q) off_page_directory s3 = fptr d 0"
      using getf_fresh [OF mem pl a3 fresh, of off_page_directory] by (simp add: struct_offsets)
    ultimately show "create_directory (of_nat q) t = Some (True, t')"
      using s1(1) fptr_nonzero [of d] d(1) kd m(1)
      by (simp add: create_directory_def t'_def KV2P_fptr flip: s2_def s3_def s4_def)
    show "under_way a bs bs' q s t'" unfolding t'_def using w4 by (rule under_way_setf) (simp_all add: struct_offsets)
    show "\<forall>g<ALL_FRAMES. frame_used t' g \<longleftrightarrow> g = d \<or> g = Suc d \<or> frame_used s g"
      using u1 by (simp add: frame_used_def t'_def s4_def s3_def s2_def)
    show "\<forall>i<1024. fword (kmem t') d i = (if 768 \<le> i then word_at (kmem s) (D + 4 * i) else 0)"
    proof (intro allI impI)
      fix i :: nat assume i: "i < 1024"
      show "fword (kmem t') d i = (if 768 \<le> i then word_at (kmem s) (D + 4 * i) else 0)"
        using fword_setf [OF mem pl _ i un(1), of off_cr3 "frame_addr d" s4] m3 [OF i] d(1) by (simp add: t'_def s4_def struct_offsets)
    qed
    show "\<forall>x. 4 dvd unat x \<and> unat x < 104 \<longrightarrow> getf (of_nat q) x t' =
      (if x = off_page_directory then fptr d 0 else if x = off_cr3 then frame_addr d else getf (of_nat q) x t)"
    proof (intro allI impI, elim conjE)
      fix x :: u32 assume x: "4 dvd unat x" "unat x < 104"
      show "getf (of_nat q) x t' =
        (if x = off_page_directory then fptr d 0 else if x = off_cr3 then frame_addr d else getf (of_nat q) x t)"
        using getf_setf_off [OF ok x(1) _ x(2), of off_cr3 "frame_addr d" s4] g4 [OF x] g2 [OF x]
        by (auto simp: t'_def struct_offsets)
    qed
  qed
qed

section \<open>The user stack\<close>

definition stack_pages :: "u32 \<Rightarrow> nat" where
  "stack_pages sz = 0xC0000 - (0xBFFFFFF0 - unat sz) div 4096"

text \<open>The page tables for that many pages, and the frames of low memory that are free.\<close>

definition stack_tables :: "u32 \<Rightarrow> nat" where
  "stack_tables sz = 768 - (0xC0000 - stack_pages sz) div 1024"

definition free_low :: "'a pmm_scheme \<Rightarrow> nat set" where
  "free_low s = {g. g < LOW_FRAMES \<and> \<not> frame_used s g}"

text \<open>Low memory can be full only if there was not enough for the directory and its tables.\<close>

lemma full_bound:
  assumes "tight_space (used_frames s \<union> H) d t" "low_memory_full t" "\<And>g. g \<in> H \<Longrightarrow> LOW_FRAMES \<le> g"
    and "\<And>v. upage (kmem t) d v \<noteq> None \<Longrightarrow> v div 1024 \<in> I" "finite I"
  shows "card (free_low s) \<le> 2 + card I"
proof -
  have "free_low s \<subseteq> space_frames (kmem t) d"
  proof
    fix g assume g: "g \<in> free_low s"
    then have "g \<in> used_frames t" "g \<notin> used_frames s" "g \<notin> H" using assms(2) assms(3) [of g]
      by (auto simp: free_low_def used_frames_def low_memory_full_def)
    then show "g \<in> space_frames (kmem t) d" using assms(1) unfolding tight_space_def by blast
  qed
  also have "\<dots> \<subseteq> {d, Suc d} \<union> table_frame (kmem t) d ` I"
    using assms(1,4) unfolding space_frames_def tight_space_def by blast
  finally have "card (free_low s) \<le> card ({d, Suc d} \<union> table_frame (kmem t) d ` I)" using assms(5) by (intro card_mono) simp_all
  also have "\<dots> \<le> card {d, Suc d} + card (table_frame (kmem t) d ` I)" by (rule card_Un_le)
  also have "\<dots> \<le> 2 + card I" using card_image_le [OF assms(5)] by simp
  finally show ?thesis .
qed

lemma stack_words:
  assumes "sz \<le> 0xBFFFFFF0"
  shows "unat ((PROC_STACK_TOP - sz) AND 0xFFFFF000) = 4096 * (0xC0000 - stack_pages sz)"
    "((PROC_STACK_TOP + 0xFFF) AND 0xFFFFF000) - ((PROC_STACK_TOP - sz) AND 0xFFFFF000) = of_nat (4096 * stack_pages sz)"
    "0 < stack_pages sz" "stack_pages sz \<le> 0xC0000"
proof -
  have m: "(x :: u32) AND 0xFFFFF000 = of_nat (unat x div 4096 * 4096)" for x
    using round_down [of x] by (simp add: PAGE_ROUND_DOWN_def)
  have "unat (PROC_STACK_TOP - sz) = 0xBFFFFFF0 - unat sz" using assms by (simp add: PROC_STACK_TOP_def unat_sub)
  then have b: "(PROC_STACK_TOP - sz) AND 0xFFFFF000 = of_nat ((0xBFFFFFF0 - unat sz) div 4096 * 4096)" by (simp add: m)
  define k where "k = (0xBFFFFFF0 - unat sz) div 4096"
  have k: "k < 0xC0000" by (simp add: k_def)
  show "0 < stack_pages sz" "stack_pages sz \<le> 0xC0000" using k by (simp_all add: stack_pages_def k_def)
  have p: "stack_pages sz = 0xC0000 - k" by (simp add: stack_pages_def k_def)
  show "unat ((PROC_STACK_TOP - sz) AND 0xFFFFF000) = 4096 * (0xC0000 - stack_pages sz)"
    unfolding b p using k by (subst unat_of_nat_u32) (simp_all flip: k_def)
  have "(PROC_STACK_TOP + 0xFFF) AND 0xFFFFF000 = (0xC0000000 :: u32)" by (simp add: PROC_STACK_TOP_def)
  moreover have "(0xC0000000 :: u32) - of_nat (k * 4096) = of_nat (4096 * (0xC0000 - k))"
    using k by (simp add: of_nat_diff)
  ultimately show "((PROC_STACK_TOP + 0xFFF) AND 0xFFFFF000) - ((PROC_STACK_TOP - sz) AND 0xFFFFF000) = of_nat (4096 * stack_pages sz)"
    by (simp only: b p flip: k_def)
qed

text \<open>A directory without user entries.\<close>

lemma empty_space:
  assumes "d + 2 \<le> LOW_FRAMES" "null_reserved t" "frame_used t d" "frame_used t (Suc d)" "\<And>i. i < 768 \<Longrightarrow> fword (kmem t) d i = 0"
  shows "user_space d t" "upage (kmem t) d = (\<lambda>_. None)" "space_frames (kmem t) d = {d, Suc d}" "\<not> has_table (kmem t) d j"
proof -
  have t: "\<not> has_table (kmem t) d i" for i using assms(5) [of i] by (auto simp: has_table_def entry_present_def)
  show "\<not> has_table (kmem t) d j" by (rule t)
  from t show "user_space d t" "upage (kmem t) d = (\<lambda>_. None)" "space_frames (kmem t) d = {d, Suc d}"
    using assms(1-4) by (simp_all add: user_space_def upage_def space_frames_def fun_eq_iff)
qed

text \<open>The new space has only frames that were free, and what was in use is the same.\<close>

lemma space_step_fresh:
  assumes "space_step d t t'" "\<And>g. g < LOW_FRAMES \<Longrightarrow> frame_used s g \<Longrightarrow> frame_used t g \<and> g \<notin> space_frames (kmem t) d"
  shows "agree {w. in_window w \<and> \<not> frame_used s (word_frame w)} (kmem t) (kmem t')"
    "g < LOW_FRAMES \<Longrightarrow> frame_used s g \<Longrightarrow> g \<notin> space_frames (kmem t') d"
proof -
  show "agree {w. in_window w \<and> \<not> frame_used s (word_frame w)} (kmem t) (kmem t')"
    unfolding agree_def
  proof (intro allI impI)
    fix w :: nat assume w: "4 dvd w" "w < 2 ^ 32" "w \<notin> {w. in_window w \<and> \<not> frame_used s (word_frame w)}"
    show "word_at (kmem t') w = word_at (kmem t) w"
    proof (cases "in_window w")
      case True
      define g k where "g = word_frame w" and "k = (w - 0xC0000000) mod 4096 div 4"
      have g: "g < LOW_FRAMES" "frame_used s g" "k < 1024" using w True by (auto simp: g_def k_def in_window_def word_frame_def)
      have "4 dvd (w - 0xC0000000) mod 4096" using w True by (auto simp: dvd_mod in_window_def intro!: dvd_mod dvd_diff_nat)
      then have e: "w = 0xC0000000 + 4096 * g + 4 * k" using True by (simp add: g_def k_def in_window_def word_frame_def)
      have "fword (kmem t') g k = fword (kmem t) g k" using assms g by (auto simp: space_step_def)
      then show ?thesis by (simp add: fword_word_at e)
    next
      case False
      then show ?thesis using assms(1) w(1,2) by (auto simp: space_step_def high_same_def in_window_def)
    qed
  qed
  show "g < LOW_FRAMES \<Longrightarrow> frame_used s g \<Longrightarrow> g \<notin> space_frames (kmem t') d" using assms by (auto simp: space_step_def)
qed

lemma create_stack_ok:
  fixes s :: "'a procs_scheme"
  assumes mem: "kernel_mem D T a bs s" and uw: "under_way a bs bs' q s t" and d: "d + 2 \<le> LOW_FRAMES" "free_run s d 2"
    and used: "\<forall>g<ALL_FRAMES. frame_used t g \<longleftrightarrow> g = d \<or> g = Suc d \<or> frame_used s g"
    and dir: "\<forall>i<1024. fword (kmem t) d i = (if 768 \<le> i then K i else 0)"
    and pd: "getf (of_nat q) off_page_directory t = fptr d 0"
    and sz: "sz \<le> 0xBFFFFFF0" and h: "first_fit s LOW_FRAMES ALL_FRAMES (stack_pages sz) = Some h"
  obtains ok t' where "create_stack (of_nat q) sz t = Some (ok, t')"
    "\<not> ok \<Longrightarrow> low_memory_full t' \<and> card (free_low s) \<le> 2 + stack_tables sz"
    "ok \<Longrightarrow> tight_space (used_frames s \<union> {h..<h + stack_pages sz}) d t' \<and> (\<forall>g. h \<le> g \<and> g < h + stack_pages sz \<longrightarrow> frame_used t' g)" "ok \<Longrightarrow> under_way a bs bs' q s t'" "ok \<Longrightarrow> user_space d t'"
    "ok \<Longrightarrow> upage (kmem t') d = mapped (0xC0000 - stack_pages sz) h True 0 (stack_pages sz) (\<lambda>_. None)"
    "ok \<Longrightarrow> \<forall>g\<in>space_frames (kmem t') d. g < LOW_FRAMES \<longrightarrow> \<not> frame_used s g"
    "ok \<Longrightarrow> \<forall>i<1024. 768 \<le> i \<longrightarrow> fword (kmem t') d i = K i"
    "ok \<Longrightarrow> \<forall>x. 4 dvd unat x \<and> unat x < 104 \<longrightarrow> getf (of_nat q) x t' =
      (if x = off_stack_size then sz else if x = off_stack_top then PROC_STACK_TOP else getf (of_nat q) x t)"
proof -
  let ?n = "stack_pages sz" and ?bot = "(PROC_STACK_TOP - sz) AND 0xFFFFF000"
  have pl: "placed a bs bs' q" using uw by (simp add: under_way_def)
  then have ok: "proc_ok (of_nat q)" by (simp add: placed_def)
  have un: "\<not> frame_used s d" "\<not> frame_used s (Suc d)" using d(2) by (auto simp: free_run_def dest: spec [of _ 0] spec [of _ 1])
  note w = stack_words [OF sz]
  have n: "unat (of_nat ?n :: u32) = ?n" "(of_nat ?n :: u32) \<noteq> 0" "0 < (of_nat ?n :: u32)"
    "(of_nat (4096 * ?n) :: u32) div PAGE_SIZE = of_nat ?n"
  proof -
    show u: "unat (of_nat ?n :: u32) = ?n" using w(4) by (intro unat_of_nat_u32) simp
    then show "(of_nat ?n :: u32) \<noteq> 0" using w(3) by auto
    then show "0 < (of_nat ?n :: u32)" by (simp add: word_gt_0)
    have "unat (of_nat (4096 * ?n) :: u32) = 4096 * ?n" using w(4) by (intro unat_of_nat_u32) simp
    then show "(of_nat (4096 * ?n) :: u32) div PAGE_SIZE = of_nat ?n"
      using u by (simp add: word_unat_eq_iff unat_div PAGE_SIZE_def)
  qed
  have hf: "LOW_FRAMES \<le> h" "h + ?n \<le> ALL_FRAMES" "free_run s h ?n" using h by (auto simp: first_fit_Some)
  have "free_run t g ?n = free_run s g ?n" if "LOW_FRAMES \<le> g" "g + ?n \<le> ALL_FRAMES" for g
    using that d(1) by (auto simp: free_run_def used)
  then have "first_fit t LOW_FRAMES ALL_FRAMES ?n = Some h" using h by (auto simp: first_fit_Some)
  then obtain s1 where s1: "alloc_pages PMM_FLAGS_HIGHMEM (of_nat ?n) t = Some (frame_addr h, s1)" "marked t s1 h ?n"
    using alloc_high_hit [of t "of_nat ?n" h] n by auto
  note m1 = marked_same [OF s1(2)]
  have u1: "frame_used s1 g \<longleftrightarrow> h \<le> g \<and> g < h + ?n \<or> frame_used t g" if "g < ALL_FRAMES" for g
    using s1(2) that by (auto simp: marked_def)
  have h0: "frame_addr h \<noteq> 0" using unat_frame_addr [of h] hf w(3) by auto
  have w1: "under_way a bs bs' q s s1"
    using u1 m1 by (intro under_way_fresh [OF mem uw, of "{}"]) (simp_all add: fresh_words_def)
  define s2 where "s2 = setf (of_nat q) off_stack_size sz (setf (of_nat q) off_stack_top PROC_STACK_TOP s1)"
  have w2: "under_way a bs bs' q s s2" unfolding s2_def using w1
    by (intro under_way_setf) (simp_all add: struct_offsets)
  have g2: "getf (of_nat q) x s2 = (if x = off_stack_size then sz else if x = off_stack_top then PROC_STACK_TOP else getf (of_nat q) x t)"
    if "4 dvd unat x" "unat x < 104" for x
    using that m1(1) by (simp add: s2_def getf_setf_off [OF ok] struct_offsets) (simp add: getf_def)
  have d2: "fword (kmem s2) d i = (if 768 \<le> i then K i else 0)" if "i < 1024" for i
    using d(1) dir that m1(1) by (simp add: s2_def struct_offsets fword_setf [OF mem pl _ that un(1)])
  have u2: "frame_used s2 g \<longleftrightarrow> h \<le> g \<and> g < h + ?n \<or> g = d \<or> g = Suc d \<or> frame_used s g" if "g < ALL_FRAMES" for g
    using u1 [OF that] used that by (simp add: s2_def frame_used_def)
  have nr: "null_reserved s2" using mem u2 [of 0] by (simp add: kernel_mem_def null_reserved_def)
  note sp = empty_space [OF d(1) nr]
  have us: "user_space d s2" "upage (kmem s2) d = (\<lambda>_. None)" "space_frames (kmem s2) d = {d, Suc d}" "\<not> has_table (kmem s2) d j" for j
    using u2 [of d] u2 [of "Suc d"] d(1) d2 by (simp_all add: sp)
  have tight: "tight_space (used_frames s \<union> {h..<h + ?n}) d s2" using u2 by (auto simp: tight_space_def us used_frames_def)
  have "getf (of_nat q) off_page_directory s2 = KP2V (frame_addr d)" using g2 pd by (simp add: struct_offsets)
  moreover have "unat ?bot + 4096 * unat (of_nat ?n :: u32) \<le> 0xC0000000" unfolding w(1) n(1) using w(4) by simp
  moreover have fa: "unat (frame_addr h) = h * 4096" using hf(2) w(3) by (intro unat_frame_addr) simp
  moreover have "(of_nat q :: u32) \<noteq> 0" using ok by (simp add: proc_ok_def)
  ultimately have "\<exists>rc t' k. proc_map_pages (of_nat q) ?bot (frame_addr h) (of_nat ?n) True s2 = Some (rc, t') \<and>
    space_maps d (mapped (unat ?bot div 4096) (unat (frame_addr h) div 4096) True 0 k (upage (kmem s2) d)) s2 t' \<and>
    (if rc = 0 then k = unat (of_nat ?n :: u32) \<and> mem_only s2 t' else rc = -1 \<and> k < unat (of_nat ?n :: u32) \<and> low_memory_full t')"
    using hf(2) n(2) by (intro proc_map_pages_space [OF us(1)]) (simp_all only: n(1), simp_all)
  then obtain rc t' k where r: "proc_map_pages (of_nat q) ?bot (frame_addr h) (of_nat ?n) True s2 = Some (rc, t')"
    "space_maps d (mapped (0xC0000 - ?n) h True 0 k (\<lambda>_. None)) s2 t'"
    "if rc = 0 then k = ?n \<and> mem_only s2 t' else rc = -1 \<and> k < ?n \<and> low_memory_full t'"
    unfolding n(1) w(1) fa us(2) by auto
  have st: "user_space d t'" "space_step d s2 t'" "upage (kmem t') d = mapped (0xC0000 - ?n) h True 0 k (\<lambda>_. None)"
    "tight_space (used_frames s \<union> {h..<h + ?n}) d t'"
    using r(2) tight by (simp_all add: space_maps_def)
  have short: "card (free_low s) \<le> 2 + stack_tables sz" if full: "low_memory_full t'"
  proof -
    have "k \<le> ?n" using r(3) by (auto split: if_splits)
    then have "v div 1024 \<in> {(0xC0000 - ?n) div 1024..<768}" if "upage (kmem t') d v \<noteq> None" for v
      using that w(4) by (auto simp: st(3) mapped_def div_le_mono split: if_splits)
    from full_bound [OF st(4) full _ this] show ?thesis using hf(1) by (simp add: stack_tables_def)
  qed
  have fr: "frame_used s2 g \<and> g \<notin> space_frames (kmem s2) d" if "g < LOW_FRAMES" "frame_used s g" for g
    using that un u2 [of g] by (auto simp: us(3))
  have fw: "fresh_words s {w. in_window w \<and> \<not> frame_used s (word_frame w)}" by (simp add: fresh_words_def)
  note sf = space_step_fresh [OF st(2) fr]
  have pages: "((PROC_STACK_TOP + 0xFFF AND 0xFFFFF000) - ?bot) div PAGE_SIZE = of_nat ?n" by (simp only: w(2) n(4))
  define tf where "tf = (if rc = 0 then t' else kprint (''create_proc: failed to map stack pages'' @ nl) [] t')"
  show ?thesis
  proof (rule that [of "rc = 0" tf])
    show "create_stack (of_nat q) sz t = Some (rc = 0, tf)"
      using s1(1) r(1) h0 by (simp add: create_stack_def pages tf_def Let_def flip: s2_def)
    show "low_memory_full tf \<and> card (free_low s) \<le> 2 + stack_tables sz" if "rc \<noteq> 0"
      using r(3) that short by (simp add: low_memory_full_def frame_used_def tf_def)
  next
    assume rc: "rc = 0"
    then have mo: "t' = s2\<lparr>framemap := framemap t', kmem := kmem t'\<rparr>" and k: "k = ?n" and tf: "tf = t'"
      using r(3) by (simp_all add: mem_only_def tf_def)
    have "kheap t' = kheap s2" "kheap_header_array t' = kheap_header_array s2" "kheap_footer_array t' = kheap_footer_array s2"
      "kmm.more t' = kmm.more s2" by (subst mo, simp)+
    then show "under_way a bs bs' q s tf"
      unfolding tf using st(2) by (intro under_way_fresh [OF mem w2 sf(1) fw]) (simp_all add: space_step_def)
    have "frame_used t' g" if "h \<le> g" "g < h + ?n" for g using that u2 [of g] hf(2) st(2) by (simp add: space_step_def)
    then show "tight_space (used_frames s \<union> {h..<h + ?n}) d tf \<and> (\<forall>g. h \<le> g \<and> g < h + ?n \<longrightarrow> frame_used tf g)"
      unfolding tf using st(4) by blast
    show "user_space d tf" unfolding tf by (rule st(1))
    show "upage (kmem tf) d = mapped (0xC0000 - ?n) h True 0 ?n (\<lambda>_. None)" using st(3) by (simp only: tf k)
    show "\<forall>g\<in>space_frames (kmem tf) d. g < LOW_FRAMES \<longrightarrow> \<not> frame_used s g" using sf(2) unfolding tf by blast
    show "\<forall>i<1024. 768 \<le> i \<longrightarrow> fword (kmem tf) d i = K i" using st(2) d2 by (simp add: space_step_def tf)
    show "\<forall>x. 4 dvd unat x \<and> unat x < 104 \<longrightarrow> getf (of_nat q) x tf =
      (if x = off_stack_size then sz else if x = off_stack_top then PROC_STACK_TOP else getf (of_nat q) x t)"
      using getf_fresh [OF mem pl sf(1) fw] g2 by (simp only: tf) blast
  qed
qed

section \<open>Context and kernel stack\<close>

lemmas ctx_offsets = off_context_def ctx_eip_def ctx_esp_def ctx_ebp_def ctx_useresp_def ctx_cs_def ctx_ss_def ctx_eflags_def

lemma under_way_struct:
  assumes "under_way a bs bs' q s t" "4 dvd unat x" "unat x < 104"
  shows "agree {a..<block_end a bs} (kmem t) (kmem (setf (of_nat q) x v t))"
proof -
  have pl: "placed a bs bs' q" using assms(1) by (simp add: under_way_def)
  then have "struct_words q \<subseteq> {a..<block_end a bs}" using heap_gaps_sub unfolding placed_def by blast
  then show ?thesis using setf_agree [OF _ _ assms(2,3), of q t v] pl agree_mono by (auto simp: placed_def)
qed

lemma agree_setf:
  assumes "under_way a bs bs' q s t'" "agree {a..<block_end a bs} m (kmem t')" "4 dvd unat x" "unat x < 104"
  shows "agree {a..<block_end a bs} m (kmem (setf (of_nat q) x v t'))"
  using agree_trans [OF assms(2) under_way_struct [OF assms(1,3,4)]] by simp

lemma create_context_ok:
  fixes entry :: u32
  assumes uw: "under_way a bs bs' q s t"
  defines "t' \<equiv> create_context (of_nat q) entry PROC_STACK_TOP t"
  shows "under_way a bs bs' q s t'" "framemap t' = framemap t" "agree {a..<block_end a bs} (kmem t) (kmem t')"
    "4 dvd unat x \<Longrightarrow> unat x < 104 \<Longrightarrow> getf (of_nat q) x t' =
      (if x = off_context + ctx_eflags then 0x202 else if x = off_context + ctx_ss then 0x23 else if x = off_context + ctx_cs then 0x1B
       else if x = off_context + ctx_useresp \<or> x = off_context + ctx_ebp \<or> x = off_context + ctx_esp then 0xBFFFFFE0
       else if x = off_context + ctx_eip then entry else getf (of_nat q) x t)"
proof -
  have ok: "proc_ok (of_nat q)" using uw by (simp add: under_way_def placed_def)
  show "under_way a bs bs' q s t'" unfolding t'_def create_context_def Let_def
    using uw by (intro under_way_setf) (simp_all add: ctx_offsets)
  show "framemap t' = framemap t" by (simp add: t'_def create_context_def Let_def)
  show "agree {a..<block_end a bs} (kmem t) (kmem t')" unfolding t'_def create_context_def Let_def
    using uw by (intro agree_setf under_way_setf) (simp_all add: ctx_offsets)
  show "4 dvd unat x \<Longrightarrow> unat x < 104 \<Longrightarrow> getf (of_nat q) x t' =
      (if x = off_context + ctx_eflags then 0x202 else if x = off_context + ctx_ss then 0x23 else if x = off_context + ctx_cs then 0x1B
       else if x = off_context + ctx_useresp \<or> x = off_context + ctx_ebp \<or> x = off_context + ctx_esp then 0xBFFFFFE0
       else if x = off_context + ctx_eip then entry else getf (of_nat q) x t)"
    unfolding t'_def create_context_def Let_def
    by (simp add: getf_setf_off [OF ok] ctx_offsets PROC_STACK_TOP_def)
qed

lemma create_kstack_ok:
  assumes uw: "under_way a bs bs' q s t" and room: "length bs' < 4096" "fit_ok 8192 bs'" "spec_alloc 8192 a bs' = Some (ks, bs'')"
  obtains t' where "create_kstack (of_nat q) t = Some t'" "under_way a bs bs'' q s t'" "framemap t' = framemap t"
    "agree {a..<block_end a bs} (kmem t) (kmem t')"
    "\<forall>x. 4 dvd unat x \<and> unat x < 104 \<longrightarrow> getf (of_nat q) x t' =
      (if x = off_kstack_top then of_nat ks + 8192 else if x = off_kstack_base then of_nat ks
       else if x = off_kstack_size then 8192 else getf (of_nat q) x t)"
proof -
  have pl: "placed a bs bs' q" using uw by (simp add: under_way_def)
  then have ok: "proc_ok (of_nat q)" "q < 2 ^ 32" by (simp_all add: placed_def)
  define s1 where "s1 = setf (of_nat q) off_kstack_size 8192 t"
  have w1: "under_way a bs bs' q s s1" unfolding s1_def using uw by (rule under_way_setf) (simp_all add: struct_offsets)
  have r: "round16 (unat (8192 :: u32)) = 8192" by (simp add: round16_def)
  obtain s2 n where k: "kmalloc 8192 s1 = Some (of_nat ks, s2)" "heap_only s1 s2" "heap_inv s2 a bs''"
    "agree (heap_gaps a bs') (kmem s1) (kmem s2)" "used_payload a bs'' = used_payload a bs' \<union> {ks..<ks + n}"
    "block_end a bs'' = block_end a bs'"
  proof -
    have hi: "heap_inv s1 a bs'" using w1 by (simp add: under_way_def)
    show ?thesis by (rule kmalloc_room [OF hi _ _ room(1), of 8192 ks bs'']) (use room r in \<open>simp_all add: that\<close>)
  qed
  have gaps: "heap_gaps a bs' \<subseteq> heap_gaps a bs" using pl by (auto simp: heap_gaps_def placed_def)
  have fm: "framemap s2 = framemap s1" using k(2) by (cases s1; cases s2) (simp add: heap_only_def)
  have "kept a bs s s2" using kept_same [OF _ k(4) fm gaps] w1 by (simp add: under_way_def)
  moreover have "placed a bs bs'' q" using pl k(5,6) by (auto simp: placed_def)
  ultimately have w2: "under_way a bs bs'' q s s2" using w1 k(2,3) by (simp add: under_way_def)
  have g2: "getf (of_nat q) x s2 = (if x = off_kstack_size then 8192 else getf (of_nat q) x t)" if "4 dvd unat x" "unat x < 104" for x
  proof -
    have "struct_words q \<inter> heap_gaps a bs' = {}" using pl by (auto simp: placed_def heap_gaps_def)
    moreover have "4 dvd q" "q + 104 \<le> 2 ^ 32" using ok by (auto simp: proc_ok_def unat_of_nat_u32)
    ultimately have "getf (of_nat q) x s2 = getf (of_nat q) x s1" using k(4) that by (intro getf_agree)
    then show ?thesis using that by (simp add: s1_def getf_setf_off [OF ok(1)] struct_offsets)
  qed
  have a2: "agree {a..<block_end a bs} (kmem t) (kmem s2)"
  proof -
    have "agree {a..<block_end a bs} (kmem t) (kmem s1)" unfolding s1_def using uw by (rule under_way_struct) (simp_all add: struct_offsets)
    moreover have "agree {a..<block_end a bs} (kmem s1) (kmem s2)" using agree_mono [OF k(4)] gaps heap_gaps_sub by blast
    ultimately show ?thesis using agree_trans by fastforce
  qed
  define t' where "t' = setf (of_nat q) off_kstack_top (of_nat ks + 8192) (setf (of_nat q) off_kstack_base (of_nat ks) s2)"
  show ?thesis
  proof (rule that [of t'])
    have "getf (of_nat q) off_kstack_size s1 = 8192"
      by (simp add: s1_def getf_setf_off [OF ok(1)] struct_offsets)
    moreover have "getf (of_nat q) off_kstack_size (setf (of_nat q) off_kstack_base (of_nat ks) s2) = 8192"
      using g2 [of off_kstack_size] by (simp add: getf_setf_off [OF ok(1)] struct_offsets)
    ultimately show "create_kstack (of_nat q) t = Some t'"
      using k(1) by (simp add: create_kstack_def t'_def Let_def flip: s1_def)
    show "under_way a bs bs'' q s t'" unfolding t'_def using w2 by (intro under_way_setf) (simp_all add: struct_offsets)
    show "framemap t' = framemap t" using fm by (simp add: t'_def s1_def)
    show "agree {a..<block_end a bs} (kmem t) (kmem t')" unfolding t'_def
      using w2 a2 by (intro agree_setf under_way_setf) (simp_all add: struct_offsets)
    show "\<forall>x. 4 dvd unat x \<and> unat x < 104 \<longrightarrow> getf (of_nat q) x t' =
      (if x = off_kstack_top then of_nat ks + 8192 else if x = off_kstack_base then of_nat ks
       else if x = off_kstack_size then 8192 else getf (of_nat q) x t)"
      using g2 by (simp add: t'_def getf_setf_off [OF ok(1)] struct_offsets)
  qed
qed

text \<open>An address space depends only on the words of its frames.\<close>

lemma space_unchanged:
  assumes "user_space p t" "\<And>g. g < LOW_FRAMES \<Longrightarrow> frame_used t g \<Longrightarrow> frame_used t' g"
    and "\<And>g k. g \<in> space_frames (kmem t) p \<Longrightarrow> g < LOW_FRAMES \<Longrightarrow> k < 1024 \<Longrightarrow> fword (kmem t') g k = fword (kmem t) g k"
  shows "user_space p t'" "upage (kmem t') p = upage (kmem t) p" "space_frames (kmem t') p = space_frames (kmem t) p"
    "framemap t' = framemap t \<Longrightarrow> tight_space U p t \<Longrightarrow> tight_space U p t'"
proof -
  note b = user_space_bounds [OF assms(1)]
  have dir: "fword (kmem t') p k = fword (kmem t) p k" "fword (kmem t') (Suc p) k = fword (kmem t) (Suc p) k" if "k < 1024" for k
    using that b assms(3) by (simp_all add: space_frames_def)
  have ht: "has_table (kmem t') p i = has_table (kmem t) p i" for i using dir(1) [of i] by (auto simp: has_table_def)
  have tf: "table_frame (kmem t') p i = table_frame (kmem t) p i" if "has_table (kmem t) p i" for i
    using dir(1) [of i] that by (simp add: has_table_def table_frame_def)
  have lt: "i < 1024" if "has_table (kmem t) p i" for i using that by (simp add: has_table_def)
  show "user_space p t'" unfolding user_space_def
    using b assms(1,2) user_space_table [OF assms(1)] by (auto simp: ht tf dir lt null_reserved_def user_space_def)
  show sf: "space_frames (kmem t') p = space_frames (kmem t) p" by (auto simp: space_frames_def ht tf) (metis tf)
  show up: "upage (kmem t') p = upage (kmem t) p"
  proof
    fix v
    show "upage (kmem t') p v = upage (kmem t) p v"
    proof (cases "has_table (kmem t) p (v div 1024)")
      case True
      then have "fword (kmem t') (table_frame (kmem t) p (v div 1024)) (v mod 1024) = fword (kmem t) (table_frame (kmem t) p (v div 1024)) (v mod 1024)"
        using user_space_table(3) [OF assms(1) True] by (intro assms(3)) (auto simp: space_frames_def)
      then show ?thesis using True by (simp add: upage_def ht tf)
    qed (simp add: upage_def ht)
  qed
  show "framemap t' = framemap t \<Longrightarrow> tight_space U p t \<Longrightarrow> tight_space U p t'"
    by (simp add: tight_space_def sf up ht used_frames_def frame_used_def)
qed

section \<open>The process\<close>

text \<open>Every process in the table lies in an allocated block.\<close>

definition procs_allocated :: "nat \<Rightarrow> blocks \<Rightarrow> 'a procs_scheme \<Rightarrow> bool" where
  "procs_allocated a bs s \<longleftrightarrow> (\<forall>p\<in>live_procs s. struct_words (unat p) \<subseteq> used_payload a bs)"

text \<open>The address spaces whose frames are not part of the heap stay as they are.\<close>

definition spaces_kept :: "nat \<Rightarrow> blocks \<Rightarrow> 'a kmm_scheme \<Rightarrow> 'a kmm_scheme \<Rightarrow> bool" where
  "spaces_kept a bs s t \<longleftrightarrow>
     (\<forall>p. user_space p s \<longrightarrow> space_frames (kmem s) p \<inter> word_frame ` {a..<block_end a bs} = {} \<longrightarrow>
        user_space p t \<and> upage (kmem t) p = upage (kmem s) p \<and> space_frames (kmem t) p = space_frames (kmem s) p)"

lemma user_space_used: "user_space p s \<Longrightarrow> g \<in> space_frames (kmem s) p \<Longrightarrow> frame_used s g"
  using user_space_bounds [of p s] user_space_table(5) [of p s] by (auto simp: space_frames_def)

lemma spaces_keptI:
  assumes "\<And>f. f < LOW_FRAMES \<Longrightarrow> frame_used s f \<Longrightarrow> frame_used t f"
    and "\<And>w. 4 dvd w \<Longrightarrow> in_window w \<Longrightarrow> frame_used s (word_frame w) \<Longrightarrow> w \<notin> heap_gaps a bs \<Longrightarrow> word_at (kmem t) w = word_at (kmem s) w"
  shows "spaces_kept a bs s t"
  unfolding spaces_kept_def
proof (intro allI impI)
  fix p assume p: "user_space p s" "space_frames (kmem s) p \<inter> word_frame ` {a..<block_end a bs} = {}"
  have "fword (kmem t) g k = fword (kmem s) g k" if g: "g \<in> space_frames (kmem s) p" "g < LOW_FRAMES" "k < 1024" for g k
  proof -
    let ?w = "0xC0000000 + 4096 * g + 4 * k"
    have f: "word_frame ?w = g" "in_window ?w" using g(2,3) by (simp_all add: word_frame_def in_window_def)
    then have "?w \<notin> {a..<block_end a bs}" using p(2) g(1) by (metis IntI empty_iff imageI)
    then have "?w \<notin> heap_gaps a bs" using heap_gaps_sub by blast
    then show ?thesis using assms(2) [OF fptr_word(1) [OF g(2,3)] f(2)] f(1) user_space_used [OF p(1) g(1)]
      by (simp add: fword_word_at)
  qed
  then show "user_space p t \<and> upage (kmem t) p = upage (kmem s) p \<and> space_frames (kmem t) p = space_frames (kmem s) p"
    using space_unchanged [OF p(1) assms(1)] by blast
qed

lemma kept_spaces: "kept a bs s t \<Longrightarrow> spaces_kept a bs s t"
  by (rule spaces_keptI) (simp_all add: kept_word, simp add: kept_def)

lemma struct_disjoint_apart:
  assumes "struct_words (unat p) \<inter> struct_words (unat q) = {}"
  shows "procs_apart p q" "p \<noteq> q"
proof -
  have "\<not> (unat p \<le> unat q \<and> unat q < unat p + 104)" "\<not> (unat q \<le> unat p \<and> unat p < unat q + 104)"
    using assms by (auto simp: struct_words_def)
  then show "procs_apart p q" "p \<noteq> q" by (auto simp: procs_apart_def)
qed

text \<open>Entering a process that was just built into a free slot.\<close>

lemma enter_slot:
  assumes inv: "sched_inv s" "procs_allocated a bs s" and i: "i < MAXPROC" "proc_list s ! i = 0" and pl: "placed a bs bs' q"
    and t: "proc_list t = (proc_list s)[i := of_nat q]" "current_proc t = current_proc s"
  shows "sched_inv t" "procs_allocated a bs' t" "live_procs t = insert (of_nat q) (live_procs s)"
proof -
  let ?r = "of_nat q :: u32"
  have q: "unat ?r = q" "proc_ok ?r" "struct_words q \<subseteq> heap_gaps a bs" using pl by (simp_all add: placed_def unat_of_nat_u32)
  have len: "length (proc_list s) = MAXPROC" using inv(1) by (simp add: sched_inv_def)
  show live: "live_procs t = insert ?r (live_procs s)"
  proof -
    have "i < length (proc_list s)" using i(1) len by simp
    note split = id_take_nth_drop [OF this] and upd = upd_conv_take_nth_drop [OF this, of ?r]
    from split i(2) obtain xs ys where "proc_list s = xs @ 0 # ys" "proc_list t = xs @ ?r # ys" using upd t(1) by metis
    then show ?thesis using q(2) by (auto simp: live_procs_def proc_ok_def)
  qed
  have ap: "procs_apart p ?r" "procs_apart ?r p" "p \<noteq> ?r" if "p \<in> live_procs s" for p
  proof -
    have "struct_words (unat p) \<inter> struct_words (unat ?r) = {}"
      using inv(2) that q unfolding procs_allocated_def heap_gaps_def by auto
    then show "procs_apart p ?r" "procs_apart ?r p" "p \<noteq> ?r"
      using struct_disjoint_apart [of p ?r] struct_disjoint_apart [of ?r p] by (auto simp: Int_commute)
  qed
  show "procs_allocated a bs' t" using inv(2) pl q(1) by (simp add: procs_allocated_def live placed_def) blast
  have new: "proc_list t ! j \<noteq> ?r" if "j < MAXPROC" "j \<noteq> i" for j
  proof -
    have "proc_list s ! j \<in> insert 0 (live_procs s)" using that len by (auto simp: live_procs_def)
    then have "proc_list s ! j \<noteq> ?r" using ap(3) q(2) by (auto simp: proc_ok_def)
    then show ?thesis using that by (simp add: t(1))
  qed
  have "proc_list t ! k = 0" if k: "k < MAXPROC" "j < k" "proc_list t ! k = proc_list t ! j" for k j
  proof (cases "k = i \<or> j = i")
    case True
    then show ?thesis using k new [of j] new [of k] i(1) len by (auto simp: t(1))
  next
    case False
    then have "proc_list t ! k = proc_list s ! k" "proc_list t ! j = proc_list s ! j" by (simp_all add: t(1))
    then show ?thesis using inv(1) k unfolding sched_inv_def by metis
  qed
  then show "sched_inv t"
    using inv(1) ap q(2) len by (auto simp: sched_inv_def live t)
qed

text \<open>
  What \<^verbatim>\<open>create_proc\<close> promises of the process \<open>r\<close> that it returns: its fields, the frame that will enter
  user mode, and an address space with the stack only, above the kernel's part \<open>K\<close>.
\<close>

definition new_process :: "u32 \<Rightarrow> u32 \<Rightarrow> u32 \<Rightarrow> procpriority \<Rightarrow> u32 \<Rightarrow> nat \<Rightarrow> nat \<Rightarrow> nat \<Rightarrow> (nat \<Rightarrow> u32) \<Rightarrow> 'a kmm_scheme \<Rightarrow> bool" where
  "new_process r entry sz prio pid ks d h K t \<longleftrightarrow>
     getf r off_pid t = pid \<and> getf r off_priority t = procpriority_val prio \<and>
     getf r off_procstate t = procstate_val PROC_RUNNING \<and>
     getf r off_page_directory t = KP2V (frame_addr d) \<and> getf r off_cr3 t = frame_addr d \<and>
     getf r off_stack_top t = PROC_STACK_TOP \<and> getf r off_stack_size t = sz \<and>
     getf r off_kstack_base t = of_nat ks \<and> getf r off_kstack_top t = of_nat ks + 8192 \<and>
     iret_jump_user (r + off_context) t = \<lparr>u_eip = entry, u_cs = 0x1B, u_eflags = 0x202, u_esp = 0xBFFFFFE0, u_ss = 0x23\<rparr> \<and>
     user_space d t \<and> (\<forall>j<1024. 768 \<le> j \<longrightarrow> fword (kmem t) d j = K j) \<and>
     (\<forall>va. unat va < 0xC0000000 \<longrightarrow> user_view (kmem t) (frame_addr d) va =
        (if 0xC0000 - stack_pages sz \<le> unat va div 4096
         then Some (of_nat (4096 * (h + (unat va div 4096 - (0xC0000 - stack_pages sz))) + unat va mod 4096), True) else None))"

lemma getf_kept:
  assumes "kernel_mem D T a bs s" "kept a bs s t" "proc_ok p" "struct_words (unat p) \<subseteq> used_payload a bs" "j < 26"
  shows "getf p (4 * of_nat j) t = getf p (4 * of_nat j) s"
proof -
  let ?w = "unat p + 4 * j"
  have "?w \<in> struct_words (unat p)" using assms(5) by (simp add: struct_words_def)
  then have u: "?w \<in> used_payload a bs" using assms(4) by blast
  then have "?w \<in> {a..<block_end a bs}" using used_payload_bounds [of ?w a bs] by auto
  then have "in_window ?w" "frame_used s (word_frame ?w)" using kernel_mem_frames(1) [OF assms(1)] by auto
  moreover have "?w \<notin> heap_gaps a bs" using u by (simp add: heap_gaps_def)
  moreover have "4 dvd ?w" using assms(3) by (simp add: proc_ok_def)
  ultimately have "word_at (kmem t) ?w = word_at (kmem s) ?w" using kept_word [OF assms(2)] by blast
  then show ?thesis using getf_word [of "unat p" "4 * j" t] getf_word [of "unat p" "4 * j" s] by simp
qed

lemma create_finish:
  fixes s :: "'a procs_scheme"
  assumes mem: "kernel_mem D T a bs s" and inv: "sched_inv s" "procs_allocated a bs s"
    and i: "i < MAXPROC" "proc_list s ! i = 0" and uw: "under_way a bs bs' q s u"
    and t: "proc_list t = (proc_list u)[i := of_nat q]" "kmem t = kmem u" "framemap t = framemap u" "current_proc t = current_proc u"
      "kernel_directory t = kernel_directory u" "kheap t = kheap u" "kheap_header_array t = kheap_header_array u"
      "kheap_footer_array t = kheap_footer_array u" "cr3 t = cr3 u"
  shows "kernel_mem D T a bs' t" "sched_inv t" "procs_allocated a bs' t" "proc_list t = (proc_list s)[i := of_nat q]"
    "spaces_kept a bs s t" "p \<in> live_procs s \<Longrightarrow> j < 26 \<Longrightarrow> getf p (4 * of_nat j) t = getf p (4 * of_nat j) s"
    "kept a bs s t" "cr3 t = cr3 s"
proof -
  note f = under_way_fields [OF uw]
  show "cr3 t = cr3 s" using t(9) f(2) by simp
  have pl: "placed a bs bs' q" and hi: "heap_inv t a bs'" using uw t by (simp_all add: under_way_def heap_inv_def)
  show kp: "kept a bs s t" using uw t by (simp add: under_way_def kept_def frame_used_def)
  show pt: "proc_list t = (proc_list s)[i := of_nat q]" using t(1) f(3) by simp
  show "kernel_mem D T a bs' t" using kernel_mem_kept [OF mem kp hi] pl t(5) f(1) by (simp add: placed_def)
  have "current_proc t = current_proc s" using t(4) f(4) by simp
  from enter_slot(1,2) [OF inv i pl pt this] show "sched_inv t" "procs_allocated a bs' t" .
  show "spaces_kept a bs s t" by (rule kept_spaces [OF kp])
  show "p \<in> live_procs s \<Longrightarrow> j < 26 \<Longrightarrow> getf p (4 * of_nat j) t = getf p (4 * of_nat j) s"
    using getf_kept [OF mem kp] inv by (simp add: sched_inv_def procs_allocated_def)
qed

text \<open>Filling in the process does not touch its address space.\<close>

lemma new_space:
  assumes mem: "kernel_mem D T a bs s" and us: "user_space d t" "\<And>g. g \<in> space_frames (kmem t) d \<Longrightarrow> g < LOW_FRAMES \<Longrightarrow> \<not> frame_used s g"
    and ag: "agree {a..<block_end a bs} (kmem t) (kmem t')" "framemap t' = framemap t"
  shows "user_space d t'" "upage (kmem t') d = upage (kmem t) d" "k < 1024 \<Longrightarrow> fword (kmem t') d k = fword (kmem t) d k"
    "space_frames (kmem t') d = space_frames (kmem t) d" "tight_space U d t \<Longrightarrow> tight_space U d t'"
proof -
  have same: "fword (kmem t') g k = fword (kmem t) g k" if g: "g \<in> space_frames (kmem t) d" "g < LOW_FRAMES" "k < 1024" for g k
  proof (rule fword_agree [OF ag(1) g(2,3)])
    have "word_frame (0xC0000000 + 4096 * g + 4 * k) = g" using g(3) by (simp add: word_frame_def)
    then show "0xC0000000 + 4096 * g + 4 * k \<notin> {a..<block_end a bs}"
      using kernel_mem_frames(1) [OF mem] us(2) [OF g(1,2)] by metis
  qed
  have fu: "frame_used t g \<Longrightarrow> frame_used t' g" for g by (simp add: frame_used_def ag(2))
  show "user_space d t'" "upage (kmem t') d = upage (kmem t) d" "space_frames (kmem t') d = space_frames (kmem t) d"
    "tight_space U d t \<Longrightarrow> tight_space U d t'"
    using space_unchanged [OF us(1) fu same] ag(2) by blast+
  show "k < 1024 \<Longrightarrow> fword (kmem t') d k = fword (kmem t) d k"
    using same [of d k] user_space_bounds(1) [OF us(1)] by (simp add: space_frames_def)
qed

lemma getf_off: "getf (p + x) y s = getf p (x + y) s"
  by (simp add: getf_def add.assoc)

lemma find_slot_bound: "find_slot s = Some i \<Longrightarrow> 1 \<le> i \<and> i < MAXPROC"
  by (auto simp: find_slot_def find_Some_iff)

lemma same_mem_getf: "kmem t = kmem u \<Longrightarrow> getf p x t = getf p x u"
  by (simp add: getf_def)

text \<open>The last step, from a structure that is filled in: the process is entered into its slot.\<close>

lemma create_enter_ok:
  fixes s :: "'a procs_scheme" and entry :: u32
  assumes mem: "kernel_mem D T a bs s" and inv: "sched_inv s" "procs_allocated a bs s"
    and i: "i < MAXPROC" "proc_list s ! i = 0" and uw: "under_way a bs bs' q s u"
  defines "t \<equiv> create_enter i (of_nat q) entry u"
  shows "kernel_mem D T a bs' t" "sched_inv t" "procs_allocated a bs' t" "proc_list t = (proc_list s)[i := of_nat q]"
    "spaces_kept a bs s t" "p \<in> live_procs s \<Longrightarrow> j < 26 \<Longrightarrow> getf p (4 * of_nat j) t = getf p (4 * of_nat j) s"
    "kept a bs s t" "cr3 t = cr3 s" "framemap t = framemap u" "agree {a..<block_end a bs} (kmem u) (kmem t)"
    "4 dvd unat x \<Longrightarrow> unat x < 104 \<Longrightarrow>
       getf (of_nat q) x t = (if x = off_procstate then procstate_val PROC_RUNNING else getf (of_nat q) x u)"
    "current_proc t = current_proc s" "pid_ctr t = pid_ctr s + 1" "interrupt_handlers t = interrupt_handlers s" "procs.more t = procs.more s"
proof -
  define v where "v = setf (of_nat q) off_procstate (procstate_val PROC_RUNNING) u"
  have v: "under_way a bs bs' q s v" "agree {a..<block_end a bs} (kmem u) (kmem v)" unfolding v_def
    using under_way_setf [OF uw] under_way_struct [OF uw] by (simp_all add: struct_offsets)
  have ok: "proc_ok (of_nat q)" using uw by (simp add: under_way_def placed_def)
  have eqs: "proc_list t = (proc_list v)[i := of_nat q]" "kmem t = kmem v" "framemap t = framemap v" "current_proc t = current_proc v"
    "kernel_directory t = kernel_directory v" "kheap t = kheap v" "kheap_header_array t = kheap_header_array v"
    "kheap_footer_array t = kheap_footer_array v" "cr3 t = cr3 v"
    by (simp_all add: t_def create_enter_def v_def setf_def Let_def procs_fields_of_kmm_more [OF kmm_fields_of_more(6) [OF kprint_more]])
  have "pid_ctr t = pid_ctr v" "interrupt_handlers t = interrupt_handlers v" "procs.more t = procs.more v"
    by (simp_all add: t_def create_enter_def v_def setf_def Let_def procs_fields_of_kmm_more [OF kmm_fields_of_more(6) [OF kprint_more]])
  then show "current_proc t = current_proc s" "pid_ctr t = pid_ctr s + 1" "interrupt_handlers t = interrupt_handlers s" "procs.more t = procs.more s" using eqs(4) under_way_fields [OF v(1)] by simp_all
  note fin = create_finish [OF mem inv i v(1) eqs]
  show "kernel_mem D T a bs' t" "sched_inv t" "procs_allocated a bs' t" "proc_list t = (proc_list s)[i := of_nat q]"
    "spaces_kept a bs s t" "p \<in> live_procs s \<Longrightarrow> j < 26 \<Longrightarrow> getf p (4 * of_nat j) t = getf p (4 * of_nat j) s" "kept a bs s t" "cr3 t = cr3 s"
    by (fact fin)+
  show "framemap t = framemap u" "agree {a..<block_end a bs} (kmem u) (kmem t)" using eqs(2,3) v(2) by (simp_all add: v_def)
  show "4 dvd unat x \<Longrightarrow> unat x < 104 \<Longrightarrow>
      getf (of_nat q) x t = (if x = off_procstate then procstate_val PROC_RUNNING else getf (of_nat q) x u)"
    by (simp add: same_mem_getf [OF eqs(2)] v_def getf_setf_off [OF ok] struct_offsets)
qed

lemma stack_view:
  assumes "user_space d t" "upage (kmem t) d = mapped (0xC0000 - stack_pages sz) h True 0 (stack_pages sz) (\<lambda>_. None)" "sz \<le> 0xBFFFFFF0"
    and va: "unat va < 0xC0000000"
  shows "user_view (kmem t) (frame_addr d) va =
    (if 0xC0000 - stack_pages sz \<le> unat va div 4096
     then Some (of_nat (4096 * (h + (unat va div 4096 - (0xC0000 - stack_pages sz))) + unat va mod 4096), True) else None)"
proof -
  have "unat va div 4096 < 0xC0000 - stack_pages sz + stack_pages sz" using va stack_words(4) [OF assms(3)] by simp
  then show ?thesis unfolding user_view_upage [OF assms(1) va] assms(2) by (simp add: mapped_def)
qed

text \<open>The address space of a new process: the stack, in frames that were free.\<close>

definition stack_space :: "nat \<Rightarrow> nat \<Rightarrow> u32 \<Rightarrow> 'a kmm_scheme \<Rightarrow> 'a kmm_scheme \<Rightarrow> bool" where
  "stack_space d h sz s t \<longleftrightarrow> user_space d t \<and> (\<forall>g\<in>space_frames (kmem t) d. g < LOW_FRAMES \<longrightarrow> \<not> frame_used s g) \<and>
     upage (kmem t) d = mapped (0xC0000 - stack_pages sz) h True 0 (stack_pages sz) (\<lambda>_. None) \<and>
     tight_space (used_frames s \<union> {h..<h + stack_pages sz}) d t \<and> (\<forall>g. h \<le> g \<and> g < h + stack_pages sz \<longrightarrow> frame_used t g)"

text \<open>Context, kernel stack and slot, for a process whose directory and user stack are in place.\<close>

lemma finish_process:
  fixes s :: "'a procs_scheme"
  assumes mem: "kernel_mem D T a bs s" and inv: "sched_inv s" "procs_allocated a bs s"
    and i: "i < MAXPROC" "proc_list s ! i = 0" and uw: "under_way a bs bs1 q s t3"
    and kstack: "length bs1 < 4096" "fit_ok 8192 bs1" "spec_alloc 8192 a bs1 = Some (ks, bs2)"
    and space: "user_space d t3" "\<forall>g\<in>space_frames (kmem t3) d. g < LOW_FRAMES \<longrightarrow> \<not> frame_used s g"
      "upage (kmem t3) d = mapped (0xC0000 - stack_pages sz) h True 0 (stack_pages sz) (\<lambda>_. None)" "sz \<le> 0xBFFFFFF0"
      "\<forall>i<1024. 768 \<le> i \<longrightarrow> fword (kmem t3) d i = K i"
      "tight_space (used_frames s \<union> {h..<h + stack_pages sz}) d t3 \<and> (\<forall>g. h \<le> g \<and> g < h + stack_pages sz \<longrightarrow> frame_used t3 g)"
    and fields: "getf (of_nat q) off_pid t3 = pid" "getf (of_nat q) off_priority t3 = procpriority_val prio"
      "getf (of_nat q) off_page_directory t3 = fptr d 0" "getf (of_nat q) off_cr3 t3 = frame_addr d"
      "getf (of_nat q) off_stack_top t3 = PROC_STACK_TOP" "getf (of_nat q) off_stack_size t3 = sz"
  obtains t5 where "create_kstack (of_nat q) (create_context (of_nat q) entry PROC_STACK_TOP t3) = Some t5"
    "under_way a bs bs2 q s t5" "new_process (of_nat q) entry sz prio pid ks d h K (create_enter i (of_nat q) entry t5)"
    "stack_space d h sz s (create_enter i (of_nat q) entry t5)"
proof -
  let ?r = "of_nat q :: u32"
  note t4 = create_context_ok [OF uw, where entry = entry]
  obtain t5 where t5: "create_kstack ?r (create_context ?r entry PROC_STACK_TOP t3) = Some t5" "under_way a bs bs2 q s t5"
    "framemap t5 = framemap t3" "agree {a..<block_end a bs} (kmem (create_context ?r entry PROC_STACK_TOP t3)) (kmem t5)"
    "\<forall>x. 4 dvd unat x \<and> unat x < 104 \<longrightarrow> getf ?r x t5 =
      (if x = off_kstack_top then of_nat ks + 8192 else if x = off_kstack_base then of_nat ks
       else if x = off_kstack_size then 8192 else getf ?r x (create_context ?r entry PROC_STACK_TOP t3))"
    using create_kstack_ok [OF t4(1) kstack] unfolding t4(2) .
  define t where "t = create_enter i ?r entry t5"
  note e = create_enter_ok(9-11) [OF mem inv i t5(2), where entry = entry, folded t_def]
  have ag: "agree {a..<block_end a bs} (kmem t3) (kmem t)" using agree_trans [OF agree_trans [OF t4(3) t5(4)] e(2)] by simp
  have sp: "user_space d t" "upage (kmem t) d = upage (kmem t3) d" "k < 1024 \<Longrightarrow> fword (kmem t) d k = fword (kmem t3) d k"
    "space_frames (kmem t) d = space_frames (kmem t3) d" "tight_space (used_frames s \<union> {h..<h + stack_pages sz}) d t" for k
    using new_space [OF mem space(1) _ ag] space(2,6) e(1) t5(3) by auto
  have "new_process ?r entry sz prio pid ks d h K t"
    unfolding new_process_def
  proof (intro conjI)
    show "iret_jump_user (?r + off_context) t = \<lparr>u_eip = entry, u_cs = 0x1B, u_eflags = 0x202, u_esp = 0xBFFFFFE0, u_ss = 0x23\<rparr>"
      by (simp add: iret_jump_user_def getf_off e(3) t5(5) t4(4) ctx_offsets struct_offsets)
    show "\<forall>va. unat va < 0xC0000000 \<longrightarrow> user_view (kmem t) (frame_addr d) va =
      (if 0xC0000 - stack_pages sz \<le> unat va div 4096
       then Some (of_nat (4096 * (h + (unat va div 4096 - (0xC0000 - stack_pages sz))) + unat va mod 4096), True) else None)"
      using stack_view [OF sp(1) _ space(4)] sp(2) space(3) by auto
  qed (use sp space(5) fields in \<open>simp_all add: e(3) t5(5) t4(4) ctx_offsets struct_offsets\<close>)
  moreover have "stack_space d h sz s t" using sp space(2,3,6) e(1) t5(3) by (simp add: stack_space_def frame_used_def)
  ultimately show ?thesis using that t5(1,2) unfolding t_def by blast
qed

lemma create_proc_ok:
  fixes s :: "'a procs_scheme"
  assumes mem: "kernel_mem D T a bs s" and inv: "sched_inv s" "procs_allocated a bs s"
    and slot: "find_slot s = Some i" "proc_list s ! i = 0"
    and struct: "length bs < 4096" "fit_ok 112 bs" "spec_alloc 112 a bs = Some (q, bs1)"
    and kstack: "length bs1 < 4096" "fit_ok 8192 bs1" "spec_alloc 8192 a bs1 = Some (ks, bs2)"
    and frames: "first_fit s 0 LOW_FRAMES 2 = Some d" "sz \<le> 0xBFFFFFF0" "first_fit s LOW_FRAMES ALL_FRAMES (stack_pages sz) = Some h"
  shows "\<exists>r t. create_proc entry exec_size sz heap_size prio s = Some (r, t) \<and>
    (if r = 0 then low_memory_full t \<and> card (free_low s) \<le> 2 + stack_tables sz
     else r = of_nat q \<and> proc_list t = (proc_list s)[i := r] \<and>
       new_process r entry sz prio (pid_ctr s) ks d h (\<lambda>j. word_at (kmem s) (D + 4 * j)) t \<and>
       kernel_mem D T a bs2 t \<and> sched_inv t \<and> procs_allocated a bs2 t \<and> spaces_kept a bs s t \<and> kept a bs s t \<and> stack_space d h sz s t \<and> cr3 t = cr3 s \<and>
       current_proc t = current_proc s \<and> pid_ctr t = pid_ctr s + 1 \<and> placed a bs bs2 q \<and>
       interrupt_handlers t = interrupt_handlers s \<and> procs.more t = procs.more s \<and>
       (\<forall>p\<in>live_procs s. \<forall>j<26. getf p (4 * of_nat j) t = getf p (4 * of_nat j) s))"
proof -
  let ?r = "of_nat q :: u32"
  have i: "i < MAXPROC" using find_slot_bound [OF slot(1)] by simp
  have hi: "heap_inv s a bs" using mem unfolding kernel_mem_def by blast
  obtain t1 where t1: "create_struct prio s = Some (?r, t1)" "under_way a bs bs1 q s t1" "framemap t1 = framemap s"
    "getf ?r off_pid t1 = pid_ctr s" "getf ?r off_priority t1 = procpriority_val prio"
    using create_struct_ok [OF hi struct] .
  obtain t2 where t2: "create_directory ?r t1 = Some (True, t2)" "under_way a bs bs1 q s t2"
    "\<forall>g<ALL_FRAMES. frame_used t2 g \<longleftrightarrow> g = d \<or> g = Suc d \<or> frame_used s g"
    "\<forall>i<1024. fword (kmem t2) d i = (if 768 \<le> i then word_at (kmem s) (D + 4 * i) else 0)"
    "\<forall>x. 4 dvd unat x \<and> unat x < 104 \<longrightarrow> getf ?r x t2 =
      (if x = off_page_directory then fptr d 0 else if x = off_cr3 then frame_addr d else getf ?r x t1)"
    using create_directory_ok [OF mem t1(2,3) frames(1)] .
  have d: "d + 2 \<le> LOW_FRAMES" "free_run s d 2" using frames(1) by (simp_all add: first_fit_Some)
  have pd: "getf ?r off_page_directory t2 = fptr d 0" by (simp add: t2(5) struct_offsets)
  have r0: "?r \<noteq> 0" using t1(2) by (simp add: under_way_def placed_def proc_ok_def)
  obtain ok t3 where t3: "create_stack ?r sz t2 = Some (ok, t3)" "\<not> ok \<Longrightarrow> low_memory_full t3 \<and> card (free_low s) \<le> 2 + stack_tables sz"
    "ok \<Longrightarrow> tight_space (used_frames s \<union> {h..<h + stack_pages sz}) d t3 \<and> (\<forall>g. h \<le> g \<and> g < h + stack_pages sz \<longrightarrow> frame_used t3 g)"
    "ok \<Longrightarrow> under_way a bs bs1 q s t3" "ok \<Longrightarrow> user_space d t3"
    "ok \<Longrightarrow> upage (kmem t3) d = mapped (0xC0000 - stack_pages sz) h True 0 (stack_pages sz) (\<lambda>_. None)"
    "ok \<Longrightarrow> \<forall>g\<in>space_frames (kmem t3) d. g < LOW_FRAMES \<longrightarrow> \<not> frame_used s g"
    "ok \<Longrightarrow> \<forall>i<1024. 768 \<le> i \<longrightarrow> fword (kmem t3) d i = word_at (kmem s) (D + 4 * i)"
    "ok \<Longrightarrow> \<forall>x. 4 dvd unat x \<and> unat x < 104 \<longrightarrow> getf ?r x t3 =
      (if x = off_stack_size then sz else if x = off_stack_top then PROC_STACK_TOP else getf ?r x t2)"
    using create_stack_ok [OF mem t2(2) d t2(3,4) pd frames(2,3)] by metis
  show ?thesis
  proof (cases ok)
    case False
    then have "create_proc entry exec_size sz heap_size prio s = Some (0, t3)"
      using slot t1(1) t2(1) t3(1) r0 by (simp add: create_proc_def)
    then show ?thesis using t3(2) False by simp
  next
    case True
    note t3 = t3(1) t3(3-) [OF True]
    have f: "getf ?r off_pid t3 = pid_ctr s" "getf ?r off_priority t3 = procpriority_val prio" "getf ?r off_page_directory t3 = fptr d 0"
      "getf ?r off_cr3 t3 = frame_addr d" "getf ?r off_stack_top t3 = PROC_STACK_TOP" "getf ?r off_stack_size t3 = sz"
      using t1(4,5) by (simp_all add: t3(8) t2(5) struct_offsets)
    obtain t5 where t5: "create_kstack ?r (create_context ?r entry PROC_STACK_TOP t3) = Some t5" "under_way a bs bs2 q s t5"
      "new_process ?r entry sz prio (pid_ctr s) ks d h (\<lambda>j. word_at (kmem s) (D + 4 * j)) (create_enter i ?r entry t5)"
      "stack_space d h sz s (create_enter i ?r entry t5)"
      using finish_process [OF mem inv i slot(2) t3(3) kstack t3(4,6,5) frames(2) t3(7,2) f] .
    have "create_proc entry exec_size sz heap_size prio s = Some (?r, create_enter i ?r entry t5)"
      using slot t1(1) t2(1) t3(1) t5(1) r0 True by (simp add: create_proc_def)
    moreover have "placed a bs bs2 q" using t5(2) by (simp add: under_way_def)
    ultimately show ?thesis using t5(3,4) r0 create_enter_ok [OF mem inv i slot(2) t5(2), where entry = entry]
      by (intro exI [of _ ?r] exI [of _ "create_enter i ?r entry t5"]) simp
  qed
qed

text \<open>
  C12: For a kernel whose heap, page tables and process table are well formed, with an empty slot,
  room for the structure and the kernel stack, two adjacent low frames and enough high frames
  for the user stack, \<^verbatim>\<open>create_proc\<close> returns. It returns a null pointer only when low memory is full
  when it needs a page table for the stack, and then the low frames that were free at the start are
  no more than the directory and the stack's page tables take. Otherwise the result is a process in that slot with the next
  pid, the entry point, stacks and priority asked for, and a directory of its own, in which user
  code reaches exactly the stack's pages, at the high frames found, and which shares the kernel's
  page tables. All invariants hold again, and the structures and address spaces of the other
  processes are as before.
\<close>

theorem create_proc_creates:
  fixes s :: "'a procs_scheme"
  assumes mem: "kernel_mem D T a bs s" and inv: "sched_inv s" "procs_allocated a bs s"
    and slot: "find_slot s = Some i" "proc_list s ! i = 0"
    and struct: "length bs < 4096" "fit_ok 112 bs" "spec_alloc 112 a bs = Some (q, bs1)"
    and kstack: "length bs1 < 4096" "fit_ok 8192 bs1" "spec_alloc 8192 a bs1 = Some (ks, bs2)"
    and frames: "first_fit s 0 LOW_FRAMES 2 = Some d" "sz \<le> 0xBFFFFFF0" "first_fit s LOW_FRAMES ALL_FRAMES (stack_pages sz) = Some h"
  shows "\<exists>r t. create_proc entry exec_size sz heap_size prio s = Some (r, t) \<and>
    (if r = 0 then low_memory_full t \<and> card (free_low s) \<le> 2 + stack_tables sz
     else r = of_nat q \<and> proc_list t = (proc_list s)[i := r] \<and>
       new_process r entry sz prio (pid_ctr s) ks d h (\<lambda>j. word_at (kmem s) (D + 4 * j)) t \<and>
       kernel_mem D T a bs2 t \<and> sched_inv t \<and> procs_allocated a bs2 t \<and> spaces_kept a bs s t \<and>
       (\<forall>p\<in>live_procs s. \<forall>j<26. getf p (4 * of_nat j) t = getf p (4 * of_nat j) s))"
  using create_proc_ok [OF assms, of entry exec_size heap_size prio] by (auto split: if_splits)

text \<open>
  A kernel after booting: the first 8 MiB are in use and hold its tables and a heap of 64 KiB at
  0xC0400000, which has the structure of the kernel's own process, the only one.
\<close>

definition sample_heap :: blocks where
  "sample_heap = [(112, True), (65280, False)]"

definition sample_kernel :: procs where
  "sample_kernel = sample_procs\<lparr>framemap := \<lambda>i. if i < 0x100 then - 1 else 0,
     kmem := writes (heap_words 0xC0400000 sample_heap) (kmem booted),
     kheap := kheap (sample_kmm 0xC0400000 sample_heap),
     kheap_header_array := sample_array_of (headers 0xC0400000 sample_heap),
     kheap_footer_array := sample_array_of (footers 0xC0400000 sample_heap),
     kernel_directory := 0xC0104000, pid_ctr := 1, current_proc := 0xC0400010,
     proc_list := 0xC0400010 # replicate 63 0\<rparr>"

lemma sample_kernel_word:
  assumes "4 dvd w" "w < 0xC0400000"
  shows "word_at (kmem sample_kernel) w = word_at (kmem booted) w"
proof -
  have "\<forall>(p, v)\<in>set (heap_words 0xC0400000 sample_heap). 4 dvd p \<and> p < 2 ^ 32"
    by (simp add: sample_heap_def block_words_def)
  from word_at_writes [OF this assms(1), of "kmem booted"] show ?thesis using assms(2)
    by (simp add: sample_kernel_def sample_heap_def block_words_def)
qed

lemma sample_kernel_heap: "heap_inv sample_kernel 0xC0400000 sample_heap"
proof -
  have "\<forall>(p, v)\<in>set (heap_words 0xC0400000 sample_heap). 4 dvd p \<and> p < 2 ^ 32"
    by (simp add: sample_heap_def block_words_def)
  from word_at_writes [OF this, of _ "kmem booted"]
  have "blocks_at (kmem sample_kernel) 0xC0400000 sample_heap"
    by (simp add: sample_heap_def block_words_def block_at_def sample_kernel_def)
  moreover have "holds_addrs (sample_array_of (headers 0xC0400000 sample_heap)) (headers 0xC0400000 sample_heap)"
    "holds_addrs (sample_array_of (footers 0xC0400000 sample_heap)) (footers 0xC0400000 sample_heap)"
    by (rule sample_array_of; simp add: sample_heap_def)+
  ultimately show ?thesis by (simp add: heap_inv_arrays sample_kernel_def sample_kmm_def) (simp add: sample_heap_def)
qed

lemma sample_kernel_used: "f < ALL_FRAMES \<Longrightarrow> frame_used sample_kernel f \<longleftrightarrow> f < 0x800"
  by (auto simp: frame_used_def sample_kernel_def word_less_nat_alt unat_of_nat_u32)

lemma sample_kernel_mem: "kernel_mem 0xC0104000 0xC0106000 0xC0400000 sample_heap sample_kernel"
proof -
  have "kernel_paging 0xC0104000 0xC0106000 booted" using booted_mapped by (simp add: mapped_kernel_def)
  then have "kernel_paging 0xC0104000 0xC0106000 sample_kernel"
    by (simp add: kernel_paging_def kernel_entries_def sample_kernel_word dvd_add Let_def) (simp add: sample_kernel_def)
  moreover have "\<forall>i<768. entry_frame (word_at (kmem sample_kernel) (0xC0104000 + 4 * i)) = 0"
  proof (intro allI impI)
    fix i :: nat assume i: "i < 768"
    let ?q = "0xC0104000 + 4 * i"
    have q: "4 dvd ?q" "?q < 2 ^ 32" using i by auto
    have "word_at (kmem booted) ?q = kernel_word 0xC0104000 0xC0106000 256 (kmem boot_state) ?q"
      using setup_kernel_directory_words [OF sample_layout _ q, of boot_state]
      by (simp add: booted_def swap_dir_def boot_state_def)
    also have "\<dots> = 0" using i boot_words [OF q] by (simp add: kernel_word_def)
    finally show "entry_frame (word_at (kmem sample_kernel) ?q) = 0"
      using sample_kernel_word [OF q(1)] i by (simp add: entry_frame_def)
  qed
  moreover have "null_reserved sample_kernel" by (simp add: null_reserved_def sample_kernel_used)
  moreover have "in_window w \<and> frame_used sample_kernel (word_frame w)"
    if "w \<in> {0xC0400000..<block_end 0xC0400000 sample_heap} \<union> {0xC0104000..<0xC0104000 + 8192} \<union> {0xC0106000..<0xC0106000 + 0x100000}" for w
  proof -
    have "0xC0000000 \<le> w" "w < 0xC0800000" using that by (auto simp: sample_heap_def)
    then have "word_frame w < 0x800" "in_window w" by (auto simp: word_frame_def in_window_def)
    then show ?thesis using sample_kernel_used [of "word_frame w"] by simp
  qed
  moreover have "{0xC0400000..<block_end 0xC0400000 sample_heap} \<inter> ({0xC0104000..<0xC0104000 + 8192} \<union> {0xC0106000..<0xC0106000 + 0x100000}) = {}"
    by auto
  ultimately show ?thesis unfolding kernel_mem_def using sample_kernel_heap by blast
qed

lemma sample_kernel_table:
  "live_procs sample_kernel = {0xC0400010}" "find_slot sample_kernel = Some 1" "proc_list sample_kernel ! 1 = 0"
  "sched_inv sample_kernel" "procs_allocated 0xC0400000 sample_heap sample_kernel"
proof -
  show l: "live_procs sample_kernel = {0xC0400010}" by (auto simp: live_procs_def sample_kernel_def)
  show z: "proc_list sample_kernel ! 1 = 0" by (simp add: sample_kernel_def)
  have "[1..<MAXPROC] = 1 # [2..<MAXPROC]" by (simp add: MAXPROC_def upt_conv_Cons)
  then show "find_slot sample_kernel = Some 1" using z by (simp add: find_slot_def slot_free_def)
  show "procs_allocated 0xC0400000 sample_heap sample_kernel"
    by (auto simp: procs_allocated_def l struct_words_def sample_heap_def)
  have "proc_list sample_kernel ! i = 0" if "0 < i" "i < MAXPROC" for i
    using that by (simp add: sample_kernel_def nth_Cons' MAXPROC_def)
  moreover have "length (proc_list sample_kernel) = MAXPROC" "current_proc sample_kernel = 0xC0400010"
    by (simp_all add: sample_kernel_def MAXPROC_def)
  moreover have "proc_ok 0xC0400010" by (simp add: proc_ok_def)
  ultimately show "sched_inv sample_kernel" by (auto simp: sched_inv_def l)
qed

theorem create_proc_creates_witness:
  "\<exists>r t. create_proc 0x400000 0 0x1000 0 PROC_PRIORITY_NORMAL sample_kernel = Some (r, t) \<and>
    (if r = 0 then low_memory_full t \<and> card (free_low sample_kernel) \<le> 2 + stack_tables 0x1000
     else r = 0xC04000A0 \<and> proc_list t = (proc_list sample_kernel)[1 := r] \<and>
       new_process r 0x400000 0x1000 PROC_PRIORITY_NORMAL 1 0xC0400130 0x800 LOW_FRAMES
         (\<lambda>j. word_at (kmem sample_kernel) (0xC0104000 + 4 * j)) t \<and>
       kernel_mem 0xC0104000 0xC0106000 0xC0400000 [(112, True), (112, True), (8192, True), (56912, False)] t \<and>
       sched_inv t \<and> procs_allocated 0xC0400000 [(112, True), (112, True), (8192, True), (56912, False)] t \<and>
       spaces_kept 0xC0400000 sample_heap sample_kernel t \<and>
       (\<forall>p\<in>live_procs sample_kernel. \<forall>j<26. getf p (4 * of_nat j) t = getf p (4 * of_nat j) sample_kernel))"
proof -
  let ?bs1 = "[(112, True), (112, True), (65136, False)] :: blocks"
  have n: "stack_pages 0x1000 = 2" by (simp add: stack_pages_def)
  have frames: "first_fit sample_kernel 0 LOW_FRAMES 2 = Some 0x800" "(0x1000 :: u32) \<le> 0xBFFFFFF0"
    "first_fit sample_kernel LOW_FRAMES ALL_FRAMES (stack_pages 0x1000) = Some LOW_FRAMES"
    by (auto simp: first_fit_Some free_run_def sample_kernel_used n intro: exI [of _ 0])
  have struct: "length sample_heap < 4096" "fit_ok 112 sample_heap" "spec_alloc 112 0xC0400000 sample_heap = Some (0xC04000A0, ?bs1)"
    by (simp_all add: sample_heap_def)
  have kstack: "length ?bs1 < 4096" "fit_ok 8192 ?bs1"
    "spec_alloc 8192 0xC0400000 ?bs1 = Some (0xC0400130, [(112, True), (112, True), (8192, True), (56912, False)])"
    by simp_all
  have pid: "pid_ctr sample_kernel = 1" by (simp add: sample_kernel_def)
  show ?thesis
    using create_proc_creates [OF sample_kernel_mem sample_kernel_table(4,5,2,3) struct kstack frames, of "0x400000" 0 0 PROC_PRIORITY_NORMAL]
    unfolding pid of_nat_numeral .
qed

end
