(* ===== verification/Syscall.thy ===== *)
theory Syscall
  imports Scheduler
begin

text \<open>
  System calls, \<^verbatim>\<open>src/kernel/kernel/core/syscall.c\<close>. The kernel reads user memory through the
  address space that is loaded, so a read is \<open>vload\<close> and may fault; an operation that faults
  returns \<open>None\<close>. The buffer \<^verbatim>\<open>copy_user_string\<close> fills is the list of the bytes written to it.
\<close>

section \<open>State and constants\<close>

datatype syscall_handler = Sys_print_string

record sysc = procs +
  syscall_table :: "u32 \<Rightarrow> syscall_handler option"

definition SYSCALL_VECTOR :: u8 where "SYSCALL_VECTOR = 0x80"
definition SYSCALL_MAX :: u32 where "SYSCALL_MAX = 256"
definition SYSCALL_SUCCESS :: u32 where "SYSCALL_SUCCESS = 0"
definition SYSCALL_EINVAL :: u32 where "SYSCALL_EINVAL = - 22"
definition SYSCALL_EFAULT :: u32 where "SYSCALL_EFAULT = - 14"
definition SYS_PRINT_STRING :: u32 where "SYS_PRINT_STRING = 1"
definition SYS_PRINT_STRING_MAX_LEN :: u32 where "SYS_PRINT_STRING_MAX_LEN = 256"

section \<open>User memory\<close>

definition user_addr_accessible :: "u32 \<Rightarrow> u32 \<Rightarrow> 'a kmm_scheme \<Rightarrow> bool" where
  "user_addr_accessible proc addr s =
     (if proc = 0 \<or> getf proc off_page_directory s = 0 then False
      else if addr \<ge> PAGE_IDX_VADDR (of_nat KERN_START_TBL) 0 0 then False
      else let dir = getf proc off_page_directory s;
               pd_idx = PAGE_DIR_IDX addr;
               pt_idx = PAGE_TBL_IDX addr;
               entry = load32 (kmem s) (dir_entry dir pd_idx)
           in if \<not> entry_present entry \<or> \<not> entry_user entry then False
              else let table = load32 (kmem s) (dir_table dir pd_idx)
                   in if table = 0 then False
                      else let page = load32 (kmem s) (table_page table pt_idx)
                           in if \<not> entry_present page \<or> \<not> entry_user page then False else True)"

text \<open>The loop with \<open>n\<close> bytes to go and the bytes \<open>dest\<close> copied; the inner option is the result.\<close>

fun copy_loop :: "u32 \<Rightarrow> u32 \<Rightarrow> nat \<Rightarrow> u8 list \<Rightarrow> 'a vmm_scheme \<Rightarrow> u8 list option option" where
  "copy_loop proc src 0 dest s = Some (Some (dest @ [0]))"
| "copy_loop proc src (Suc n) dest s =
     (let addr = src + of_nat (length dest)
      in if \<not> user_addr_accessible proc addr s then Some None
         else do {
           c \<leftarrow> vload s addr;
           if c = 0 then Some (Some (dest @ [c])) else copy_loop proc src n (dest @ [c]) s
         })"

definition copy_user_string :: "u32 \<Rightarrow> u32 \<Rightarrow> u32 \<Rightarrow> u32 \<Rightarrow> 'a vmm_scheme \<Rightarrow> u8 list option option" where
  "copy_user_string proc dest_len src user_len s =
     (if dest_len = 0 \<or> src = 0 \<or> proc = 0 then Some None
      else let limit = user_len;
               limit = (if limit \<ge> dest_len then dest_len - 1 else limit)
           in if limit = 0 then Some (Some [0])
              else copy_loop proc src (unat limit) [] s)"

section \<open>The dispatcher\<close>

definition syscall_register ::
    "u32 \<Rightarrow> syscall_handler option \<Rightarrow> 'a sysc_scheme \<Rightarrow> int \<times> 'a sysc_scheme" where
  "syscall_register num handler s =
     (if num \<ge> SYSCALL_MAX \<or> handler = None then (-1, s)
      else if syscall_table s num \<noteq> None then (-2, s)
      else (0, s\<lparr>syscall_table := (syscall_table s)(num := handler)\<rparr>))"

definition syscall_init :: "'a sysc_scheme \<Rightarrow> 'a sysc_scheme" where
  "syscall_init s =
     (let s = s\<lparr>syscall_table := (\<lambda>num. if num < SYSCALL_MAX then None else syscall_table s num)\<rparr>;
          s = isr_set_handler SYSCALL_VECTOR Syscall_dispatch s;
          (rc, s) = syscall_register SYS_PRINT_STRING (Some Sys_print_string) s
      in if rc \<noteq> 0
         then kprint (''syscall_init: failed to register SYS_PRINT_STRING (%d)'' @ nl) [ArgW (of_int rc)] s
         else s)"

text \<open>The characters of a C string in a buffer.\<close>

definition buffer_string :: "u8 list \<Rightarrow> string" where
  "buffer_string bs = map (\<lambda>b. char_of (unat b)) (takeWhile (\<lambda>b. b \<noteq> 0) bs)"

definition sys_print_string :: "int_regs \<Rightarrow> 'a sysc_scheme \<Rightarrow> (int_regs \<times> 'a sysc_scheme) option" where
  "sys_print_string regs s =
     (let s = kprint (''printf syscall called from process %u'' @ nl)
                [ArgW (if current_proc s \<noteq> 0 then getf (current_proc s) off_pid s else 0)] s
      in if current_proc s = 0 then Some (regs\<lparr>r_eax := SYSCALL_EINVAL\<rparr>, s)
         else let user_buf = r_ebx regs;
                  user_len = r_ecx regs
              in if user_buf = 0 \<or> user_len = 0 then Some (regs\<lparr>r_eax := SYSCALL_EINVAL\<rparr>, s)
                 else do {
                   copied \<leftarrow> copy_user_string (current_proc s) SYS_PRINT_STRING_MAX_LEN user_buf user_len s;
                   Some (case copied of
                       None \<Rightarrow> (regs\<lparr>r_eax := SYSCALL_EFAULT\<rparr>, s)
                     | Some buffer \<Rightarrow>
                         (regs\<lparr>r_eax := SYSCALL_SUCCESS\<rparr>, kprint (''%s'' @ nl) [ArgS (buffer_string buffer)] s))
                 })"

definition syscall_dispatch :: "int_regs \<Rightarrow> 'a sysc_scheme \<Rightarrow> (int_regs \<times> 'a sysc_scheme) option" where
  "syscall_dispatch regs s =
     (let num = r_eax regs
      in case (if num < SYSCALL_MAX then syscall_table s num else None) of
           Some Sys_print_string \<Rightarrow> sys_print_string regs s
         | None \<Rightarrow> Some (regs\<lparr>r_eax := - 1\<rparr>, kprint (''syscall: unhandled number %u'' @ nl) [ArgW num] s))"

section \<open>Accessibility\<close>

text \<open>
  A process directory is consistent when the table pointers of its present user entries name
  the tables the entries name. \<open>user_byte\<close> is what user code reads at an address: the
  processor's walk with the user bit required, below the kernel.
\<close>

definition user_dir :: "mem \<Rightarrow> u32 \<Rightarrow> bool" where
  "user_dir m dir \<longleftrightarrow> dir \<noteq> 0 \<and> (\<forall>i<768. let pde = load32 m (dir_entry dir (of_nat i)) in
     entry_present pde \<longrightarrow> load32 m (dir_table dir (of_nat i)) = KP2V (entry_frame pde * 0x1000) \<and>
       KP2V (entry_frame pde * 0x1000) \<noteq> 0)"

definition user_byte :: "mem \<Rightarrow> u32 \<Rightarrow> u32 \<Rightarrow> u8 option" where
  "user_byte m dir va =
     (if va < 0xC0000000 then map_option (\<lambda>p. m (KP2V p)) (walk user_access m (KV2P dir) va) else None)"

lemma walk_user_present:
  "walk user_access m dir va = Some p \<Longrightarrow> walk entry_present m dir va = Some p"
  by (auto simp: walk_def user_access_def Let_def split: if_splits)

lemma accessible_walk:
  assumes "user_dir (kmem s) dir" "dir = getf proc off_page_directory s" "proc \<noteq> 0"
  shows "user_addr_accessible proc va s \<longleftrightarrow> user_byte (kmem s) dir va \<noteq> None"
proof (cases "va < 0xC0000000")
  case True
  let ?m = "kmem s" and ?i = "PAGE_DIR_IDX va" and ?j = "PAGE_TBL_IDX va"
  define pde where "pde = load32 ?m (dir_entry dir ?i)"
  have "unat va div 0x400000 < 768" using True by (simp add: word_less_nat_alt)
  then have i: "unat ?i < 768" by (simp add: PAGE_DIR_IDX_def unat_div)
  have table: "load32 ?m (dir_table dir ?i) = KP2V (entry_frame pde * 0x1000) \<and> KP2V (entry_frame pde * 0x1000) \<noteq> 0"
    if "entry_present pde"
    using assms(1) i that unfolding user_dir_def Let_def pde_def by (metis of_nat_unat_u32)
  have w: "walk user_access ?m (KV2P dir) va =
      (if \<not> user_access pde then None
       else let pte = load32 ?m (table_page (KP2V (entry_frame pde * 0x1000)) ?j)
            in if \<not> user_access pte then None else Some (entry_frame pte * 0x1000 + va mod 0x1000))"
    by (simp add: walk_def phys_word_def pde_def dir_entry_def table_page_def KP2V_def KV2P_def algebra_simps Let_def)
  have "\<not> va \<ge> PAGE_IDX_VADDR (of_nat KERN_START_TBL) 0 0" using True by (simp add: PAGE_IDX_VADDR_def KERN_START_TBL_def)
  moreover have "dir \<noteq> 0" using assms(1) by (simp add: user_dir_def)
  ultimately have a: "user_addr_accessible proc va s = (user_access pde \<and> load32 ?m (dir_table dir ?i) \<noteq> 0 \<and>
      user_access (load32 ?m (table_page (load32 ?m (dir_table dir ?i)) ?j)))"
    using assms(2,3) by (auto simp: user_addr_accessible_def Let_def user_access_def pde_def)
  show ?thesis
    using table True by (auto simp: a user_byte_def w Let_def user_access_def)
next
  case False
  moreover from this have "0xC0000000 \<le> va" by simp
  ultimately show ?thesis by (simp add: user_addr_accessible_def user_byte_def PAGE_IDX_VADDR_def KERN_START_TBL_def)
qed

lemma vload_user:
  assumes "cr3 s = KV2P dir" "user_byte (kmem s) dir va = Some b"
  shows "vload s va = Some b"
  using assms walk_user_present by (auto simp: user_byte_def vload_def translate_def split: if_splits)

text \<open>The bytes of a user string of at most \<open>n\<close> characters, or the failure to read one.\<close>

definition reads_string :: "mem \<Rightarrow> u32 \<Rightarrow> u32 \<Rightarrow> nat \<Rightarrow> u8 list \<Rightarrow> bool" where
  "reads_string m dir va n bs \<longleftrightarrow> length bs \<le> n \<and>
     (\<forall>k<length bs. user_byte m dir (va + of_nat k) = Some (bs ! k) \<and> bs ! k \<noteq> 0) \<and>
     (length bs = n \<or> user_byte m dir (va + of_nat (length bs)) = Some 0)"

definition string_faults :: "mem \<Rightarrow> u32 \<Rightarrow> u32 \<Rightarrow> nat \<Rightarrow> bool" where
  "string_faults m dir va n \<longleftrightarrow> (\<exists>k<n. user_byte m dir (va + of_nat k) = None \<and>
     (\<forall>j<k. user_byte m dir (va + of_nat j) \<notin> {None, Some 0}))"

lemma copy_loop_reads:
  assumes "user_dir (kmem s) dir" "dir = getf proc off_page_directory s" "proc \<noteq> 0" "cr3 s = KV2P dir"
    and "\<forall>k<length dest. user_byte (kmem s) dir (src + of_nat k) = Some (dest ! k) \<and> dest ! k \<noteq> 0"
  shows "(\<exists>bs. copy_loop proc src n dest s = Some (Some (bs @ [0])) \<and> reads_string (kmem s) dir src (length dest + n) bs) \<or>
    copy_loop proc src n dest s = Some None \<and> string_faults (kmem s) dir src (length dest + n)"
  using assms(5)
proof (induction n arbitrary: dest)
  case 0
  then show ?case by (auto simp: reads_string_def)
next
  case (Suc n)
  let ?va = "src + of_nat (length dest)"
  show ?case
  proof (cases "user_byte (kmem s) dir ?va")
    case None
    then have "copy_loop proc src (Suc n) dest s = Some None"
      using accessible_walk [OF assms(1-3), of ?va] by simp
    moreover have "string_faults (kmem s) dir src (length dest + Suc n)"
      unfolding string_faults_def using None Suc.prems by (intro exI [of _ "length dest"]) auto
    ultimately show ?thesis by blast
  next
    case (Some c)
    then have acc: "user_addr_accessible proc ?va s" "vload s ?va = Some c"
      using accessible_walk [OF assms(1-3), of ?va] vload_user [OF assms(4)] by auto
    show ?thesis
    proof (cases "c = 0")
      case True
      then show ?thesis using acc Some Suc.prems by (intro disjI1 exI [of _ dest]) (auto simp: reads_string_def)
    next
      case False
      have "\<forall>k<length (dest @ [c]). user_byte (kmem s) dir (src + of_nat k) = Some ((dest @ [c]) ! k) \<and> (dest @ [c]) ! k \<noteq> 0"
        using Suc.prems Some False by (auto simp: nth_append less_Suc_eq)
      from Suc.IH [OF this] show ?thesis using acc False by simp
    qed
  qed
qed

lemma copy_user_string_reads:
  assumes "user_dir (kmem s) dir" "dir = getf proc off_page_directory s" "proc \<noteq> 0" "cr3 s = KV2P dir"
    and "src \<noteq> 0" "user_len \<noteq> 0" "1 < unat dest_len"
  defines "n \<equiv> min (unat user_len) (unat dest_len - 1)"
  shows "(\<exists>bs. copy_user_string proc dest_len src user_len s = Some (Some (bs @ [0])) \<and> reads_string (kmem s) dir src n bs) \<or>
    copy_user_string proc dest_len src user_len s = Some None \<and> string_faults (kmem s) dir src n"
proof -
  define limit where "limit = (if user_len \<ge> dest_len then dest_len - 1 else user_len)"
  have "unat (dest_len - 1) = unat dest_len - 1" using assms(7) by (subst unat_sub_u32) simp_all
  then have l: "unat limit = n" by (auto simp: limit_def n_def min_def word_le_nat_alt)
  moreover have "0 < n" using assms(6,7) by (simp add: n_def unat_gt_0)
  ultimately have "limit \<noteq> 0" by auto
  moreover have "dest_len \<noteq> 0" using assms(7) by auto
  ultimately have "copy_user_string proc dest_len src user_len s = copy_loop proc src n [] s"
    using assms(3,5) l by (simp add: copy_user_string_def Let_def flip: limit_def)
  then show ?thesis using copy_loop_reads [OF assms(1-4), of "[]" src n] by simp
qed

lemma sysc_fields_of_more:
  assumes "tty.more s = tty.more (s' :: 'a sysc_scheme)"
  shows "syscall_table s = syscall_table s'" "interrupt_handlers s = interrupt_handlers s'"
  using assms by (cases s; cases s'; simp)+

lemmas kprint_sysc [simp] = sysc_fields_of_more [OF kprint_more]

lemma buffer_string_nul: "0 \<notin> set bs \<Longrightarrow> buffer_string (bs @ [0]) = map (\<lambda>b. char_of (unat b)) bs"
  by (simp add: buffer_string_def takeWhile_append)

section \<open>A sample process\<close>

text \<open>
  Process 1 of the sample table with one user page at \<open>0x400000\<close>, backed by the frame at
  physical \<open>0x700000\<close>, which begins with the string \<open>"hi"\<close>; everything else is not mapped.
\<close>

definition sample_user_words :: "(nat \<times> u32) list" where
  "sample_user_words = [(0xC0502000 + 4, 0x504007), (0xC0502000 + 4096 + 4, 0xC0504000),
     (0xC0504000, 0x700007), (0xC0700000, 0x6968)]"

definition sample_sysc :: sysc where
  "sample_sysc = procs.extend (sample_procs\<lparr>kmem := writes (sample_words @ sample_user_words) (\<lambda>_. 0), cr3 := 0x502000\<rparr>)
     (sysc.fields (\<lambda>_. None))"

lemma sample_sysc_word:
  assumes "4 dvd q" "0xC0500000 \<le> q" "q < 2 ^ 32"
  shows "word_at (kmem sample_sysc) q = (case map_of (rev sample_user_words) q of None \<Rightarrow> 0 | Some v \<Rightarrow> v)"
proof -
  have ws: "\<forall>(p, v)\<in>set (sample_words @ sample_user_words). 4 dvd p \<and> p < 2 ^ 32"
    by (simp add: sample_words_def sample_user_words_def sample_proc_def Let_def)
  have "\<forall>p\<in>fst ` set sample_words. p < 0xC0500000" by (simp add: sample_words_def sample_proc_def Let_def)
  then have "map_of (rev sample_words) q = None" using assms(2) by (auto simp: map_of_eq_None_iff)
  then show ?thesis
    using word_at_writes [OF ws assms(1,3), of "\<lambda>_. 0"]
    by (simp add: sample_sysc_def procs.defs sysc.defs word_at_def load32_def map_add_def split: option.splits)
qed

lemma sample_dir: "getf (of_nat (sample_proc 1)) off_page_directory sample_sysc = 0xC0502000"
proof -
  have ws: "\<forall>(p, v)\<in>set (sample_words @ sample_user_words). 4 dvd p \<and> p < 2 ^ 32"
    by (simp add: sample_words_def sample_user_words_def sample_proc_def Let_def)
  have "word_at (kmem sample_sysc) (sample_proc 1 + 4) = 0xC0502000"
    using word_at_writes [OF ws, of "sample_proc 1 + 4" "\<lambda>_. 0"]
    by (simp add: sample_sysc_def procs.defs sysc.defs sample_words_def sample_user_words_def sample_proc_def Let_def upt_rec)
  then show ?thesis using getf_word [of "sample_proc 1" 4 sample_sysc] by (simp add: off_page_directory_def)
qed

lemma sample_user_dir: "user_dir (kmem sample_sysc) 0xC0502000"
proof -
  have "load32 (kmem sample_sysc) (dir_entry 0xC0502000 (of_nat i)) = word_at (kmem sample_sysc) (0xC0502000 + 4 * i)"
    "load32 (kmem sample_sysc) (dir_table 0xC0502000 (of_nat i)) = word_at (kmem sample_sysc) (0xC0503000 + 4 * i)" for i
    by (simp_all add: dir_entry_def dir_table_def word_at_def)
  moreover have "word_at (kmem sample_sysc) (0xC0502000 + 4 * i) = (if i = 1 then 0x504007 else 0)"
    "word_at (kmem sample_sysc) (0xC0503000 + 4 * i) = (if i = 1 then 0xC0504000 else 0)" if "i < 768" for i
    using that by (subst sample_sysc_word; auto simp: sample_user_words_def)+
  ultimately show ?thesis
    by (auto simp: user_dir_def Let_def entry_present_def entry_frame_def KP2V_def)
qed

lemma sample_bytes:
  "kmem sample_sysc 0xC0700000 = 0x68" "kmem sample_sysc 0xC0700001 = 0x69" "kmem sample_sysc 0xC0700002 = 0"
  by (simp_all add: sample_sysc_def procs.defs sysc.defs writes_def sample_user_words_def store32_def)

lemma sample_user_bytes:
  "user_byte (kmem sample_sysc) 0xC0502000 0x400000 = Some 0x68"
  "user_byte (kmem sample_sysc) 0xC0502000 0x400001 = Some 0x69"
  "user_byte (kmem sample_sysc) 0xC0502000 0x400002 = Some 0"
proof -
  have "word_at (kmem sample_sysc) 0xC0502004 = 0x504007" "word_at (kmem sample_sysc) 0xC0504000 = 0x700007"
    by (subst sample_sysc_word; simp add: sample_user_words_def)+
  then have ld: "load32 (kmem sample_sysc) 0xC0502004 = 0x504007" "load32 (kmem sample_sysc) 0xC0504000 = 0x700007"
    by (simp_all add: word_at_def)
  show "user_byte (kmem sample_sysc) 0xC0502000 0x400000 = Some 0x68"
    "user_byte (kmem sample_sysc) 0xC0502000 0x400001 = Some 0x69"
    "user_byte (kmem sample_sysc) 0xC0502000 0x400002 = Some 0"
    by (simp_all add: user_byte_def walk_def phys_word_def KP2V_def KV2P_def PAGE_DIR_IDX_def PAGE_TBL_IDX_def ld
        user_access_def entry_present_def entry_user_def entry_frame_def sample_bytes)
qed

lemma sample_reads:
  assumes "reads_string (kmem sample_sysc) 0xC0502000 0x400000 100 bs"
  shows "bs = [0x68, 0x69]"
proof -
  have b: "user_byte (kmem sample_sysc) 0xC0502000 (0x400000 + of_nat k) = Some (bs ! k) \<and> bs ! k \<noteq> 0" if "k < length bs" for k
    using assms that by (simp add: reads_string_def)
  have e: "length bs = 100 \<or> user_byte (kmem sample_sysc) 0xC0502000 (0x400000 + of_nat (length bs)) = Some 0"
    using assms by (simp add: reads_string_def)
  have "\<not> 2 < length bs" using b [of 2] sample_user_bytes(3) by auto
  moreover have "length bs \<noteq> 0" using e sample_user_bytes(1) by auto
  moreover have "length bs \<noteq> 1" using e sample_user_bytes(2) by auto
  ultimately have "length bs = 2" by linarith
  then show ?thesis using b [of 0] b [of 1] sample_user_bytes(1,2)
    by (auto simp: numeral_2_eq_2 length_Suc_conv)
qed

lemma sample_no_fault: "\<not> string_faults (kmem sample_sysc) 0xC0502000 0x400000 100"
proof
  assume "string_faults (kmem sample_sysc) 0xC0502000 0x400000 100"
  then obtain k where k: "user_byte (kmem sample_sysc) 0xC0502000 (0x400000 + of_nat k) = None"
    and j: "\<And>j. j < k \<Longrightarrow> user_byte (kmem sample_sysc) 0xC0502000 (0x400000 + of_nat j) \<notin> {None, Some 0}"
    by (auto simp: string_faults_def)
  have "\<not> 2 < k" using j [of 2] sample_user_bytes(3) by auto
  then consider "k = 0" | "k = 1" | "k = 2" by linarith
  then show False using k sample_user_bytes by cases auto
qed

lemma syscall_init_state:
  "syscall_init s = s\<lparr>syscall_table := (\<lambda>num. if num = 1 then Some Sys_print_string
       else if num < 256 then None else syscall_table s num),
     interrupt_handlers := (interrupt_handlers s)(128 \<mapsto> Syscall_dispatch)\<rparr>"
proof -
  have "\<not> (256 :: u32) \<le> 1" by (simp add: word_le_nat_alt)
  then have "syscall_register SYS_PRINT_STRING (Some Sys_print_string) t =
      (0, t\<lparr>syscall_table := (syscall_table t)(1 \<mapsto> Sys_print_string)\<rparr>)" if "syscall_table t 1 = None"
    for t :: "'a sysc_scheme"
    using that by (simp add: syscall_register_def SYS_PRINT_STRING_def SYSCALL_MAX_def)
  then show ?thesis
    by (simp add: syscall_init_def isr_set_handler_def SYSCALL_VECTOR_def SYSCALL_MAX_def fun_upd_def Let_def cong: if_cong)
qed

section \<open>Properties\<close>

text \<open>
  C22: for a process whose directory is consistent, \<^verbatim>\<open>user_addr_accessible\<close> accepts an address exactly
  when it lies below the kernel and the processor would let user code read it: both page table
  levels are present and marked for user mode.
\<close>

theorem user_addr_accessible_exact:
  assumes "proc \<noteq> 0" "user_dir (kmem s) (getf proc off_page_directory s)"
  shows "user_addr_accessible proc va s \<longleftrightarrow>
    va < 0xC0000000 \<and> walk user_access (kmem s) (KV2P (getf proc off_page_directory s)) va \<noteq> None"
  using accessible_walk [OF assms(2) refl assms(1)] by (auto simp: user_byte_def)

theorem user_addr_accessible_exact_witness:
  "user_addr_accessible (of_nat (sample_proc 1)) 0x400001 sample_sysc \<and>
    \<not> user_addr_accessible (of_nat (sample_proc 1)) 0xC0400000 sample_sysc"
proof -
  have "walk user_access (kmem sample_sysc) (KV2P 0xC0502000) 0x400001 \<noteq> None"
    using sample_user_bytes(2) by (auto simp: user_byte_def)
  then show ?thesis
    using user_addr_accessible_exact [of "of_nat (sample_proc 1)" sample_sysc] sample_nonzero [of 1] sample_dir
      sample_user_dir by (simp del: of_nat_add)
qed

lemma sys_print_string_cases:
  assumes "current_proc s \<noteq> 0" "dir = getf (current_proc s) off_page_directory s" "user_dir (kmem s) dir"
    and "cr3 s = KV2P dir" "r_ebx regs \<noteq> 0" "r_ecx regs \<noteq> 0"
    and "s1 = kprint (''printf syscall called from process %u'' @ nl) [ArgW (getf (current_proc s) off_pid s)] s"
    and "n = min (unat (r_ecx regs)) 255"
  shows "(\<exists>bs. reads_string (kmem s) dir (r_ebx regs) n bs \<and>
      sys_print_string regs s = Some (regs\<lparr>r_eax := SYSCALL_SUCCESS\<rparr>,
        kprint (''%s'' @ nl) [ArgS (map (\<lambda>b. char_of (unat b)) bs)] s1)) \<or>
    string_faults (kmem s) dir (r_ebx regs) n \<and>
      sys_print_string regs s = Some (regs\<lparr>r_eax := SYSCALL_EFAULT\<rparr>, s1)"
proof -
  have k: "kmem s1 = kmem s" "cr3 s1 = cr3 s" "current_proc s1 = current_proc s" using assms(7) by simp_all
  have dir: "user_dir (kmem s1) dir" "dir = getf (current_proc s) off_page_directory s1" "cr3 s1 = KV2P dir"
    using k(1,2) assms(2-4) by (simp_all add: getf_def)
  have len: "1 < unat SYS_PRINT_STRING_MAX_LEN" "min (unat (r_ecx regs)) (unat SYS_PRINT_STRING_MAX_LEN - 1) = n"
    using assms(8) by (simp_all add: SYS_PRINT_STRING_MAX_LEN_def)
  note copy_user_string_reads [OF dir(1,2) assms(1) dir(3) assms(5,6) len(1), unfolded len(2) k(1)]
  moreover have "sys_print_string regs s =
      map_option (\<lambda>copied. case copied of None \<Rightarrow> (regs\<lparr>r_eax := SYSCALL_EFAULT\<rparr>, s1)
        | Some buffer \<Rightarrow> (regs\<lparr>r_eax := SYSCALL_SUCCESS\<rparr>, kprint (''%s'' @ nl) [ArgS (buffer_string buffer)] s1))
      (copy_user_string (current_proc s) SYS_PRINT_STRING_MAX_LEN (r_ebx regs) (r_ecx regs) s1)"
    using assms(1,5,6) k(3) unfolding sys_print_string_def Let_def assms(7) [symmetric] if_P [OF assms(1)]
    by (simp add: map_conv_bind_option comp_def)
  moreover have "buffer_string (bs @ [0]) = map (\<lambda>b. char_of (unat b)) bs" if "reads_string (kmem s) dir (r_ebx regs) n bs" for bs
    using that by (intro buffer_string_nul) (auto simp: reads_string_def in_set_conv_nth)
  ultimately show ?thesis by (elim disjE exE conjE) (simp_all, blast)
qed

text \<open>
  C18: the print system call, made by a process whose consistent directory is loaded, never faults.
  It prints the bytes user code can read from the address in \<^verbatim>\<open>ebx\<close> on, up to the first NUL and at
  most \<^verbatim>\<open>ecx\<close> and 255 of them, and returns 0; or, when a byte before that cannot be read in user
  mode, it prints nothing of the string and returns \<^verbatim>\<open>EFAULT\<close>. No byte that user code could not
  read reaches the terminal.
\<close>

theorem sys_print_string_safe:
  assumes "current_proc s \<noteq> 0" "dir = getf (current_proc s) off_page_directory s" "user_dir (kmem s) dir"
    and "cr3 s = KV2P dir" "r_ebx regs \<noteq> 0" "r_ecx regs \<noteq> 0"
    and "s1 = kprint (''printf syscall called from process %u'' @ nl) [ArgW (getf (current_proc s) off_pid s)] s"
    and "n = min (unat (r_ecx regs)) 255"
  shows "(\<exists>bs. reads_string (kmem s) dir (r_ebx regs) n bs \<and>
      sys_print_string regs s = Some (regs\<lparr>r_eax := SYSCALL_SUCCESS\<rparr>,
        kprint (''%s'' @ nl) [ArgS (map (\<lambda>b. char_of (unat b)) bs)] s1)) \<or>
    string_faults (kmem s) dir (r_ebx regs) n \<and>
      sys_print_string regs s = Some (regs\<lparr>r_eax := SYSCALL_EFAULT\<rparr>, s1)"
  by (rule sys_print_string_cases [OF assms])

theorem sys_print_string_safe_witness:
  "\<exists>s'. sys_print_string (sample_regs\<lparr>r_eax := 1, r_ebx := 0x400000, r_ecx := 100\<rparr>) sample_sysc =
    Some (sample_regs\<lparr>r_eax := SYSCALL_SUCCESS, r_ebx := 0x400000, r_ecx := 100\<rparr>,
      kprint (''%s'' @ nl) [ArgS ''hi''] s')"
proof -
  let ?r = "sample_regs\<lparr>r_eax := 1, r_ebx := 0x400000, r_ecx := 100\<rparr>"
  let ?s1 = "kprint (''printf syscall called from process %u'' @ nl)
    [ArgW (getf (current_proc sample_sysc) off_pid sample_sysc)] sample_sysc"
  have cur: "current_proc sample_sysc = of_nat (sample_proc 1)" "cr3 sample_sysc = KV2P 0xC0502000"
    by (simp_all add: sample_sysc_def procs.defs sysc.defs sample_procs_def KV2P_def)
  have "current_proc sample_sysc \<noteq> 0" using cur(1) sample_nonzero [of 1] by simp
  moreover have "0xC0502000 = getf (current_proc sample_sysc) off_page_directory sample_sysc"
    using cur(1) sample_dir by simp
  ultimately have res: "(\<exists>bs. reads_string (kmem sample_sysc) 0xC0502000 0x400000 100 bs \<and>
      sys_print_string ?r sample_sysc = Some (?r\<lparr>r_eax := SYSCALL_SUCCESS\<rparr>,
        kprint (''%s'' @ nl) [ArgS (map (\<lambda>b. char_of (unat b)) bs)] ?s1)) \<or>
    string_faults (kmem sample_sysc) 0xC0502000 0x400000 100 \<and>
      sys_print_string ?r sample_sysc = Some (?r\<lparr>r_eax := SYSCALL_EFAULT\<rparr>, ?s1)"
    using sys_print_string_safe [of sample_sysc "0xC0502000" ?r ?s1 100] sample_user_dir cur(2) by simp
  then obtain bs where bs: "reads_string (kmem sample_sysc) 0xC0502000 0x400000 100 bs"
    "sys_print_string ?r sample_sysc = Some (?r\<lparr>r_eax := SYSCALL_SUCCESS\<rparr>,
        kprint (''%s'' @ nl) [ArgS (map (\<lambda>b. char_of (unat b)) bs)] ?s1)"
    using sample_no_fault by blast
  have "map (\<lambda>b. char_of (unat b)) bs = ''hi''" using sample_reads [OF bs(1)] by (simp add: char_of_def bit_Suc_0_iff)
  then show ?thesis using bs(2) by (intro exI [of _ ?s1]) (simp add: sample_regs_def)
qed

text \<open>
  After \<^verbatim>\<open>syscall_init\<close> the dispatcher is installed for vector 128; number 1 runs the print call,
  every other number, in the table or beyond it, is refused: -1 in \<^verbatim>\<open>eax\<close>, a message, and nothing
  else changes.
\<close>

theorem syscall_dispatch_after_init:
  "interrupt_handlers (syscall_init s) 128 = Some Syscall_dispatch \<and>
   syscall_dispatch regs (syscall_init s) =
     (if r_eax regs = SYS_PRINT_STRING then sys_print_string regs (syscall_init s)
      else Some (regs\<lparr>r_eax := 0xFFFFFFFF\<rparr>,
        kprint (''syscall: unhandled number %u'' @ nl) [ArgW (r_eax regs)] (syscall_init s)))"
proof -
  have "(1 :: u32) < 256" by (simp add: word_less_nat_alt)
  then show ?thesis
    by (auto simp: syscall_dispatch_def Let_def SYS_PRINT_STRING_def SYSCALL_MAX_def syscall_init_state)
qed

end
