(* ===== verification/Interrupts.thy ===== *)
theory Interrupts
  imports Syscall
begin

text \<open>
  Interrupt handling: \<^verbatim>\<open>src/kernel/kernel/core/interrupts/isr.c\<close>, the timer handlers of
  \<^verbatim>\<open>src/kernel/kernel/drivers/pit.c\<close> and \<^verbatim>\<open>hpet.c\<close>. A handler takes the interrupt frame and returns
  the frame the processor resumes with; \<open>None\<close> is an exception inside the handler (a page fault
  or a division by zero) or an access outside an array.
\<close>

section \<open>State\<close>

record intr = sysc +
  apic_eoi :: u32
  pit_cur_frequency :: u32
  tick :: u64
  ticks :: u32
  int_freq :: u32

definition SCHED_SLICE_SECONDS :: u64 where "SCHED_SLICE_SECONDS = 2"

section \<open>Timers\<close>

text \<open>\<open>tick\<close> takes two words of the arguments of \<^verbatim>\<open>printf\<close>, the low one first.\<close>

definition pit_handler :: "int_regs \<Rightarrow> 'a intr_scheme \<Rightarrow> int_regs \<times> 'a intr_scheme" where
  "pit_handler registers s =
     (let s = s\<lparr>tick := tick s + 1\<rparr>;
          slice = ucast (pit_cur_frequency s) * SCHED_SLICE_SECONDS
      in if slice \<noteq> 0 \<and> r_cs registers AND 3 = 3 \<and> tick s mod slice = 0
         then let s = kprint (''PIT: scheduling tick %llu'' @ nl)
                        [ArgW (ucast (tick s)), ArgW (ucast (drop_bit 32 (tick s)))] s
              in scheduler_switch_next registers s
         else (registers, s))"

text \<open>
  The divisor is a quotient of doubles, \<open>3579545 / 3 / freq\<close>, truncated. The quotient is never an
  integer and differs from one by at least \<open>1 / (3 * freq)\<close>, far more than the rounding error, so
  truncation gives the integer quotient. For \<open>freq = 0\<close> the conversion is undefined.
\<close>

definition pit_init :: "u32 \<Rightarrow> 'a intr_scheme \<Rightarrow> 'a intr_scheme option" where
  "pit_init freq s =
     (if freq = 0 then None
      else let s = cli s;
               s = s\<lparr>pit_cur_frequency := freq\<rparr>;
               s = isr_set_handler 32 Pit_handler s;
               divisor = of_nat (3579545 div (3 * unat freq)) :: u32;
               s = outb 0x43 0b00110110 s;
               l = ucast (divisor AND 0xFF) :: u8;
               h = ucast (drop_bit 8 divisor AND 0xFF) :: u8;
               s = outb 0x40 l s;
               s = outb 0x40 h s
           in Some (sti s))"

definition hpet_handler :: "int_regs \<Rightarrow> 'a intr_scheme \<Rightarrow> (int_regs \<times> 'a intr_scheme) option" where
  "hpet_handler registers s =
     (if int_freq s = 0 then None
      else let s = (if ticks s mod int_freq s = 0 then kprint (''%u'' @ nl) [ArgW (ticks s)] s else s)
           in Some (registers, s\<lparr>ticks := ticks s + 1\<rparr>))"

section \<open>Dispatch\<close>

text \<open>\<open>addr\<close> is the contents of \<^verbatim>\<open>cr2\<close>, for the page fault handler.\<close>

definition call_handler ::
    "u32 \<Rightarrow> isr \<Rightarrow> int_regs \<Rightarrow> 'a intr_scheme \<Rightarrow> (int_regs \<times> 'a intr_scheme) outcome option" where
  "call_handler addr handler registers s =
     (case handler of
        Page_fault \<Rightarrow>
          Some (case page_fault addr registers s of
              Running s \<Rightarrow> Running (registers, s) | Halted s \<Rightarrow> Halted (registers, s))
      | Pit_handler \<Rightarrow> Some (Running (pit_handler registers s))
      | Hpet_handler \<Rightarrow> map_option Running (hpet_handler registers s)
      | Syscall_dispatch \<Rightarrow> map_option Running (syscall_dispatch registers s))"

definition isr_handler ::
    "u32 \<Rightarrow> int_regs \<Rightarrow> 'a intr_scheme \<Rightarrow> (int_regs \<times> 'a intr_scheme) outcome option" where
  "isr_handler addr registers s =
     (if r_int_no registers < 256
      then case interrupt_handlers s (ucast (r_int_no registers)) of
             Some handler \<Rightarrow> call_handler addr handler registers s
           | None \<Rightarrow> Some (Running (registers, kprint (''received interrupt: code %d'' @ nl) [ArgW (r_int_no registers)] s))
      else None)"

definition vstore32 :: "u32 \<Rightarrow> u32 \<Rightarrow> 'a vmm_scheme \<Rightarrow> 'a vmm_scheme option" where
  "vstore32 va w s =
     do {
       s \<leftarrow> vstore va (ucast w) s;
       s \<leftarrow> vstore (va + 1) (ucast (drop_bit 8 w)) s;
       s \<leftarrow> vstore (va + 2) (ucast (drop_bit 16 w)) s;
       vstore (va + 3) (ucast (drop_bit 24 w)) s
     }"

definition irq_handler ::
    "u32 \<Rightarrow> int_regs \<Rightarrow> 'a intr_scheme \<Rightarrow> (int_regs \<times> 'a intr_scheme) outcome option" where
  "irq_handler addr registers s =
     do {
       r \<leftarrow> isr_handler addr registers s;
       case r of
         Halted rs \<Rightarrow> Some (Halted rs)
       | Running (registers, s) \<Rightarrow>
           do {
             s \<leftarrow> vstore32 (apic_eoi s) 0 s;
             let s = (if r_int_no registers \<ge> 40 then outb 0xA0 0x20 s else s);
             let s = outb 0x20 0x20 s;
             Some (Running (registers, s))
           }
     }"

definition isr_init :: "'a intr_scheme \<Rightarrow> 'a intr_scheme" where
  "isr_init s = (let (p, s) = kmap 0xFEE000B0 s in s\<lparr>apic_eoi := p\<rparr>)"

section \<open>Timer interrupts\<close>

fun timer_run :: "int_regs list \<Rightarrow> 'a intr_scheme \<Rightarrow> 'a intr_scheme" where
  "timer_run [] s = s"
| "timer_run (r # rs) s = timer_run rs (snd (pit_handler r s))"

text \<open>The number of timer interrupts in a time slice.\<close>

definition slice_ticks :: "'a intr_scheme \<Rightarrow> nat" where
  "slice_ticks s = 2 * unat (pit_cur_frequency s)"

lemma procs_more_of_more: "tty.more s = tty.more s' \<Longrightarrow> procs.more s = procs.more (s' :: 'a procs_scheme)"
  by (cases s; cases s'; simp)

lemma kprint_procs_more [simp]: "procs.more (kprint f a s) = procs.more (s :: 'a procs_scheme)"
  by (rule procs_more_of_more) simp

lemma from_regs_more [simp]: "procs.more (proc_context_from_regs d r s) = procs.more (s :: 'a procs_scheme)"
  by (simp add: proc_context_from_regs_def Let_def setf_def)

lemma switch_next_more: "procs.more (snd (scheduler_switch_next r s)) = procs.more s"
  by (simp add: scheduler_switch_next_def scheduler_switch_process_def Let_def tss_set_kernel_stack_def swap_dir_def)

lemma intr_fields_of_more:
  assumes "procs.more s = procs.more (s' :: 'a intr_scheme)"
  shows "tick s = tick s'" "pit_cur_frequency s = pit_cur_frequency s'" "apic_eoi s = apic_eoi s'"
  using assms by (cases s; cases s'; simp)+

definition same_procs :: "'a procs_scheme \<Rightarrow> 'a procs_scheme \<Rightarrow> bool" where
  "same_procs s s' \<longleftrightarrow> kmem s = kmem s' \<and> proc_list s = proc_list s' \<and> current_proc s = current_proc s'"

lemma same_procs_facts:
  assumes "same_procs s s'"
  shows "sched_inv s = sched_inv s'" "eligible p s = eligible p s'" "live_procs s = live_procs s'"
  using assms by (simp_all add: same_procs_def sched_inv_def eligible_def live_procs_def getf_def)

lemma unat_slice: "unat (ucast (pit_cur_frequency s) * SCHED_SLICE_SECONDS :: u64) = slice_ticks s"
proof -
  have "unat (ucast (pit_cur_frequency s) :: u64) = unat (pit_cur_frequency s)"
    by (simp add: unsigned_ucast_eq take_bit_nat_eq_self unat_u32_less less_trans [OF unat_u32_less])
  moreover have "unat (pit_cur_frequency s) * 2 < 2 ^ 64" using unat_u32_less [of "pit_cur_frequency s"] by simp
  ultimately show ?thesis by (simp add: slice_ticks_def SCHED_SLICE_SECONDS_def unat_word_ariths)
qed

lemma pit_handler_cases:
  assumes "user_mode r" "slice_ticks s \<noteq> 0" "unat (tick s) + 1 < 2 ^ 64"
  obtains (keep) "Suc (unat (tick s)) mod slice_ticks s \<noteq> 0" "pit_handler r s = (r, s\<lparr>tick := tick s + 1\<rparr>)"
  | (switch) t where "Suc (unat (tick s)) mod slice_ticks s = 0" "same_procs t s"
      "procs.more t = procs.more (s\<lparr>tick := tick s + 1\<rparr>)" "pit_handler r s = scheduler_switch_next r t"
proof -
  let ?slice = "ucast (pit_cur_frequency s) * SCHED_SLICE_SECONDS :: u64"
  have u: "unat (tick s + 1) = Suc (unat (tick s))" using assms(3) by (simp add: unat_word_ariths)
  have m: "(tick s + 1) mod ?slice = 0 \<longleftrightarrow> Suc (unat (tick s)) mod slice_ticks s = 0"
    using u unat_slice [of s] by (simp add: word_unat_eq_iff unat_mod)
  have nz: "?slice \<noteq> 0" using assms(2) unat_slice [of s] by auto
  show ?thesis
  proof (cases "Suc (unat (tick s)) mod slice_ticks s = 0")
    case True
    let ?t = "kprint (''PIT: scheduling tick %llu'' @ nl)
      [ArgW (ucast (tick s + 1)), ArgW (ucast (drop_bit 32 (tick s + 1)))] (s\<lparr>tick := tick s + 1\<rparr>)"
    show ?thesis
    proof (rule switch [of ?t])
      show "same_procs ?t s" by (simp add: same_procs_def)
      show "procs.more ?t = procs.more (s\<lparr>tick := tick s + 1\<rparr>)" by (rule kprint_procs_more)
      show "pit_handler r s = scheduler_switch_next r ?t"
        using True m nz assms(1) by (simp add: pit_handler_def Let_def user_mode_def)
    qed (rule True)
  next
    case False
    then show ?thesis using m by (intro keep) (auto simp: pit_handler_def Let_def)
  qed
qed

text \<open>One timer interrupt, seen from a process in slot \<open>j\<close> that waits for the processor.\<close>

lemma timer_progress:
  assumes "sched_inv s" "user_mode r" "slice_ticks s \<noteq> 0" "unat (tick s) + 1 < 2 ^ 64"
    and "i < MAXPROC" "proc_list s ! i = current_proc s" "j < MAXPROC" "i \<noteq> j" "eligible (proc_list s ! j) s"
  defines "s' \<equiv> snd (pit_handler r s)"
  obtains k where "k < MAXPROC" "proc_list s' ! k = current_proc s'" "sched_inv s'" "proc_list s' = proc_list s"
    "unat (tick s') = Suc (unat (tick s))" "slice_ticks s' = slice_ticks s"
    "k = j \<or> eligible (proc_list s ! j) s' \<and>
       (if Suc (unat (tick s)) mod slice_ticks s = 0 then k \<noteq> i \<and> ring_distance k j < ring_distance i j else k = i)"
  using assms(2-4)
proof (cases rule: pit_handler_cases)
  case keep
  have same: "same_procs s' s" by (simp add: s'_def keep(2) same_procs_def)
  have "unat (tick s') = Suc (unat (tick s))" "slice_ticks s' = slice_ticks s"
    using assms(4) by (simp_all add: s'_def keep(2) unat_word_ariths slice_ticks_def)
  then show ?thesis
    using same_procs_facts [OF same] same keep(1) assms(1,5,6,9) by (intro that [of i]) (auto simp: same_procs_def)
next
  case (switch t)
  note eq = same_procs_facts [OF switch(2)]
  have t: "proc_list t = proc_list s" "current_proc t = current_proc s" using switch(2) by (simp_all add: same_procs_def)
  have inv: "sched_inv t" using eq(1) assms(1) by simp
  note p = preempts_switch [OF inv assms(2), folded switch(4), folded s'_def]
  have more: "procs.more s' = procs.more (s\<lparr>tick := tick s + 1\<rparr>)"
    using switch_next_more [of r t] switch(3,4) by (simp add: s'_def)
  have "unat (tick s') = Suc (unat (tick s))" "slice_ticks s' = slice_ticks s"
    using intr_fields_of_more [OF more] assms(4) by (simp_all add: unat_word_ariths slice_ticks_def)
  moreover have el: "eligible (proc_list s ! j) t" using eq(2) assms(9) by simp
  moreover obtain k where k: "k < MAXPROC" "pick_next_proc (current_proc t) t = proc_list t ! k" "proc_list t ! k \<noteq> 0"
    "k = j \<or> k \<noteq> i \<and> ring_distance k j < ring_distance i j"
    using pick_closer [OF inv assms(5) _ assms(7,8)] el t assms(6) by metis
  moreover have l: "proc_list s' = proc_list s" "current_proc s' = proc_list s ! k"
    using p(1) k(2,3) t by (simp_all add: preempts_def)
  moreover have "proc_list s ! j \<in> live_procs t" "proc_list s ! j \<noteq> current_proc t"
    using assms(1,5-9) sched_slot_unique [OF assms(1,5,7)] eq(3) t
    by (auto simp: live_procs_def sched_inv_def eligible_def)
  then have "eligible (proc_list s ! j) s'" using eligible_kept [OF p(1)] el by simp
  ultimately show ?thesis using p(2) switch(1) by (intro that [of k]) auto
qed

lemma timer_scheduled:
  assumes "sched_inv s" "\<forall>r\<in>set rs. user_mode r" "slice_ticks s \<noteq> 0" "unat (tick s) + length rs < 2 ^ 64"
    and "i < MAXPROC" "proc_list s ! i = current_proc s" "j < MAXPROC" "eligible (proc_list s ! j) s"
    and "i \<noteq> j \<Longrightarrow> ring_distance i j \<le> (unat (tick s) + length rs) div slice_ticks s - unat (tick s) div slice_ticks s"
  shows "\<exists>k\<le>length rs. current_proc (timer_run (take k rs) s) = proc_list s ! j"
  using assms
proof (induction rs arbitrary: s i)
  case Nil
  then have "i = j" by (cases "i = j") (auto simp: ring_distance_def split: if_splits)
  then show ?case using Nil.prems(6) by simp
next
  case (Cons r rs)
  show ?case
  proof (cases "i = j")
    case True
    then show ?thesis using Cons.prems(6) by (intro exI [of _ 0]) simp
  next
    case False
    let ?s = "snd (pit_handler r s)" and ?t = "unat (tick s)" and ?L = "slice_ticks s"
    have r: "user_mode r" "?t + 1 < 2 ^ 64" using Cons.prems(2,4) by simp_all
    obtain k where k: "k < MAXPROC" "proc_list ?s ! k = current_proc ?s" "sched_inv ?s" "proc_list ?s = proc_list s"
      "unat (tick ?s) = Suc ?t" "slice_ticks ?s = ?L"
      "k = j \<or> eligible (proc_list s ! j) ?s \<and>
        (if Suc ?t mod ?L = 0 then k \<noteq> i \<and> ring_distance k j < ring_distance i j else k = i)"
      using timer_progress [OF Cons.prems(1) r(1) Cons.prems(3) r(2) Cons.prems(5-7) False Cons.prems(8)] .
    show ?thesis
    proof (cases "k = j")
      case True
      then show ?thesis using k(2,4) by (intro exI [of _ 1]) simp
    next
      case kj: False
      have "Suc ?t div ?L = (if Suc ?t mod ?L = 0 then Suc (?t div ?L) else ?t div ?L)" by (rule div_Suc)
      then have "ring_distance k j \<le> (Suc ?t + length rs) div ?L - Suc ?t div ?L"
        using k(7) kj Cons.prems(9) [OF False] by (auto split: if_splits)
      then have "\<exists>m\<le>length rs. current_proc (timer_run (take m rs) ?s) = proc_list ?s ! j"
        using Cons.prems(2-4,7) k kj by (intro Cons.IH [where i = k]) auto
      then obtain m where "m \<le> length rs" "current_proc (timer_run (take m rs) ?s) = proc_list s ! j"
        using k(4) by auto
      then show ?thesis by (intro exI [of _ "Suc m"]) simp
    qed
  qed
qed

section \<open>Handlers as steps\<close>

text \<open>
  Between interrupts the loaded address space and the kernel stack in the task state segment are
  those of the current process.
\<close>

definition coherent :: "'a procs_scheme \<Rightarrow> bool" where
  "coherent s \<longleftrightarrow> sched_inv s \<and> cr3 s = KV2P (getf (current_proc s) off_page_directory s) \<and>
     esp0 (tss s) = getf (current_proc s) off_kstack_top s"

inductive handler_step :: "'a intr_scheme \<Rightarrow> 'a intr_scheme \<Rightarrow> bool" where
  handler: "call_handler addr h r s = Some (Running (r', s')) \<Longrightarrow> handler_step s s'"

inductive_cases handler_stepE: "handler_step s s'"

lemma coherent_cong:
  assumes "kmem s' = kmem s" "proc_list s' = proc_list s" "current_proc s' = current_proc s" "cr3 s' = cr3 s" "tss s' = tss s"
  shows "coherent s' = coherent s"
  using assms by (simp add: coherent_def sched_inv_def live_procs_def getf_def)

lemma kprint_coherent [simp]: "coherent (kprint f a s) = coherent (s :: 'a procs_scheme)"
  by (rule coherent_cong) simp_all

lemma preempts_coherent:
  assumes "preempts r s next r' s'" "sched_inv s'" "coherent s" "next \<noteq> 0 \<Longrightarrow> next \<in> live_procs s"
  shows "coherent s'"
proof -
  have f: "getf q off_page_directory s' = getf q off_page_directory s" "getf q off_kstack_top s' = getf q off_kstack_top s"
    if "q \<in> live_procs s" for q
  proof -
    have "fixed_field 1" "fixed_field 21" by (simp_all add: fixed_field_def)
    then have "getf q (4 * of_nat 1) s' = getf q (4 * of_nat 1) s" "getf q (4 * of_nat 21) s' = getf q (4 * of_nat 21) s"
      using assms(1) that unfolding preempts_def by blast+
    then show "getf q off_page_directory s' = getf q off_page_directory s" "getf q off_kstack_top s' = getf q off_kstack_top s"
      by (simp_all add: off_page_directory_def off_kstack_top_def)
  qed
  show ?thesis
  proof (cases "next = 0")
    case True
    have "current_proc s \<in> live_procs s" using assms(3) sched_invD(1) by (auto simp: coherent_def)
    then show ?thesis using True assms(1-3) f [of "current_proc s"] by (auto simp: preempts_def coherent_def)
  next
    case False
    then show ?thesis using assms f [of "next"] by (auto simp: preempts_def coherent_def)
  qed
qed

lemma switch_next_coherent:
  assumes "coherent s"
  shows "coherent (snd (scheduler_switch_next r s))"
proof (cases "user_mode r")
  case True
  have inv: "sched_inv s" using assms by (simp add: coherent_def)
  note p = preempts_switch [OF inv True]
  show ?thesis by (rule preempts_coherent [OF p assms]) (rule pick_next_eligible(1) [OF inv refl])
next
  case False
  then show ?thesis using assms by (simp add: scheduler_switch_next_def user_mode_def)
qed

lemma pit_handler_coherent: "coherent s \<Longrightarrow> coherent (snd (pit_handler r s))"
proof -
  assume "coherent s"
  then have "coherent (s\<lparr>tick := tick s + 1\<rparr>)" by (subst coherent_cong [where s = s]) simp_all
  then show ?thesis by (auto simp: pit_handler_def Let_def intro!: switch_next_coherent)
qed

lemma sys_print_string_coherent: "sys_print_string r s = Some (r', s') \<Longrightarrow> coherent s \<Longrightarrow> coherent s'"
  by (auto simp: sys_print_string_def Let_def split: if_splits Option.bind_splits option.splits)

lemma syscall_dispatch_coherent: "syscall_dispatch r s = Some (r', s') \<Longrightarrow> coherent s \<Longrightarrow> coherent s'"
  by (auto simp: syscall_dispatch_def Let_def sys_print_string_coherent
      split: if_splits option.splits syscall_handler.splits)

lemma hpet_handler_coherent: "hpet_handler r s = Some (r', s') \<Longrightarrow> coherent s \<Longrightarrow> coherent s'"
  by (auto simp: hpet_handler_def Let_def coherent_cong [of "s\<lparr>ticks := ticks s + 1\<rparr>" s] split: if_splits)
     (subst coherent_cong [of _ "kprint _ _ s"]; simp)+

lemma handler_step_coherent:
  assumes "handler_step s s'" "coherent s"
  shows "coherent s'"
proof -
  obtain addr h r r' where c: "call_handler addr h r s = Some (Running (r', s'))"
    using assms(1) by (rule handler_stepE)
  then show ?thesis
    using assms(2) pit_handler_coherent [of s r] syscall_dispatch_coherent hpet_handler_coherent
    by (cases h) (auto simp: call_handler_def page_fault_def panic_def Let_def dest: arg_cong [of _ _ snd])
qed

section \<open>Acknowledgement\<close>

lemma machine_log_of_more:
  assumes "tty.more s = tty.more (s' :: 'a machine_scheme)"
  shows "port_log s = port_log s'"
  using assms by (cases s; cases s'; simp)

lemmas kprint_log [simp] = machine_log_of_more [OF kprint_more]

lemma switch_next_log [simp]:
  "port_log (snd (scheduler_switch_next r s)) = port_log s"
  "r_int_no (fst (scheduler_switch_next r s)) = r_int_no r"
  by (simp_all add: scheduler_switch_next_def scheduler_switch_process_def Let_def tss_set_kernel_stack_def
      swap_dir_def proc_context_from_regs_def setf_def proc_context_to_regs_def)

lemma pit_handler_log [simp]:
  "port_log (snd (pit_handler r s)) = port_log s" "r_int_no (fst (pit_handler r s)) = r_int_no r"
  by (simp_all add: pit_handler_def Let_def)

lemma sys_print_string_log:
  "sys_print_string r s = Some (r', s') \<Longrightarrow> port_log s' = port_log s \<and> r_int_no r' = r_int_no r"
  by (auto simp: sys_print_string_def Let_def split: if_splits Option.bind_splits option.splits)

lemma syscall_dispatch_log:
  "syscall_dispatch r s = Some (r', s') \<Longrightarrow> port_log s' = port_log s \<and> r_int_no r' = r_int_no r"
  by (auto simp: syscall_dispatch_def Let_def dest: sys_print_string_log
      split: if_splits option.splits syscall_handler.splits)

lemma hpet_handler_log:
  "hpet_handler r s = Some (r', s') \<Longrightarrow> port_log s' = port_log s \<and> r_int_no r' = r_int_no r"
  by (auto simp: hpet_handler_def Let_def split: if_splits)

lemma isr_handler_log:
  assumes "isr_handler addr r s = Some (Running (r', s'))"
  shows "port_log s' = port_log s \<and> r_int_no r' = r_int_no r"
proof (cases "interrupt_handlers s (ucast (r_int_no r))")
  case None
  then show ?thesis using assms by (auto simp: isr_handler_def split: if_splits)
next
  case (Some h)
  then have c: "call_handler addr h r s = Some (Running (r', s'))" using assms by (auto simp: isr_handler_def split: if_splits)
  show ?thesis
  proof (cases h)
    case Page_fault
    then show ?thesis using c by (simp add: call_handler_def page_fault_def panic_def Let_def)
  next
    case Pit_handler
    then have "pit_handler r s = (r', s')" using c by (simp add: call_handler_def)
    then show ?thesis using pit_handler_log [of r s] by simp
  next
    case Hpet_handler
    then show ?thesis using c by (auto simp: call_handler_def dest: hpet_handler_log)
  next
    case Syscall_dispatch
    then show ?thesis using c by (auto simp: call_handler_def dest: syscall_dispatch_log)
  qed
qed

lemma vstore_log: "vstore va v s = Some s' \<Longrightarrow> port_log s' = port_log (s :: 'a machine_scheme)"
  by (auto simp: vstore_def)

lemma vstore32_log: "vstore32 va w s = Some s' \<Longrightarrow> port_log s' = port_log (s :: 'a machine_scheme)"
  by (auto simp: vstore32_def dest!: vstore_log split: Option.bind_splits)

section \<open>A sample state\<close>

lemma sample_kstack: "getf (of_nat (sample_proc 1)) off_kstack_top sample_sysc = 0xC0602000"
proof -
  have ws: "\<forall>(p, v)\<in>set (sample_words @ sample_user_words). 4 dvd p \<and> p < 2 ^ 32"
    by (simp add: sample_words_def sample_user_words_def sample_proc_def Let_def)
  have "word_at (kmem sample_sysc) (sample_proc 1 + 84) = 0xC0602000"
    using word_at_writes [OF ws, of "sample_proc 1 + 84" "\<lambda>_. 0"]
    by (simp add: sample_sysc_def procs.defs sysc.defs sample_words_def sample_user_words_def sample_proc_def Let_def upt_rec)
  then show ?thesis using getf_word [of "sample_proc 1" 84 sample_sysc] by (simp add: off_kstack_top_def)
qed

definition sample_intr :: intr where
  "sample_intr = sysc.extend (sample_sysc\<lparr>tss := zero_tss\<lparr>esp0 := 0xC0602000\<rparr>\<rparr>) (intr.fields 0xF80000B0 1 0 0 1)"

lemma sample_intr_fields:
  "kmem sample_intr = kmem sample_sysc" "proc_list sample_intr = proc_list sample_procs"
  "current_proc sample_intr = current_proc sample_procs" "cr3 sample_intr = 0x502000"
  "esp0 (tss sample_intr) = 0xC0602000" "pit_cur_frequency sample_intr = 1" "tick sample_intr = 0"
  by (simp_all add: sample_intr_def sample_sysc_def procs.defs sysc.defs intr.defs)

lemma sample_intr_inv: "sched_inv sample_intr"
  using sample_sched_inv by (simp add: sched_inv_def live_procs_def sample_intr_fields)

lemma sample_coherent: "coherent sample_intr"
proof -
  have "current_proc sample_procs = of_nat (sample_proc 1)" by (simp add: sample_procs_def)
  then show ?thesis
    using sample_intr_inv sample_dir sample_kstack
    by (simp add: coherent_def sample_intr_fields getf_def KV2P_def del: of_nat_add)
qed

lemma sample_intr_eligible:
  assumes "i \<in> {1, 2, 3}"
  shows "eligible (of_nat (sample_proc i)) sample_intr"
proof -
  have ws: "\<forall>(p, v)\<in>set (sample_words @ sample_user_words). 4 dvd p \<and> p < 2 ^ 32"
    by (simp add: sample_words_def sample_user_words_def sample_proc_def Let_def)
  have "word_at (kmem sample_intr) (sample_proc i + n) = (if n = 60 then 2 else 0x1B)" if "n \<in> {60, 44}" for n
    using word_at_writes [OF ws, of "sample_proc i + n" "\<lambda>_. 0"] assms that
    by (auto simp: sample_intr_fields sample_sysc_def procs.defs sysc.defs sample_words_def sample_user_words_def
        sample_proc_def Let_def upt_rec)
  from this [of 60] this [of 44] show ?thesis
    using sample_nonzero [of i] assms getf_word [of "sample_proc i" 60 sample_intr] getf_word [of "sample_proc i" 44 sample_intr]
    by (auto simp: eligible_def off_procstate_def off_context_def ctx_cs_def)
qed

lemma load32_other: "a \<notin> {x, x + 1, x + 2, x + 3} \<Longrightarrow> load32 (m(a := v)) x = load32 m x"
  by (auto simp: load32_def)

lemma sample_vstore:
  assumes "load32 (kmem s) 0xC0502004 = 0x504007" "load32 (kmem s) 0xC0504000 = 0x700007" "cr3 s = 0x502000"
    and "k \<in> {0, 1, 2, 3}"
  shows "vstore (0x400010 + k) v s = Some (s\<lparr>kmem := (kmem s)(0xC0700010 + k := v)\<rparr>)"
  using assms by (auto simp: vstore_def translate_def walk_def phys_word_def KP2V_def PAGE_DIR_IDX_def PAGE_TBL_IDX_def
      entry_present_def entry_frame_def)

lemma sample_irq:
  "\<exists>r' s'. irq_handler 0 (sample_regs\<lparr>r_int_no := 44\<rparr>) (sample_intr\<lparr>apic_eoi := 0x400010\<rparr>) = Some (Running (r', s'))"
proof -
  let ?r = "sample_regs\<lparr>r_int_no := 44\<rparr>" and ?s = "sample_intr\<lparr>apic_eoi := 0x400010\<rparr>"
  define t where "t = kprint (''received interrupt: code %d'' @ nl) [ArgW 44] ?s"
  have "kmem t = kmem sample_sysc" "cr3 t = 0x502000" by (simp_all add: t_def sample_intr_fields)
  moreover have "word_at (kmem sample_sysc) 0xC0502004 = 0x504007" "word_at (kmem sample_sysc) 0xC0504000 = 0x700007"
    by (subst sample_sysc_word; simp add: sample_user_words_def)+
  ultimately have "load32 (kmem t) 0xC0502004 = 0x504007" "load32 (kmem t) 0xC0504000 = 0x700007" "cr3 t = 0x502000"
    by (simp_all add: word_at_def)
  then have "vstore32 0x400010 0 t \<noteq> None"
    by (simp add: vstore32_def load32_other sample_vstore [of _ 0, simplified] sample_vstore [of _ 1, simplified]
        sample_vstore [of _ 2, simplified] sample_vstore [of _ 3, simplified])
  moreover have "isr_handler 0 ?r ?s = Some (Running (?r, t))"
    by (simp add: isr_handler_def t_def sample_intr_def sample_sysc_def sample_procs_def procs.defs sysc.defs intr.defs sample_regs_def)
  moreover have "apic_eoi t = 0x400010"
    by (simp add: t_def intr_fields_of_more(3) [OF kprint_procs_more])
  ultimately show ?thesis by (auto simp: irq_handler_def Let_def)
qed

section \<open>Properties\<close>

text \<open>
  C17: with the timer programmed to a frequency \<open>f\<close>, every process that is running in user mode gets
  the processor within \<open>63 * 2 * f\<close> timer interrupts that interrupt user mode, that is within 63
  time slices of two seconds, as long as the 64-bit tick counter does not wrap.
\<close>

theorem timer_fair:
  assumes "sched_inv s" "q \<in> live_procs s" "eligible q s" "pit_cur_frequency s \<noteq> 0"
    and "\<forall>r\<in>set rs. user_mode r" "length rs = 63 * (2 * unat (pit_cur_frequency s))"
    and "unat (tick s) + length rs < 2 ^ 64"
  shows "\<exists>k\<le>length rs. current_proc (timer_run (take k rs) s) = q"
proof -
  obtain i where i: "i < MAXPROC" "proc_list s ! i = current_proc s" using assms(1) by (rule current_slot)
  obtain j where j: "j < MAXPROC" "proc_list s ! j = q"
    using assms(1,2) by (auto simp: live_procs_def sched_inv_def in_set_conv_nth)
  have L: "slice_ticks s \<noteq> 0" using assms(4) by (simp add: slice_ticks_def unat_eq_0)
  have "length rs = 63 * slice_ticks s" using assms(6) by (simp add: slice_ticks_def)
  then have "(unat (tick s) + length rs) div slice_ticks s - unat (tick s) div slice_ticks s = 63"
    using L by simp
  moreover have "ring_distance i j \<le> 63" if "i \<noteq> j"
    using that i(1) j(1) by (auto simp: ring_distance_def MAXPROC_def)
  ultimately show ?thesis using timer_scheduled [OF assms(1,5) L assms(7) i j(1)] assms(3) j(2) by auto
qed

theorem timer_fair_witness:
  "\<exists>k\<le>126. current_proc (timer_run (take k (replicate 126 sample_regs)) sample_intr) = of_nat (sample_proc 3)"
proof -
  have "(of_nat (sample_proc 3) :: u32) \<in> live_procs sample_intr"
    using sample_live by (auto simp: live_procs_def sample_intr_fields simp del: of_nat_add)
  from timer_fair [OF sample_intr_inv this sample_intr_eligible, of "replicate 126 sample_regs"] show ?thesis
    by (simp add: sample_intr_fields user_mode_def sample_regs_def)
qed

text \<open>
  C20: whatever sequence of interrupt handlers runs, from whatever mode and with whatever frames,
  the loaded address space and the ring 0 stack remain those of the current process, and the
  process table remains well formed.
\<close>

theorem handlers_keep_coherent:
  assumes "handler_step\<^sup>*\<^sup>* s s'" "coherent s"
  shows "coherent s'"
  using assms by (induction rule: rtranclp_induct) (auto intro: handler_step_coherent)

theorem handlers_keep_coherent_witness:
  "handler_step\<^sup>*\<^sup>* sample_intr (snd (pit_handler sample_regs sample_intr)) \<and>
   coherent (snd (pit_handler sample_regs sample_intr))"
proof -
  have "call_handler 0 Pit_handler sample_regs sample_intr =
      Some (Running (fst (pit_handler sample_regs sample_intr), snd (pit_handler sample_regs sample_intr)))"
    by (simp add: call_handler_def)
  then have "handler_step\<^sup>*\<^sup>* sample_intr (snd (pit_handler sample_regs sample_intr))"
    by (intro r_into_rtranclp handler_step.handler)
  from this handlers_keep_coherent [OF this sample_coherent] show ?thesis ..
qed

text \<open>
  C23: a hardware interrupt whose handler returns is acknowledged exactly once, at the second
  interrupt controller first if it came from there and always at the first one, even when the
  handler has switched to another process and so returns another frame; nothing else is sent to
  any port.
\<close>

theorem irq_acknowledged:
  assumes "irq_handler addr r s = Some (Running (r', s'))"
  shows "port_log s' = port_log s @ (if r_int_no r \<ge> 40 then [(0xA0, 0x20)] else []) @ [(0x20, 0x20)]"
proof -
  obtain r1 s1 s2 where h: "isr_handler addr r s = Some (Running (r1, s1))" "vstore32 (apic_eoi s1) 0 s1 = Some s2"
    "s' = outb 0x20 0x20 (if r_int_no r1 \<ge> 40 then outb 0xA0 0x20 s2 else s2)"
    using assms by (auto simp: irq_handler_def Let_def split: Option.bind_splits outcome.splits prod.splits)
  then show ?thesis using isr_handler_log [OF h(1)] vstore32_log [OF h(2)] by (simp add: outb_def)
qed

theorem irq_acknowledged_witness:
  "\<exists>r' s'. irq_handler 0 (sample_regs\<lparr>r_int_no := 44\<rparr>) (sample_intr\<lparr>apic_eoi := 0x400010\<rparr>) = Some (Running (r', s')) \<and>
    port_log s' = [(0xA0, 0x20), (0x20, 0x20)]"
proof -
  let ?r = "sample_regs\<lparr>r_int_no := 44\<rparr>" and ?s = "sample_intr\<lparr>apic_eoi := 0x400010\<rparr>"
  obtain r' s' where "irq_handler 0 ?r ?s = Some (Running (r', s'))" using sample_irq by blast
  with irq_acknowledged [OF this] show ?thesis
    by (intro exI conjI) (auto simp: sample_regs_def sample_intr_def sample_sysc_def sample_procs_def procs.defs sysc.defs intr.defs)
qed

end
