(* ===== verification/Acpi.thy ===== *)
theory Acpi
  imports Interrupts
begin

text \<open>
  Discovery of the ACPI tables: \<^verbatim>\<open>src/kernel/kernel/core/acpi.c\<close>. The firmware's tables are read
  at addresses that \<open>kmap\<close> returns, so every access goes through the processor's translation and a
  page fault is \<open>None\<close>.
\<close>

section \<open>State and memory access\<close>

record acpi = intr +
  acpi_version :: u32
  rsdp_ptr :: u32
  rsdp :: u32
  rsdt_ptr :: u32
  rsdt :: u32
  xsdt_ptr :: u32
  xsdt :: u32
  madt_ptr :: u32
  madt :: u32
  hpet_ptr :: u32
  hpet :: u32
  fadt_ptr :: u32
  fadt :: u32

definition vload16 :: "'a vmm_scheme \<Rightarrow> u32 \<Rightarrow> u16 option" where
  "vload16 s a =
     do {
       b0 \<leftarrow> vload s a;
       b1 \<leftarrow> vload s (a + 1);
       Some (ucast b0 OR push_bit 8 (ucast b1))
     }"

definition vload32 :: "'a vmm_scheme \<Rightarrow> u32 \<Rightarrow> u32 option" where
  "vload32 s a =
     do {
       lo \<leftarrow> vload16 s a;
       hi \<leftarrow> vload16 s (a + 2);
       Some (ucast lo OR push_bit 16 (ucast hi))
     }"

fun vmemset :: "u32 \<Rightarrow> u8 \<Rightarrow> nat list \<Rightarrow> 'a vmm_scheme \<Rightarrow> 'a vmm_scheme option" where
  "vmemset p v [] s = Some s"
| "vmemset p v (i # is) s =
     do {
       s \<leftarrow> vstore (p + of_nat i) v s;
       vmemset p v is s
     }"

text \<open>\<^verbatim>\<open>strncmp\<close> of memory at \<open>a\<close> with a string literal, for the length of the literal.\<close>

fun vstrncmp :: "'a vmm_scheme \<Rightarrow> u32 \<Rightarrow> u8 list \<Rightarrow> int option" where
  "vstrncmp s a [] = Some 0"
| "vstrncmp s a (c # cs) =
     do {
       x \<leftarrow> vload s a;
       if x < c then Some (- 1) else if c < x then Some 1 else vstrncmp s (a + 1) cs
     }"

definition sig :: "string \<Rightarrow> u8 list" where "sig str = map of_char str"

definition RSDP_SIG :: "u8 list" where "RSDP_SIG = sig ''RSD PTR ''"

definition MADT_SIG :: "u8 list" where "MADT_SIG = sig ''APIC''"

definition HPET_SIG :: "u8 list" where "HPET_SIG = sig ''HPET''"

definition FADT_SIG :: "u8 list" where "FADT_SIG = sig ''FACP''"

text \<open>Offsets in the packed structures.\<close>

definition rsdp_revision :: u32 where "rsdp_revision = 15"

definition rsdp_rsdt_addr :: u32 where "rsdp_rsdt_addr = 16"

definition sizeof_rsdp :: nat where "sizeof_rsdp = 36"

definition sdt_length :: u32 where "sdt_length = 4"

definition sizeof_sdt_header :: u32 where "sizeof_sdt_header = 36"

text \<open>The members of the packed \<^verbatim>\<open>struct fadt\<close> in their order.\<close>

definition sizeof_fadt :: u32 where
  "sizeof_fadt = 36 + 2 * 4 + 2 * 1 + 2 + 4 + 4 * 1 + 8 * 4 + 8 * 1 + 4 * 2 + 5 * 1 + 2 + 1 + 4 + 12 + 1 + 3 + 2 * 8 + 8 * 12"

section \<open>Checksums\<close>

fun vsum :: "'a vmm_scheme \<Rightarrow> u32 \<Rightarrow> nat \<Rightarrow> u8 \<Rightarrow> u8 option" where
  "vsum s byte 0 acc = Some acc"
| "vsum s byte (Suc n) acc =
     do {
       b \<leftarrow> vload s byte;
       vsum s (byte + 1) n (acc + b)
     }"

definition rsdp_checksum :: "'a acpi_scheme \<Rightarrow> bool option" where
  "rsdp_checksum s =
     do {
       acc \<leftarrow> vsum s (rsdp_ptr s) (if acpi_version s < 2 then 20 else 36) 0;
       Some (acc = 0)
     }"

text \<open>The counter has 8 bits and the length 32: the loop need not end.\<close>

partial_function (option) sdt_sum :: "'a vmm_scheme \<Rightarrow> u32 \<Rightarrow> u8 \<Rightarrow> u32 \<Rightarrow> u32 \<Rightarrow> u32 option" where
  "sdt_sum s header i acc byte =
     do {
       len \<leftarrow> vload32 s (header + sdt_length);
       if ucast i < len
       then do {
         b \<leftarrow> vload s byte;
         sdt_sum s header (i + 1) (acc + ucast b) (byte + 1)
       }
       else Some acc
     }"

definition acpi_sdt_checksum :: "'a vmm_scheme \<Rightarrow> u32 \<Rightarrow> bool option" where
  "acpi_sdt_checksum s header =
     do {
       acc \<leftarrow> sdt_sum s header 0 0 header;
       Some (acc mod 0x100 = 0)
     }"

section \<open>The root pointer\<close>

fun rsdp_search :: "u32 list \<Rightarrow> 'a acpi_scheme \<Rightarrow> 'a acpi_scheme option" where
  "rsdp_search [] s = Some s"
| "rsdp_search (ptr # ptrs) s =
     do {
       c \<leftarrow> vstrncmp s ptr RSDP_SIG;
       if c = 0
       then do {
         let s = s\<lparr>rsdp_ptr := ptr\<rparr>;
         (p, s) \<leftarrow> kmalloc (of_nat sizeof_rsdp) s;
         let s = s\<lparr>rsdp := p\<rparr>;
         s \<leftarrow> vmemcpy (rsdp s) (rsdp_ptr s) [0..<sizeof_rsdp] s;
         revision \<leftarrow> vload s (rsdp s + rsdp_revision);
         let s = s\<lparr>acpi_version := ucast revision\<rparr>;
         ok \<leftarrow> rsdp_checksum s;
         if ok then Some s
         else do {
           let s = s\<lparr>rsdp_ptr := 0\<rparr>;
           s \<leftarrow> vmemset (rsdp s) 0 [0..<sizeof_rsdp] s;
           rsdp_search ptrs s
         }
       }
       else rsdp_search ptrs s
     }"

text \<open>The addresses below 0xC00FFFFF in steps of 16.\<close>

definition find_rsdp :: "'a acpi_scheme \<Rightarrow> 'a acpi_scheme option" where
  "find_rsdp s = rsdp_search (map (\<lambda>i. 0xC00E0000 + 16 * of_nat i) [0..<0x2000]) s"

section \<open>Tables\<close>

text \<open>
  The end of the functions that load a table: copy from \<open>src\<close> to \<open>dst\<close>, check both, unmap the
  source.
\<close>

definition copy_table ::
    "u32 \<Rightarrow> u32 \<Rightarrow> string \<Rightarrow> string \<Rightarrow> 'a acpi_scheme \<Rightarrow> 'a acpi_scheme outcome option" where
  "copy_table dst src src_failed dst_failed s =
     do {
       len \<leftarrow> vload32 s (src + sdt_length);
       s \<leftarrow> vmemcpy dst src [0..<unat len] s;
       ok \<leftarrow> acpi_sdt_checksum s src;
       if \<not> ok then Some (panic src_failed s)
       else do {
         ok \<leftarrow> acpi_sdt_checksum s dst;
         if \<not> ok then Some (panic dst_failed s)
         else Some (Running (kunmap src s))
       }
     }"

definition find_rsdt_xsdt :: "'a acpi_scheme \<Rightarrow> 'a acpi_scheme outcome option" where
  "find_rsdt_xsdt s =
     (if acpi_version s < 2
      then do {
        addr \<leftarrow> vload32 s (rsdp s + rsdp_rsdt_addr);
        let (p, s) = kmap addr s;
        let s = s\<lparr>rsdt_ptr := p\<rparr>;
        len \<leftarrow> vload32 s (rsdt_ptr s + sdt_length);
        (p, s) \<leftarrow> kmalloc len s;
        let s = s\<lparr>rsdt := p\<rparr>;
        copy_table (rsdt s) (rsdt_ptr s) ''rsdt src checksum failed'' ''rsdt dst checksum failed'' s
      }
      else Some (panic ''xsdt really shouldnt exist'' s))"

text \<open>The search in a list of table pointers at \<open>ptrs\<close>, each \<open>width\<close> bytes wide.\<close>

fun table_search ::
    "u32 \<Rightarrow> u32 \<Rightarrow> u8 list \<Rightarrow> nat list \<Rightarrow> 'a acpi_scheme \<Rightarrow> (u32 \<times> 'a acpi_scheme) option" where
  "table_search ptrs width sg [] s = Some (0, s)"
| "table_search ptrs width sg (i # is) s =
     do {
       addr \<leftarrow> vload32 s (ptrs + width * of_nat i);
       let (entry, s) = kmap addr s;
       c \<leftarrow> vstrncmp s entry sg;
       if c = 0 then Some (entry, s)
       else table_search ptrs width sg is (kunmap entry s)
     }"

definition find_table :: "u8 list \<Rightarrow> 'a acpi_scheme \<Rightarrow> (u32 \<times> 'a acpi_scheme) option" where
  "find_table sg s =
     (let (table, width) = if acpi_version s < 2 then (rsdt s, 4) else (xsdt s, 8)
      in do {
        len \<leftarrow> vload32 s (table + sdt_length);
        let entries = (len - sizeof_sdt_header) div width;
        table_search (table + sizeof_sdt_header) width sg [0..<unat entries] s
      })"

definition find_madt :: "'a acpi_scheme \<Rightarrow> 'a acpi_scheme outcome option" where
  "find_madt s =
     do {
       (p, s) \<leftarrow> find_table MADT_SIG s;
       let s = s\<lparr>madt_ptr := p\<rparr>;
       len \<leftarrow> vload32 s (madt_ptr s + sdt_length);
       (p, s) \<leftarrow> kmalloc len s;
       let s = s\<lparr>madt := p\<rparr>;
       copy_table (madt s) (madt_ptr s) ''madt src checksum invalid'' ''madt dst checksum invalid'' s
     }"

definition find_hpet :: "'a acpi_scheme \<Rightarrow> 'a acpi_scheme outcome option" where
  "find_hpet s =
     do {
       (p, s) \<leftarrow> find_table HPET_SIG s;
       let s = s\<lparr>hpet_ptr := p\<rparr>;
       len \<leftarrow> vload32 s (hpet_ptr s + sdt_length);
       (p, s) \<leftarrow> kmalloc len s;
       let s = s\<lparr>hpet := p\<rparr>;
       copy_table (hpet s) (hpet_ptr s) ''hpet src checksum invalid'' ''hpet dst checksum invalid'' s
     }"

definition find_fadt :: "'a acpi_scheme \<Rightarrow> 'a acpi_scheme outcome option" where
  "find_fadt s =
     do {
       (p, s) \<leftarrow> find_table FADT_SIG s;
       let s = s\<lparr>fadt_ptr := p\<rparr>;
       (p, s) \<leftarrow> kmalloc sizeof_fadt s;
       let s = s\<lparr>fadt := p\<rparr>;
       copy_table (fadt s) (fadt_ptr s) ''fadt src checksum invalid'' ''fadt dst checksum invalid'' s
     }"

text \<open>A step of the boot sequence runs unless an earlier one has halted.\<close>

primrec and_then :: "'s outcome \<Rightarrow> ('s \<Rightarrow> 's outcome option) \<Rightarrow> 's outcome option" where
  "and_then (Running s) f = f s"
| "and_then (Halted s) f = Some (Halted s)"

definition init_acpi :: "'a acpi_scheme \<Rightarrow> 'a acpi_scheme outcome option" where
  "init_acpi s =
     do {
       s \<leftarrow> find_rsdp s;
       r \<leftarrow> find_rsdt_xsdt s;
       r \<leftarrow> and_then r find_madt;
       r \<leftarrow> and_then r find_hpet;
       r \<leftarrow> and_then r find_fadt;
       and_then r (\<lambda>s. Some (Running (gdb_stop s)))
     }"

definition get_acpi_version :: "'a acpi_scheme \<Rightarrow> u32" where "get_acpi_version s = acpi_version s"

definition get_rsdp :: "'a acpi_scheme \<Rightarrow> u32" where "get_rsdp s = rsdp s"

definition get_rsdt :: "'a acpi_scheme \<Rightarrow> u32" where "get_rsdt s = rsdt s"

definition get_xsdt :: "'a acpi_scheme \<Rightarrow> u32" where "get_xsdt s = xsdt s"

definition get_madt :: "'a acpi_scheme \<Rightarrow> u32" where "get_madt s = madt s"

definition get_hpet :: "'a acpi_scheme \<Rightarrow> u32" where "get_hpet s = hpet s"

definition get_fadt :: "'a acpi_scheme \<Rightarrow> u32" where "get_fadt s = fadt s"

section \<open>Lemmas on reads\<close>

text \<open>The bytes \<open>bs\<close> can be read at \<open>a\<close>.\<close>

definition vbytes :: "'a vmm_scheme \<Rightarrow> u32 \<Rightarrow> u8 list \<Rightarrow> bool" where
  "vbytes s a bs \<longleftrightarrow> (\<forall>i<length bs. vload s (a + of_nat i) = Some (bs ! i))"

lemma vbytes_nth: "vbytes s a bs \<Longrightarrow> i < length bs \<Longrightarrow> vload s (a + of_nat i) = Some (bs ! i)"
  by (simp add: vbytes_def)

lemma vbytes_append: "vbytes s a (bs @ cs) \<longleftrightarrow> vbytes s a bs \<and> vbytes s (a + of_nat (length bs)) cs"
proof
  assume l: "vbytes s a (bs @ cs)"
  have "vload s (a + of_nat i) = Some (bs ! i)" if "i < length bs" for i
    using vbytes_nth [OF l, of i] that by (simp add: nth_append)
  moreover have "vload s (a + of_nat (length bs) + of_nat i) = Some (cs ! i)" if "i < length cs" for i
    using vbytes_nth [OF l, of "length bs + i"] that by (simp add: add.assoc)
  ultimately show "vbytes s a bs \<and> vbytes s (a + of_nat (length bs)) cs" by (simp add: vbytes_def)
next
  assume r: "vbytes s a bs \<and> vbytes s (a + of_nat (length bs)) cs"
  show "vbytes s a (bs @ cs)" unfolding vbytes_def
  proof (intro allI impI)
    fix i assume i: "i < length (bs @ cs)"
    show "vload s (a + of_nat i) = Some ((bs @ cs) ! i)"
    proof (cases "i < length bs")
      case True
      then show ?thesis using r by (simp add: vbytes_def nth_append)
    next
      case False
      then have "a + of_nat i = a + of_nat (length bs) + of_nat (i - length bs)" by (simp add: of_nat_diff)
      moreover have "vload s (a + of_nat (length bs) + of_nat (i - length bs)) = Some (cs ! (i - length bs))"
        using r i False by (intro vbytes_nth) auto
      ultimately show ?thesis using False by (simp add: nth_append)
    qed
  qed
qed

lemma vbytes_Nil [simp]: "vbytes s a []"
  by (simp add: vbytes_def)

lemma vbytes_Cons [simp]: "vbytes s a (b # bs) \<longleftrightarrow> vload s a = Some b \<and> vbytes s (a + 1) bs"
  using vbytes_append [of s a "[b]" bs] by (simp add: vbytes_def [of _ _ "[b]"])

text \<open>Little-endian words.\<close>

definition le16 :: "u8 list \<Rightarrow> u16" where
  "le16 bs = ucast (bs ! 0) OR push_bit 8 (ucast (bs ! 1))"

definition le32 :: "u8 list \<Rightarrow> u32" where
  "le32 bs = ucast (le16 bs) OR push_bit 16 (ucast (le16 (drop 2 bs)))"

lemma vload16_bytes:
  assumes "vbytes s a bs" "i + 1 < length bs"
  shows "vload16 s (a + of_nat i) = Some (le16 (drop i bs))"
  using vbytes_nth [OF assms(1), of i] vbytes_nth [OF assms(1), of "Suc i"] assms(2)
  by (simp add: vload16_def le16_def ac_simps)

lemma vload32_bytes:
  assumes "vbytes s a bs" "i + 3 < length bs"
  shows "vload32 s (a + of_nat i) = Some (le32 (drop i bs))"
  using vload16_bytes [OF assms(1), of i] vload16_bytes [OF assms(1), of "i + 2"] assms(2)
  by (simp add: vload32_def le32_def ac_simps)

lemma vload_cong: "kmem s' = kmem s \<Longrightarrow> cr3 s' = cr3 s \<Longrightarrow> vload s' = vload s"
  by (rule ext) (simp add: vload_def translate_def)

section \<open>The checksum of a table\<close>

lemma unat_ucast_u8: "unat (ucast (b :: u8) :: u32) = unat b"
  using unsigned_less [of b, where 'a = nat] by (simp add: unsigned_ucast_eq take_bit_nat_eq_self)

lemma ucast_counter: "i < 256 \<Longrightarrow> (ucast (of_nat i :: u8) :: u32) = of_nat i"
  by (simp add: word_unat_eq_iff unat_ucast_u8 unat_of_nat)

lemma sdt_sum_short:
  assumes "vbytes s header bs" "vload32 s (header + sdt_length) = Some (of_nat (length bs))" "length bs < 256" "i \<le> length bs"
  shows "sdt_sum s header (of_nat i) acc (header + of_nat i) = Some (acc + of_nat (sum_list (map unat (drop i bs))))"
  using assms(4)
proof (induction "length bs - i" arbitrary: i acc)
  case 0
  then have "i = length bs" by simp
  then show ?case using assms(2,3) by (subst sdt_sum.simps) (simp add: ucast_counter)
next
  case (Suc n)
  then have i: "i < length bs" by simp
  have lt: "(ucast (of_nat i :: u8) :: u32) < of_nat (length bs)"
    using i assms(3) by (simp add: ucast_counter word_less_nat_alt unat_of_nat_u32)
  have "sdt_sum s header (of_nat i) acc (header + of_nat i) =
      sdt_sum s header (of_nat (Suc i)) (acc + ucast (bs ! i)) (header + of_nat (Suc i))"
    using lt vbytes_nth [OF assms(1) i] assms(2) by (subst sdt_sum.simps) (simp add: ac_simps)
  also have "\<dots> = Some (acc + ucast (bs ! i) + of_nat (sum_list (map unat (drop (Suc i) bs))))"
    using Suc i by (intro Suc.hyps(1)) auto
  also have "ucast (bs ! i) = (of_nat (unat (bs ! i)) :: u32)" by (simp add: word_unat_eq_iff unat_ucast_u8)
  finally show ?case using Cons_nth_drop_Suc [OF i, symmetric] by (simp add: ac_simps)
qed

lemma sdt_sum_long:
  assumes "vload32 s (header + sdt_length) = Some len" "256 \<le> unat len"
  shows "sdt_sum s header i acc byte = None"
proof -
  have "vload32 s' (header' + sdt_length) \<noteq> Some len" if "sdt_sum s' header' i acc byte = Some r" for s' :: "'a vmm_scheme" and header' i acc byte r
  proof (rule sdt_sum.raw_induct [OF _ that], goal_cases)
    case (1 loop s' header' i acc byte r)
    show ?case
    proof
      assume l: "vload32 s' (header' + sdt_length) = Some len"
      have "unat (ucast i :: u32) < 256" using unsigned_less [of i, where 'a = nat] by (simp add: unat_ucast_u8)
      then have "ucast i < len" using assms(2) by (simp add: word_less_nat_alt)
      with 1 l show False by (auto simp: bind_eq_Some_conv)
    qed
  qed
  with assms(1) show ?thesis by (metis not_None_eq)
qed

section \<open>Properties\<close>

text \<open>
  A table \<open>bs\<close> of at most a page at physical address 0x3000, mapped at 0x400000 by a directory at
  0x1000 and a page table at 0x2000.
\<close>

definition table_mem :: "u8 list \<Rightarrow> mem" where
  "table_mem bs a =
     (if a = 0xC0001004 \<or> a = 0xC0002000 then 0x03 else if a = 0xC0001005 then 0x20 else if a = 0xC0002001 then 0x30
      else if unat (a - 0xC0003000) < length bs then bs ! unat (a - 0xC0003000) else 0)"

lemma table_mem_bytes:
  assumes "kmem s = table_mem bs" "cr3 s = 0x1000" "length bs \<le> 4096"
  shows "vbytes s 0x400000 bs"
  unfolding vbytes_def
proof (intro allI impI)
  fix i assume i: "i < length bs"
  have "unat (of_nat i :: u32) = i" using i assms(3) by (simp add: unat_of_nat_u32)
  then have u: "unat (0x400000 + of_nat i :: u32) = 0x400000 + i" using i assms(3) by (simp add: unat_word_ariths)
  have "(4194304 + i) mod 4096 = i" using mod_mult_self2 [of i 4096 1024] i assms(3) by (simp add: add.commute)
  then have x: "PAGE_DIR_IDX (0x400000 + of_nat i) = 1" "PAGE_TBL_IDX (0x400000 + of_nat i) = 0"
    "(0x400000 + of_nat i :: u32) mod 0x1000 = of_nat i"
    using i assms(3) by (simp_all add: PAGE_DIR_IDX_def PAGE_TBL_IDX_def word_unat_eq_iff unat_div unat_mod u unat_of_nat_u32)
  have "load32 (table_mem bs) 0xC0001004 = 0x2003" "load32 (table_mem bs) 0xC0002000 = 0x3003"
    using assms(3) by (simp_all add: load32_def table_mem_def)
  then have "translate s (0x400000 + of_nat i) = Some (0x3000 + of_nat i)"
    by (simp add: translate_def walk_def x phys_word_def KP2V_def assms(1,2) entry_present_def entry_frame_def)
  moreover have "table_mem bs (0xC0003000 + of_nat i) = bs ! i"
    using i assms(3) \<open>unat (of_nat i :: u32) = i\<close>
    by (auto simp: table_mem_def word_unat_eq_iff unat_word_ariths)
  ultimately show "vload s (0x400000 + of_nat i) = Some (bs ! i)"
    by (simp add: vload_def assms(1) KP2V_def add.assoc [symmetric])
qed

text \<open>
  C31: For a table that can be read, with \<open>length bs\<close> in its header, \<^verbatim>\<open>acpi_sdt_checksum\<close> says whether
  the bytes add up to 0 modulo 256, if there are at most 255 of them. For a longer table it
  never returns, since its counter has 8 bits.
\<close>

theorem acpi_sdt_checksum_exact:
  assumes "vbytes s header bs" "vload32 s (header + sdt_length) = Some (of_nat (length bs))" "length bs < 2 ^ 32"
  shows "acpi_sdt_checksum s header = (if length bs < 256 then Some (256 dvd sum_list (map unat bs)) else None)"
proof (cases "length bs < 256")
  case True
  have "(of_nat n :: u32) mod 0x100 = 0 \<longleftrightarrow> 256 dvd n" for n
    by (simp add: word_unat_eq_iff unat_mod unat_of_nat mod_mod_cancel mod_eq_0_iff_dvd)
  then show ?thesis using sdt_sum_short [OF assms(1,2) True, of 0 0] True by (simp add: acpi_sdt_checksum_def)
next
  case False
  then have "sdt_sum s header 0 0 header = None" using assms(3) by (intro sdt_sum_long [OF assms(2)]) (simp add: unat_of_nat_u32)
  with False show ?thesis by (simp add: acpi_sdt_checksum_def)
qed

definition sample_sdt :: "u8 list \<Rightarrow> u8 list" where
  "sample_sdt bs = replicate 4 0 @ [of_nat (length bs + 8), of_nat ((length bs + 8) div 256), 0, 0] @ bs"

definition sample_firmware :: "u8 list \<Rightarrow> sysc" where
  "sample_firmware bs = sample_sysc\<lparr>kmem := table_mem bs, cr3 := 0x1000\<rparr>"

theorem acpi_sdt_checksum_exact_witness:
  "acpi_sdt_checksum (sample_firmware (sample_sdt (220 # replicate 27 0))) 0x400000 = Some True \<and>
   acpi_sdt_checksum (sample_firmware (sample_sdt (replicate 292 0))) 0x400000 = None"
proof -
  have v: "vbytes (sample_firmware bs) 0x400000 bs" if "length bs \<le> 4096" for bs
    using that by (intro table_mem_bytes) (simp_all add: sample_firmware_def)
  have "vbytes (sample_firmware (sample_sdt (220 # replicate 27 0))) 0x400000 (sample_sdt (220 # replicate 27 0))"
    "vbytes (sample_firmware (sample_sdt (replicate 292 0))) 0x400000 (sample_sdt (replicate 292 0))"
    by (intro v; simp add: sample_sdt_def)+
  note b = this
  have "vload32 (sample_firmware (sample_sdt (220 # replicate 27 0))) (0x400000 + sdt_length) = Some (of_nat (length (sample_sdt (220 # replicate 27 0))))"
    using vload32_bytes [OF b(1), of 4] by (simp add: sdt_length_def sample_sdt_def le32_def le16_def)
  from acpi_sdt_checksum_exact [OF b(1) this] have
    "acpi_sdt_checksum (sample_firmware (sample_sdt (220 # replicate 27 0))) 0x400000 = Some True"
    by (simp add: sample_sdt_def sum_list_replicate)
  moreover have "vload32 (sample_firmware (sample_sdt (replicate 292 0))) (0x400000 + sdt_length) = Some (of_nat (length (sample_sdt (replicate 292 0))))"
    using vload32_bytes [OF b(2), of 4] by (simp add: sdt_length_def sample_sdt_def le32_def le16_def)
  from acpi_sdt_checksum_exact [OF b(2) this] have
    "acpi_sdt_checksum (sample_firmware (sample_sdt (replicate 292 0))) 0x400000 = None"
    by (simp add: sample_sdt_def)
  ultimately show ?thesis by simp
qed

end
