(* ===== verification/Madt.thy ===== *)
theory Madt
  imports Acpi
begin

text \<open>
  The records of the APIC table: \<^verbatim>\<open>src/kernel/kernel/core/madt.c\<close>. The loop over the records stops
  only when the pointer passes the end of the table, so it is partial: \<open>None\<close> is a loop that does
  not end, or a page fault.
\<close>

section \<open>State\<close>

record ioapic_iso =
  iso_type :: u8
  iso_length :: u8
  iso_bus_src :: u8
  iso_irq_src :: u8
  iso_gsi :: u32
  iso_flags :: u16

record madt_info = acpi +
  num_procs :: u8
  lapic_ids :: "u8 \<Rightarrow> u8"
  num_iso_entries :: u8
  iso_entries :: "u8 \<Rightarrow> ioapic_iso"
  lapic_addr :: u32
  ioapic_addr :: u32

definition LAPIC :: u32 where "LAPIC = 0"
definition IOAPIC :: u32 where "IOAPIC = 1"
definition IOAPIC_ISO :: u32 where "IOAPIC_ISO = 2"
definition NMI_SRC :: u32 where "NMI_SRC = 3"
definition LAPIC_NMI :: u32 where "LAPIC_NMI = 4"
definition LAPIC_ADDR_OVR :: u32 where "LAPIC_ADDR_OVR = 5"

definition madt_lapic_addr :: u32 where "madt_lapic_addr = 36"

definition madt_records :: u32 where "madt_records = 44"

section \<open>Records\<close>

definition parse_lapic :: "u32 \<Rightarrow> 'a madt_info_scheme \<Rightarrow> 'a madt_info_scheme option" where
  "parse_lapic ptr s =
     do {
       acpi_id \<leftarrow> vload s (ptr + 2);
       apic_id \<leftarrow> vload s (ptr + 3);
       flags \<leftarrow> vload32 s (ptr + 4);
       let enabled = (if flags AND 1 \<noteq> 0 then ''enabled'' else ''disabled'');
       let online = (if flags AND 2 \<noteq> 0 then ''online'' else ''offline'');
       let str = utoa flags 2;
       let s = kprint (''LAPIC: acpi id %d, apic id %d, flags %s, %s, %s'' @ nl)
                 [ArgW (ucast acpi_id), ArgW (ucast apic_id), ArgS str, ArgS enabled, ArgS online] s;
       let s = s\<lparr>lapic_ids := (lapic_ids s)(num_procs s := apic_id)\<rparr>;
       Some (s\<lparr>num_procs := num_procs s + 1\<rparr>)
     }"

definition parse_ioapic :: "u32 \<Rightarrow> 'a madt_info_scheme \<Rightarrow> 'a madt_info_scheme option" where
  "parse_ioapic ptr s =
     do {
       id \<leftarrow> vload s (ptr + 2);
       addr \<leftarrow> vload32 s (ptr + 4);
       gsi_base \<leftarrow> vload32 s (ptr + 8);
       let s = kprint (''IOAPIC: id %d, addr 0x%x, gsi base %d'' @ nl) [ArgW (ucast id), ArgW addr, ArgW gsi_base] s;
       Some (if ioapic_addr s = 0 then s\<lparr>ioapic_addr := addr\<rparr> else s)
     }"

definition parse_ioapic_iso :: "u32 \<Rightarrow> 'a madt_info_scheme \<Rightarrow> 'a madt_info_scheme option" where
  "parse_ioapic_iso ptr s =
     do {
       type \<leftarrow> vload s ptr;
       len \<leftarrow> vload s (ptr + 1);
       bus_src \<leftarrow> vload s (ptr + 2);
       irq_src \<leftarrow> vload s (ptr + 3);
       gsi \<leftarrow> vload32 s (ptr + 4);
       flags \<leftarrow> vload16 s (ptr + 8);
       let s = kprint (''IOAPIC ISO: irq %d, gsi %d, flags %x'' @ nl) [ArgW (ucast irq_src), ArgW gsi, ArgW (ucast flags)] s;
       let iso = \<lparr>iso_type = type, iso_length = len, iso_bus_src = bus_src, iso_irq_src = irq_src, iso_gsi = gsi, iso_flags = flags\<rparr>;
       let s = s\<lparr>iso_entries := (iso_entries s)(num_iso_entries s := iso)\<rparr>;
       Some (s\<lparr>num_iso_entries := num_iso_entries s + 1\<rparr>)
     }"

definition parse_nmi_src :: "u32 \<Rightarrow> 'a madt_info_scheme \<Rightarrow> 'a madt_info_scheme option" where
  "parse_nmi_src ptr s =
     do {
       nmi_src \<leftarrow> vload s (ptr + 2);
       flags \<leftarrow> vload16 s (ptr + 4);
       gsi \<leftarrow> vload32 s (ptr + 6);
       Some (kprint (''NMI SRC: irq %d, gsi %d, flags %x'' @ nl) [ArgW (ucast nmi_src), ArgW gsi, ArgW (ucast flags)] s)
     }"

definition parse_lapic_nmi :: "u32 \<Rightarrow> 'a madt_info_scheme \<Rightarrow> 'a madt_info_scheme option" where
  "parse_lapic_nmi ptr s =
     do {
       acpi_id \<leftarrow> vload s (ptr + 2);
       flags \<leftarrow> vload16 s (ptr + 3);
       lint \<leftarrow> vload s (ptr + 5);
       Some (kprint (''LAPIC NMI: acpi id %d, flags %x, lint %d'' @ nl) [ArgW (ucast acpi_id), ArgW (ucast flags), ArgW (ucast lint)] s)
     }"

definition parse_lapic_addr_ovr :: "u32 \<Rightarrow> 'a madt_info_scheme \<Rightarrow> 'a madt_info_scheme option" where
  "parse_lapic_addr_ovr ptr s =
     do {
       lo \<leftarrow> vload32 s (ptr + 4);
       hi \<leftarrow> vload32 s (ptr + 8);
       Some (kprint (''LAPIC ADDR OVR: addr 0x%llx'' @ nl) [ArgW lo, ArgW hi] s)
     }"

text \<open>The cases of the switch; every case ends by advancing the pointer over the record.\<close>

definition record_case :: "u32 \<Rightarrow> (u32 \<Rightarrow> 'a madt_info_scheme \<Rightarrow> 'a madt_info_scheme option) option" where
  "record_case type =
     (if type = LAPIC then Some parse_lapic
      else if type = IOAPIC then Some parse_ioapic
      else if type = IOAPIC_ISO then Some parse_ioapic_iso
      else if type = NMI_SRC then Some parse_nmi_src
      else if type = LAPIC_NMI then Some parse_lapic_nmi
      else if type = LAPIC_ADDR_OVR then Some parse_lapic_addr_ovr
      else None)"

definition parse_record :: "u32 \<Rightarrow> 'a madt_info_scheme \<Rightarrow> (u32 \<times> 'a madt_info_scheme) option" where
  "parse_record ptr s =
     do {
       type \<leftarrow> vload s ptr;
       case record_case (ucast type) of
         None \<Rightarrow> Some (ptr, s)
       | Some parse \<Rightarrow>
           do {
             s \<leftarrow> parse ptr s;
             len \<leftarrow> vload s (ptr + 1);
             Some (ptr + ucast len, s)
           }
     }"

partial_function (option) parse_records :: "u32 \<Rightarrow> u32 \<Rightarrow> 'a madt_info_scheme \<Rightarrow> 'a madt_info_scheme option" where
  "parse_records table ptr s =
     do {
       len \<leftarrow> vload32 s (table + sdt_length);
       if ptr < table + len
       then do {
         (ptr, s) \<leftarrow> parse_record ptr s;
         parse_records table ptr s
       }
       else Some s
     }"

definition parse_madt :: "'a madt_info_scheme \<Rightarrow> 'a madt_info_scheme option" where
  "parse_madt s =
     (let table = get_madt s;
          ptr = table + madt_records
      in do {
        addr \<leftarrow> vload32 s (table + madt_lapic_addr);
        let s = kprint (''LAPIC ADDRESS: %x'' @ nl) [ArgW addr] s;
        let s = s\<lparr>lapic_addr := addr\<rparr>;
        let s = kprint (''--------- MADT ENTRIES ---------'' @ nl) [] s;
        s \<leftarrow> parse_records table ptr s;
        Some (kprint (''--------- END MADT ENTRIES ---------'' @ nl) [] s)
      })"

definition get_num_procs :: "'a madt_info_scheme \<Rightarrow> u8" where "get_num_procs s = num_procs s"

definition get_lapic_ids :: "'a madt_info_scheme \<Rightarrow> u8 \<Rightarrow> u8" where "get_lapic_ids s = lapic_ids s"

definition get_lapic_addr :: "'a madt_info_scheme \<Rightarrow> u32" where "get_lapic_addr s = lapic_addr s"

definition get_ioapic_addr :: "'a madt_info_scheme \<Rightarrow> u32" where "get_ioapic_addr s = ioapic_addr s"

definition get_iso_entries :: "'a madt_info_scheme \<Rightarrow> u8 \<Rightarrow> ioapic_iso" where "get_iso_entries s = iso_entries s"

section \<open>The records a table holds\<close>

text \<open>A record is its type and the bytes behind its two header bytes.\<close>

type_synonym madt_rec = "u8 \<times> u8 list"

fun rec_bytes :: "madt_rec \<Rightarrow> u8 list" where
  "rec_bytes (t, b) = t # of_nat (length b + 2) # b"

definition known_type :: "u8 \<Rightarrow> bool" where
  "known_type t \<longleftrightarrow> t \<le> 5"

text \<open>A record is at least as long as its type asks for, and its length fits a byte.\<close>

fun rec_ok :: "madt_rec \<Rightarrow> bool" where
  "rec_ok (t, b) \<longleftrightarrow> length b + 2 < 256 \<and>
     (if t = 0 then 6 else if t = 1 \<or> t = 5 then 10 else if t = 2 \<or> t = 3 then 8 else if t = 4 then 4 else 0) \<le> length b"

definition iso_of :: "madt_rec \<Rightarrow> ioapic_iso" where
  "iso_of r = \<lparr>iso_type = rec_bytes r ! 0, iso_length = rec_bytes r ! 1, iso_bus_src = rec_bytes r ! 2,
     iso_irq_src = rec_bytes r ! 3, iso_gsi = le32 (drop 4 (rec_bytes r)), iso_flags = le16 (drop 8 (rec_bytes r))\<rparr>"

definition lapics_of :: "madt_rec list \<Rightarrow> u8 list" where
  "lapics_of rs = map (\<lambda>r. rec_bytes r ! 3) (filter (\<lambda>r. fst r = 0) rs)"

definition ioapics_of :: "madt_rec list \<Rightarrow> u32 list" where
  "ioapics_of rs = map (\<lambda>r. le32 (drop 4 (rec_bytes r))) (filter (\<lambda>r. fst r = 1) rs)"

definition isos_of :: "madt_rec list \<Rightarrow> ioapic_iso list" where
  "isos_of rs = map iso_of (filter (\<lambda>r. fst r = 2) rs)"

text \<open>
  What \<^verbatim>\<open>madt.h\<close> calls the discovered processors: the local APIC records whose enabled flag is set. A record of type 5
  gives the address of the local APIC, of which the kernel can use 32 bits, in place of the header's.
\<close>

definition lapic_enabled :: "madt_rec \<Rightarrow> bool" where
  "lapic_enabled r \<longleftrightarrow> bit (le32 (drop 4 (rec_bytes r))) 0"

definition enabled_lapics_of :: "madt_rec list \<Rightarrow> u8 list" where
  "enabled_lapics_of rs = map (\<lambda>r. rec_bytes r ! 3) (filter (\<lambda>r. fst r = 0 \<and> lapic_enabled r) rs)"

definition address_overrides_of :: "madt_rec list \<Rightarrow> u32 list" where
  "address_overrides_of rs = map (\<lambda>r. le32 (drop 4 (rec_bytes r))) (filter (\<lambda>r. fst r = 5) rs)"

section \<open>Reading a record\<close>

lemma vbytes_cong: "vload s' = vload s \<Longrightarrow> vbytes s' a bs = vbytes s a bs"
  by (simp add: vbytes_def)

lemma madt_fields_of_more:
  assumes "tty.more s = tty.more (s' :: 'a madt_info_scheme)"
  shows "num_procs s = num_procs s'" "lapic_ids s = lapic_ids s'" "num_iso_entries s = num_iso_entries s'"
    "iso_entries s = iso_entries s'" "lapic_addr s = lapic_addr s'" "ioapic_addr s = ioapic_addr s'" "cr3 s = cr3 s'"
    "madt s = madt s'"
  using assms by (cases s; cases s'; simp)+

lemmas kprint_madt [simp] = madt_fields_of_more [OF kprint_more]

text \<open>What the kernel keeps of the records.\<close>

definition info :: "'a madt_info_scheme \<Rightarrow> u8 \<times> (u8 \<Rightarrow> u8) \<times> u8 \<times> (u8 \<Rightarrow> ioapic_iso) \<times> u32" where
  "info s = (num_procs s, lapic_ids s, num_iso_entries s, iso_entries s, ioapic_addr s)"

definition note_record :: "madt_rec \<Rightarrow> u8 \<times> (u8 \<Rightarrow> u8) \<times> u8 \<times> (u8 \<Rightarrow> ioapic_iso) \<times> u32 \<Rightarrow>
    u8 \<times> (u8 \<Rightarrow> u8) \<times> u8 \<times> (u8 \<Rightarrow> ioapic_iso) \<times> u32" where
  "note_record r = (\<lambda>(n, ids, k, isos, io).
     if fst r = 0 then (n + 1, ids(n := rec_bytes r ! 3), k, isos, io)
     else if fst r = 1 then (n, ids, k, isos, if io = 0 then le32 (drop 4 (rec_bytes r)) else io)
     else if fst r = 2 then (n, ids, k + 1, isos(k := iso_of r), io)
     else (n, ids, k, isos, io))"

definition same_space :: "'a madt_info_scheme \<Rightarrow> 'a madt_info_scheme \<Rightarrow> bool" where
  "same_space s s' \<longleftrightarrow> kmem s' = kmem s \<and> cr3 s' = cr3 s \<and> lapic_addr s' = lapic_addr s"

lemma known_cases: "known_type t \<longleftrightarrow> t = 0 \<or> t = 1 \<or> t = 2 \<or> t = 3 \<or> t = 4 \<or> t = 5"
proof -
  have "unat t \<le> 5 \<longleftrightarrow> unat t \<in> {0, 1, 2, 3, 4, 5}" by auto
  then show ?thesis by (simp add: known_type_def word_le_nat_alt word_unat_eq_iff)
qed

lemmas record_types = LAPIC_def IOAPIC_def IOAPIC_ISO_def NMI_SRC_def LAPIC_NMI_def LAPIC_ADDR_OVR_def

lemmas kept = info_def note_record_def same_space_def iso_of_def

lemma parse_record_known:
  assumes "vbytes s ptr (rec_bytes (t, b))" "rec_ok (t, b)" "known_type t"
  shows "\<exists>s'. parse_record ptr s = Some (ptr + of_nat (length b + 2), s') \<and> info s' = note_record (t, b) (info s) \<and> same_space s s'"
proof -
  let ?bs = "rec_bytes (t, b)"
  have b: "vload s (ptr + of_nat i) = Some (?bs ! i)" if "n \<le> length b" "i < n + 2" for i n
    using assms(1) that by (intro vbytes_nth) simp_all
  have w: "vload16 s (ptr + of_nat i) = Some (le16 (drop i ?bs))" if "n \<le> length b" "i < n + 1" for i n
    using assms(1) that by (intro vload16_bytes) simp_all
  have d: "vload32 s (ptr + of_nat i) = Some (le32 (drop i ?bs))" if "n \<le> length b" "Suc i < n" for i n
    using assms(1) that by (intro vload32_bytes) simp_all
  have "\<exists>f s'. record_case (ucast t) = Some f \<and> f ptr s = Some s' \<and> info s' = note_record (t, b) (info s) \<and> same_space s s'"
    using assms(3) unfolding known_cases
  proof (elim disjE)
    assume t: "t = 0"
    then have l: "6 \<le> length b" using assms(2) by simp
    show ?thesis using b [OF l, of 2] b [OF l, of 3] d [OF l, of 4]
      by (auto simp: t record_case_def record_types parse_lapic_def Let_def kept)
  next
    assume t: "t = 1"
    then have l: "10 \<le> length b" using assms(2) by simp
    show ?thesis using b [OF l, of 2] d [OF l, of 4] d [OF l, of 8]
      by (auto simp: t record_case_def record_types parse_ioapic_def Let_def kept)
  next
    assume t: "t = 2"
    then have l: "8 \<le> length b" using assms(2) by simp
    show ?thesis using b [OF l, of 0] b [OF l, of 1] b [OF l, of 2] b [OF l, of 3] d [OF l, of 4] w [OF l, of 8]
      by (auto simp: t record_case_def record_types parse_ioapic_iso_def Let_def kept)
  next
    assume t: "t = 3"
    then have l: "8 \<le> length b" using assms(2) by simp
    show ?thesis using b [OF l, of 2] w [OF l, of 4] d [OF l, of 6]
      by (auto simp: t record_case_def record_types parse_nmi_src_def Let_def kept)
  next
    assume t: "t = 4"
    then have l: "4 \<le> length b" using assms(2) by simp
    show ?thesis using b [OF l, of 2] w [OF l, of 3] b [OF l, of 5]
      by (auto simp: t record_case_def record_types parse_lapic_nmi_def Let_def kept)
  next
    assume t: "t = 5"
    then have l: "10 \<le> length b" using assms(2) by simp
    show ?thesis using d [OF l, of 4] d [OF l, of 8]
      by (auto simp: t record_case_def record_types parse_lapic_addr_ovr_def Let_def kept)
  qed
  then obtain f s' where f: "record_case (ucast t) = Some f" "f ptr s = Some s'" "info s' = note_record (t, b) (info s)"
    "same_space s s'" by blast
  have "vload s' = vload s" using f(4) by (intro vload_cong) (simp_all add: same_space_def)
  moreover have "(ucast (of_nat (length b + 2) :: u8) :: u32) = of_nat (length b + 2)" using assms(2) by (intro ucast_counter) simp
  ultimately have "parse_record ptr s = Some (ptr + of_nat (length b + 2), s')"
    using f(1,2) b [of 0 0] b [of 0 1] by (simp add: parse_record_def)
  with f(3,4) show ?thesis by blast
qed

section \<open>The loop\<close>

lemma parse_record_unknown:
  assumes "vload s ptr = Some t" "\<not> known_type t"
  shows "parse_record ptr s = Some (ptr, s)"
proof -
  have "(ucast t :: u32) \<noteq> n" if "n \<in> {0, 1, 2, 3, 4, 5}" for n
  proof
    assume "ucast t = n"
    then have "unat t = unat n" using unat_ucast_u8 [of t] by simp
    with that have "unat t \<le> 5" by auto
    with assms(2) show False by (simp add: known_type_def word_le_nat_alt)
  qed
  with assms(1) show ?thesis by (simp add: parse_record_def record_case_def record_types)
qed

lemma parse_records_stuck:
  fixes s :: "'a madt_info_scheme"
  assumes "vload32 s (table + sdt_length) = Some len" "ptr < table + len" "parse_record ptr s = Some (ptr, s)"
  shows "parse_records table ptr s = None"
proof -
  have "\<not> (vload32 s' (table' + sdt_length) = Some len' \<and> ptr' < table' + len' \<and> parse_record ptr' s' = Some (ptr', s'))"
    if "parse_records table' ptr' s' = Some r" for table' ptr' len' and s' r :: "'a madt_info_scheme"
  proof (rule parse_records.raw_induct [OF _ that], goal_cases)
    case (1 loop table' ptr' s' r)
    then show ?case by (auto simp: bind_eq_Some_conv)
  qed
  with assms show ?thesis by (metis not_None_eq)
qed

definition recs_bytes :: "madt_rec list \<Rightarrow> u8 list" where
  "recs_bytes rs = concat (map rec_bytes rs)"

lemma recs_bytes_simps [simp]: "recs_bytes [] = []" "recs_bytes (r # rs) = rec_bytes r @ recs_bytes rs"
  by (simp_all add: recs_bytes_def)

lemma length_rec_bytes: "length (rec_bytes r) = length (snd r) + 2"
  by (cases r) simp

lemma parse_records_correct:
  assumes "vload32 s (table + sdt_length) = Some len" "table + len = ptr + of_nat (length (recs_bytes rs))"
    and "unat ptr + length (recs_bytes rs) < 2 ^ 32" "vbytes s ptr (recs_bytes rs)" "\<forall>r\<in>set rs. rec_ok r"
  shows "if \<forall>r\<in>set rs. known_type (fst r)
    then \<exists>s'. parse_records table ptr s = Some s' \<and> info s' = fold note_record rs (info s) \<and> same_space s s'
    else parse_records table ptr s = None"
  using assms
proof (induction rs arbitrary: ptr s)
  case Nil
  then show ?case by (subst (1 2) parse_records.simps) (simp add: same_space_def)
next
  case (Cons r rs)
  obtain t b where r: "r = (t, b)" by fastforce
  let ?n = "length b + 2"
  have n: "unat (of_nat (length (recs_bytes (r # rs))) :: u32) = length (recs_bytes (r # rs))"
    using Cons.prems(3) by (intro unat_of_nat_u32) simp
  have lt: "ptr < table + len" using Cons.prems(3) n r unfolding Cons.prems(2) by (simp add: word_less_nat_alt unat_word_ariths)
  have bytes: "vbytes s ptr (rec_bytes (t, b))" "vbytes s (ptr + of_nat ?n) (recs_bytes rs)"
    using Cons.prems(4) length_rec_bytes [of "(t, b)"] by (simp_all only: r recs_bytes_simps vbytes_append snd_conv)
  show ?case
  proof (cases "known_type t")
    case True
    from parse_record_known [OF bytes(1) _ True] Cons.prems(5) r obtain t' where
      t': "parse_record ptr s = Some (ptr + of_nat ?n, t')" "info t' = note_record (t, b) (info s)" "same_space s t'" by auto
    have step: "parse_records table ptr s = parse_records table (ptr + of_nat ?n) t'"
      using Cons.prems(1) lt t'(1) by (subst parse_records.simps) simp
    have v: "vload t' = vload s" using t'(3) by (intro vload_cong) (simp_all add: same_space_def)
    have "unat (ptr + of_nat ?n) + length (recs_bytes rs) < 2 ^ 32"
      using Cons.prems(3) unfolding r by (simp add: unat_word_ariths unat_of_nat)
    moreover have "vload32 t' (table + sdt_length) = Some len" using Cons.prems(1) v by (simp add: vload32_def vload16_def)
    moreover have "table + len = ptr + of_nat ?n + of_nat (length (recs_bytes rs))"
      unfolding Cons.prems(2) r by simp
    moreover have "vbytes t' (ptr + of_nat ?n) (recs_bytes rs)" using bytes(2) vbytes_cong [OF v] by simp
    moreover have "\<forall>r\<in>set rs. rec_ok r" using Cons.prems(5) by simp
    ultimately have "if \<forall>r\<in>set rs. known_type (fst r)
      then \<exists>s'. parse_records table ptr s = Some s' \<and> info s' = fold note_record rs (info t') \<and> same_space t' s'
      else parse_records table ptr s = None" unfolding step by (intro Cons.IH)
    moreover have "same_space t' s' \<longrightarrow> same_space s s'" for s' using t'(3) by (simp add: same_space_def)
    moreover have "fold note_record (r # rs) (info s) = fold note_record rs (info t')" by (simp add: t'(2) r)
    ultimately show ?thesis using True r by (auto split: if_splits)
  next
    case False
    then show ?thesis using parse_records_stuck [OF Cons.prems(1) lt parse_record_unknown] bytes(1) r by auto
  qed
qed

section \<open>What is kept of all records\<close>

fun fill :: "(u8 \<Rightarrow> 'b) \<Rightarrow> u8 \<Rightarrow> 'b list \<Rightarrow> u8 \<Rightarrow> 'b" where
  "fill f n [] = f"
| "fill f n (x # xs) = fill (f(n := x)) (n + 1) xs"

fun first_nonzero :: "u32 list \<Rightarrow> u32" where
  "first_nonzero [] = 0"
| "first_nonzero (x # xs) = (if x \<noteq> 0 then x else first_nonzero xs)"

lemma fill_before: "length xs + i < 256 \<Longrightarrow> 0 < i \<Longrightarrow> fill f (n + of_nat i) xs n = f n"
proof (induction xs arbitrary: f i)
  case (Cons x xs)
  have "unat (of_nat i :: u8) = i" using Cons.prems by (simp add: unat_of_nat)
  then have "n + of_nat i \<noteq> n" using Cons.prems(2) by (metis add_cancel_right_right unat_0 less_irrefl)
  then show ?case using Cons.IH [of "Suc i" "f(n + of_nat i := x)"] Cons.prems by (simp add: ac_simps fun_upd_def)
qed simp

lemma fill_nth: "length xs < 256 \<Longrightarrow> k < length xs \<Longrightarrow> fill f n xs (n + of_nat k) = xs ! k"
proof (induction xs arbitrary: f n k)
  case (Cons x xs)
  show ?case
  proof (cases k)
    case 0
    then show ?thesis using fill_before [of xs 1 "f(n := x)" n] Cons.prems by simp
  next
    case (Suc j)
    then show ?thesis using Cons.IH [of j "f(n := x)" "n + 1"] Cons.prems by (simp add: ac_simps fun_upd_def)
  qed
qed simp

lemma fold_note_record:
  "fold note_record rs (n, ids, k, isos, io) =
   (n + of_nat (length (lapics_of rs)), fill ids n (lapics_of rs), k + of_nat (length (isos_of rs)),
    fill isos k (isos_of rs), if io = 0 then first_nonzero (ioapics_of rs) else io)"
proof (induction rs arbitrary: n ids k isos io)
  case Nil
  then show ?case by (simp add: lapics_of_def isos_of_def ioapics_of_def)
next
  case (Cons r rs)
  then show ?case by (simp add: note_record_def lapics_of_def isos_of_def ioapics_of_def ac_simps fun_upd_def)
qed

text \<open>All records are counted, so the count is that of the enabled ones only when no other is there.\<close>

lemma enabled_count:
  assumes "length (lapics_of rs) < 256"
  shows "(of_nat (length (lapics_of rs)) :: u8) = of_nat (length (enabled_lapics_of rs)) \<longleftrightarrow> (\<forall>r\<in>set rs. fst r = 0 \<longrightarrow> lapic_enabled r)"
proof -
  have e: "length (enabled_lapics_of rs) = length (filter lapic_enabled (filter (\<lambda>r. fst r = 0) rs))"
    by (simp add: enabled_lapics_of_def conj_commute)
  have le: "length (enabled_lapics_of rs) \<le> length (lapics_of rs)" unfolding e lapics_of_def length_map by (rule length_filter_le)
  have "(of_nat (length (lapics_of rs)) :: u8) = of_nat (length (enabled_lapics_of rs)) \<longleftrightarrow> length (lapics_of rs) = length (enabled_lapics_of rs)"
    using assms le by (simp add: word_unat_eq_iff unat_of_nat)
  also have "\<dots> \<longleftrightarrow> (\<forall>r\<in>set (filter (\<lambda>r. fst r = 0) rs). lapic_enabled r)"
  proof
    assume "length (lapics_of rs) = length (enabled_lapics_of rs)"
    then have "\<not> length (filter lapic_enabled (filter (\<lambda>r. fst r = 0) rs)) < length (filter (\<lambda>r. fst r = 0) rs)"
      unfolding e by (simp only: lapics_of_def length_map)
    then show "\<forall>r\<in>set (filter (\<lambda>r. fst r = 0) rs). lapic_enabled r" by (blast intro: length_filter_less)
  next
    assume "\<forall>r\<in>set (filter (\<lambda>r. fst r = 0) rs). lapic_enabled r"
    then have "filter lapic_enabled (filter (\<lambda>r. fst r = 0) rs) = filter (\<lambda>r. fst r = 0) rs" by (intro filter_True)
    then show "length (lapics_of rs) = length (enabled_lapics_of rs)" by (simp only: e lapics_of_def length_map)
  qed
  finally show ?thesis by auto
qed

section \<open>Properties\<close>

text \<open>
  C30: On a table whose records all have a type up to 5, \<^verbatim>\<open>parse_madt\<close> returns with the identifiers of
  all local APIC records and the interrupt source overrides in their order, the address of the local
  APIC from the header and the first I/O APIC address. If a record has any other type (the x2APIC
  record 9 among them), it never returns. In two points this is not what it should be: the number of processors
  counts disabled local APICs as well, so it is the number of enabled ones, as \<^verbatim>\<open>madt.h\<close> says, only if
  all are enabled; and the address of the local APIC is that of the header also when a record of type 5
  overrides it.
\<close>

theorem parse_madt_collects:
  fixes s :: "'a madt_info_scheme"
  assumes "vbytes s (madt s) (hdr @ recs_bytes rs)" "length hdr = 44" "\<forall>r\<in>set rs. rec_ok r"
    and "le32 (drop 4 hdr) = of_nat (44 + length (recs_bytes rs))" "unat (madt s) + 44 + length (recs_bytes rs) < 2 ^ 32"
    and "num_procs s = 0" "num_iso_entries s = 0" "ioapic_addr s = 0"
    and "length (lapics_of rs) < 256" "length (isos_of rs) < 256"
  shows "if \<forall>r\<in>set rs. known_type (fst r)
    then \<exists>s'. parse_madt s = Some s' \<and> get_lapic_addr s' = le32 (drop 36 hdr) \<and>
      get_ioapic_addr s' = first_nonzero (ioapics_of rs) \<and>
      get_num_procs s' = of_nat (length (lapics_of rs)) \<and>
      (get_num_procs s' = of_nat (length (enabled_lapics_of rs)) \<longleftrightarrow> (\<forall>r\<in>set rs. fst r = 0 \<longrightarrow> lapic_enabled r)) \<and>
      (\<forall>k<length (lapics_of rs). get_lapic_ids s' (of_nat k) = lapics_of rs ! k) \<and>
      num_iso_entries s' = of_nat (length (isos_of rs)) \<and>
      (\<forall>k<length (isos_of rs). get_iso_entries s' (of_nat k) = isos_of rs ! k)
    else parse_madt s = None"
proof -
  let ?a = "madt s" and ?bs = "hdr @ recs_bytes rs"
  have len: "vload32 s (?a + sdt_length) = Some (of_nat (44 + length (recs_bytes rs)))"
    using vload32_bytes [OF assms(1), of 4] assms(2,4) by (simp add: sdt_length_def le32_def le16_def nth_append)
  have addr: "vload32 s (?a + madt_lapic_addr) = Some (le32 (drop 36 hdr))"
    using vload32_bytes [OF assms(1), of 36] assms(2) by (simp add: madt_lapic_addr_def le32_def le16_def nth_append)
  define s1 where "s1 = kprint (''--------- MADT ENTRIES ---------'' @ nl) []
    (kprint (''LAPIC ADDRESS: %x'' @ nl) [ArgW (le32 (drop 36 hdr))] s\<lparr>lapic_addr := le32 (drop 36 hdr)\<rparr>)"
  have s1: "vload s1 = vload s" "info s1 = (0, lapic_ids s, 0, iso_entries s, 0)"
    "lapic_addr s1 = le32 (drop 36 hdr)"
    using assms(6-8) by (auto intro: vload_cong simp: s1_def info_def)
  have p: "parse_madt s = parse_records ?a (?a + madt_records) s1 \<bind>
      (\<lambda>s. Some (kprint (''--------- END MADT ENTRIES ---------'' @ nl) [] s))"
    using addr by (simp add: parse_madt_def get_madt_def s1_def Let_def)
  have "if \<forall>r\<in>set rs. known_type (fst r)
    then \<exists>s'. parse_records ?a (?a + madt_records) s1 = Some s' \<and> info s' = fold note_record rs (info s1) \<and> same_space s1 s'
    else parse_records ?a (?a + madt_records) s1 = None"
  proof (rule parse_records_correct [OF _ _ _ _ assms(3)])
    show "vload32 s1 (?a + sdt_length) = Some (of_nat (44 + length (recs_bytes rs)))" using len s1(1) by (simp add: vload32_def vload16_def)
    show "vbytes s1 (?a + madt_records) (recs_bytes rs)"
      using assms(1,2) vbytes_cong [OF s1(1)] by (simp add: vbytes_append madt_records_def)
  qed (use assms(5) in \<open>simp_all add: madt_records_def unat_word_ariths\<close>)
  then show ?thesis unfolding p s1(2) fold_note_record enabled_count [OF assms(9), symmetric]
    using fill_nth [OF assms(9), of _ _ 0] fill_nth [OF assms(10), of _ _ 0] s1(3)
    by (auto simp: info_def same_space_def get_lapic_addr_def get_ioapic_addr_def get_num_procs_def get_lapic_ids_def get_iso_entries_def
        split: if_splits)
qed

text \<open>
  Three local APICs, of which the last is disabled, an I/O APIC at 0xFEC00000, the timer's interrupt moved to pin
  2, and an override of the local APIC's address.
\<close>

definition sample_recs :: "madt_rec list" where
  "sample_recs = [(0, [0, 0, 1, 0, 0, 0]), (0, [1, 4, 1, 0, 0, 0]), (0, [2, 6, 0, 0, 0, 0]), (1, [2, 0, 0, 0, 0xC0, 0xFE, 0, 0, 0, 0]),
     (2, [0, 0, 2, 0, 0, 0, 0, 0]), (5, [0, 0, 0, 0, 0xD0, 0xFE, 0, 0, 0, 0])]"

definition sample_hdr :: "madt_rec list \<Rightarrow> u8 list" where
  "sample_hdr rs = replicate 4 0 @ [of_nat (44 + length (recs_bytes rs)), 0, 0, 0] @ replicate 28 0 @ [0, 0, 0xE0, 0xFE] @ replicate 4 0"

definition sample_madt :: "madt_rec list \<Rightarrow> madt_info" where
  "sample_madt rs = acpi.extend (intr.extend (sample_intr\<lparr>kmem := table_mem (sample_hdr rs @ recs_bytes rs), cr3 := 0x1000\<rparr>)
     (acpi.fields 0 0 0 0 0 0 0 0 0x400000 0 0 0 0))
     (madt_info.fields 0 (\<lambda>_. 0) 0 (\<lambda>_. iso_of (2, replicate 8 0)) 0 0)"

lemma sample_extends:
  "kmem (intr.extend s x) = kmem s" "cr3 (intr.extend s x) = cr3 s"
  "kmem (acpi.extend a y) = kmem a" "cr3 (acpi.extend a y) = cr3 a" "madt (acpi.extend a y) = madt a"
  by (simp_all add: intr.defs acpi.defs)

lemma sample_madt_fields:
  "kmem (sample_madt rs) = table_mem (sample_hdr rs @ recs_bytes rs)" "cr3 (sample_madt rs) = 0x1000" "madt (sample_madt rs) = 0x400000"
  "num_procs (sample_madt rs) = 0" "num_iso_entries (sample_madt rs) = 0" "ioapic_addr (sample_madt rs) = 0"
  unfolding sample_madt_def by (simp_all add: sample_extends) (simp_all add: intr.defs acpi.defs madt_info.defs)

lemma sample_recs_values:
  "lapics_of sample_recs = [0, 4, 6]" "ioapics_of sample_recs = [0xFEC00000]" "isos_of sample_recs = [iso_of (sample_recs ! 4)]"
  "length (recs_bytes sample_recs) = 58" "enabled_lapics_of sample_recs = [0, 4]" "address_overrides_of sample_recs = [0xFED00000]"
  by (simp_all add: sample_recs_def lapics_of_def enabled_lapics_of_def lapic_enabled_def address_overrides_of_def ioapics_of_def isos_of_def
      le32_def le16_def)

lemma sample_hdr_values:
  "length (sample_hdr rs) = 44" "le32 (drop 36 (sample_hdr rs)) = 0xFEE00000"
  "length (recs_bytes rs) \<le> 200 \<Longrightarrow> le32 (drop 4 (sample_hdr rs)) = of_nat (44 + length (recs_bytes rs))"
proof -
  assume l: "length (recs_bytes rs) \<le> 200"
  have "(ucast (of_nat (44 + length (recs_bytes rs)) :: u8) :: u32) = of_nat (44 + length (recs_bytes rs))"
    using l by (intro ucast_counter) simp
  moreover have "(ucast (ucast b :: u16) :: u32) = ucast b" for b :: u8
    by (rule bit_word_eqI) (auto simp: bit_simps dest: bit_imp_le_length)
  ultimately show "le32 (drop 4 (sample_hdr rs)) = of_nat (44 + length (recs_bytes rs))"
    by (simp add: sample_hdr_def le32_def le16_def)
qed (simp_all add: sample_hdr_def le32_def le16_def)

theorem parse_madt_collects_witness:
  "(\<exists>s'. parse_madt (sample_madt sample_recs) = Some s' \<and> get_lapic_addr s' = 0xFEE00000 \<and> get_ioapic_addr s' = 0xFEC00000 \<and>
     get_num_procs s' = 3 \<and> get_lapic_ids s' 0 = 0 \<and> get_lapic_ids s' 1 = 4 \<and> get_lapic_ids s' 2 = 6 \<and>
     num_iso_entries s' = 1 \<and> iso_gsi (get_iso_entries s' 0) = 2) \<and>
   length (enabled_lapics_of sample_recs) = 2 \<and> address_overrides_of sample_recs = [0xFED00000] \<and>
   parse_madt (sample_madt (sample_recs @ [(9, replicate 14 0)])) = None"
proof -
  have v: "vbytes (sample_madt rs) (madt (sample_madt rs)) (sample_hdr rs @ recs_bytes rs)" if "length (recs_bytes rs) \<le> 256" for rs
    using that unfolding sample_madt_fields(3) by (intro table_mem_bytes) (simp_all add: sample_madt_fields sample_hdr_def)
  note c = parse_madt_collects [OF v, unfolded sample_madt_fields]
  have "\<forall>r\<in>set sample_recs. known_type (fst r)" "\<forall>r\<in>set sample_recs. rec_ok r"
    by (simp_all add: sample_recs_def known_type_def)
  with c [of sample_recs] obtain s' where s': "parse_madt (sample_madt sample_recs) = Some s'" "get_lapic_addr s' = 0xFEE00000"
    "get_ioapic_addr s' = 0xFEC00000" "get_num_procs s' = 3" "\<forall>k<3. get_lapic_ids s' (of_nat k) = [0, 4, 6] ! k" "num_iso_entries s' = 1"
    "\<forall>k<1. get_iso_entries s' (of_nat k) = [iso_of (sample_recs ! 4)] ! k"
    by (auto simp: sample_recs_values sample_hdr_values)
  have "get_lapic_ids s' 0 = 0" "get_lapic_ids s' 1 = 4" "get_lapic_ids s' 2 = 6"
    using s'(5) [rule_format, of 0] s'(5) [rule_format, of 1] s'(5) [rule_format, of 2] by simp_all
  moreover have "iso_gsi (get_iso_entries s' 0) = 2" using s'(7) [rule_format, of 0] by (simp add: iso_of_def sample_recs_def le32_def le16_def)
  moreover note s'(1-4,6)
  ultimately have "\<exists>s'. parse_madt (sample_madt sample_recs) = Some s' \<and> get_lapic_addr s' = 0xFEE00000 \<and> get_ioapic_addr s' = 0xFEC00000 \<and>
     get_num_procs s' = 3 \<and> get_lapic_ids s' 0 = 0 \<and> get_lapic_ids s' 1 = 4 \<and> get_lapic_ids s' 2 = 6 \<and>
     num_iso_entries s' = 1 \<and> iso_gsi (get_iso_entries s' 0) = 2"
    by blast
  moreover have "parse_madt (sample_madt (sample_recs @ [(9, replicate 14 0)])) = None"
    using c [of "sample_recs @ [(9, replicate 14 0)]"]
    by (simp add: sample_hdr_values sample_recs_def known_type_def lapics_of_def isos_of_def)
  ultimately show ?thesis by (simp add: sample_recs_values)
qed

end
