(* ===== verification/Kernel.thy ===== *)
theory Kernel
  imports Madt
begin

text \<open>
  The kernel's main program: \<^verbatim>\<open>src/kernel/kernel/core/kernel.c\<close>. \<open>kmain\<close> composes the initialisation
  of all components and starts the demo processes; \<open>make_user_proc_with_message\<close> builds a process
  that prints a message through the system call. User pages are written through the
  processor's translation.
\<close>

section \<open>Building user programs\<close>

definition USER_TEST_CODE_VA :: u32 where "USER_TEST_CODE_VA = 0x00400000"

definition USER_TEST_DATA_VA :: u32 where "USER_TEST_DATA_VA = 0x00401000"

definition USER_TEST_STACK_TOP :: u32 where "USER_TEST_STACK_TOP = 0x00403000"

definition user_test_messages :: "string list" where
  "user_test_messages = [''[1] hello world from a process'', ''[2] hello world from another process'']"

text \<open>Consecutive stores of bytes.\<close>

fun vwrite :: "u32 \<Rightarrow> u8 list \<Rightarrow> 'a vmm_scheme \<Rightarrow> 'a vmm_scheme option" where
  "vwrite p [] s = Some s"
| "vwrite p (b # bs) s =
     do {
       s \<leftarrow> vstore p b s;
       vwrite (p + 1) bs s
     }"

definition imm32 :: "u32 \<Rightarrow> u8 list" where
  "imm32 w = [ucast w, ucast (drop_bit 8 w), ucast (drop_bit 16 w), ucast (drop_bit 24 w)]"

text \<open>\<^verbatim>\<open>mov eax, SYS_PRINT_STRING; mov ebx, data; mov ecx, len; int 0x80\<close>\<close>

definition print_code :: "u32 \<Rightarrow> u32 \<Rightarrow> u8 list" where
  "print_code data len =
     [0xB8] @ imm32 SYS_PRINT_STRING @ [0xBB] @ imm32 data @ [0xB9] @ imm32 len @ [0xCD, 0x80]"

text \<open>\<^verbatim>\<open>jmp $\<close>\<close>

definition spin_code :: "u8 list" where "spin_code = [0xEB, 0xFE]"

text \<open>
  The pages of the program, written through the temporary mappings. A C string is the list of its characters
  without the terminator, none of them NUL, so \<^verbatim>\<open>strlen\<close> is the length of the list.
\<close>

definition fill_user_pages :: "u32 \<Rightarrow> u32 \<Rightarrow> string \<Rightarrow> 'a vmm_scheme \<Rightarrow> 'a vmm_scheme option" where
  "fill_user_pages code_ptr data_ptr msg s =
     do {
       s \<leftarrow> vmemset code_ptr 0x90 [0..<unat PAGE_SIZE] s;
       s \<leftarrow> vmemset data_ptr 0 [0..<unat PAGE_SIZE] s;
       let msg_len = of_nat (length msg);
       s \<leftarrow> vwrite data_ptr (map of_char msg) s;
       s \<leftarrow> vstore (data_ptr + msg_len) 0 s;
       vwrite code_ptr (print_code USER_TEST_DATA_VA msg_len @ spin_code) s
     }"

text \<open>The frames in the address space of the process; the flag is whether both could be mapped.\<close>

definition map_user_pages :: "u32 \<Rightarrow> u32 \<Rightarrow> u32 \<Rightarrow> 'a vmm_scheme \<Rightarrow> (bool \<times> 'a vmm_scheme) option" where
  "map_user_pages p code_phys data_phys s =
     do {
       (rc, s) \<leftarrow> proc_map_pages p USER_TEST_CODE_VA code_phys 1 True s;
       if rc \<noteq> 0 then Some (False, kprint (''two-proc test: map code failed'' @ nl) [] s)
       else do {
         (rc, s) \<leftarrow> proc_map_pages p USER_TEST_DATA_VA data_phys 1 True s;
         Some (if rc \<noteq> 0 then (False, kprint (''two-proc test: map data failed'' @ nl) [] s)
               else (True, s))
       }
     }"

definition make_user_proc_with_message ::
    "string option \<Rightarrow> 'a procs_scheme \<Rightarrow> (u32 \<times> 'a procs_scheme) option" where
  "make_user_proc_with_message msg s =
     (case msg of
        None \<Rightarrow> Some (0, s)
      | Some msg \<Rightarrow>
          do {
            (code_phys, s) \<leftarrow> alloc_pages PMM_FLAGS_HIGHMEM 1 s;
            (data_phys, s) \<leftarrow> alloc_pages PMM_FLAGS_HIGHMEM 1 s;
            if code_phys = 0 \<or> data_phys = 0
            then Some (0, kprint (''failed to allocate user pages'' @ nl) [] s)
            else do {
              let (code_ptr, s) = kmap code_phys s;
              let (data_ptr, s) = kmap data_phys s;
              if code_ptr = 0 \<or> data_ptr = 0
              then do {
                let s = kprint (''kmap failed for user pages'' @ nl) [] s;
                let s = (if code_ptr \<noteq> 0 then kunmap code_ptr s else s);
                let s = (if data_ptr \<noteq> 0 then kunmap data_ptr s else s);
                Some (0, s)
              }
              else do {
                s \<leftarrow> fill_user_pages code_ptr data_ptr msg s;
                (p, s) \<leftarrow> create_proc USER_TEST_CODE_VA 0 PAGE_SIZE 0 PROC_PRIORITY_NORMAL s;
                if p = 0
                then do {
                  let s = kprint (''two-proc test: create_proc failed'' @ nl) [] s;
                  Some (0, kunmap data_ptr (kunmap code_ptr s))
                }
                else do {
                  (ok, s) \<leftarrow> map_user_pages p code_phys data_phys s;
                  Some (if ok then p else 0, kunmap data_ptr (kunmap code_ptr s))
                }
              }
            }
          })"

section \<open>The demos\<close>

text \<open>A demo either enters user mode with the frame that \<^verbatim>\<open>iret\<close> pops, or returns.\<close>

datatype 's demo = User_mode user_frame 's | Returned 's

text \<open>The messages one after the other in the data page, with the addresses and lengths the code uses.\<close>

fun place_messages :: "u32 \<Rightarrow> string list \<Rightarrow> 'a vmm_scheme \<Rightarrow> ((u32 \<times> u32) list \<times> 'a vmm_scheme) option" where
  "place_messages data_cursor [] s = Some ([], s)"
| "place_messages data_cursor (msg # msgs) s =
     do {
       let len = of_nat (length msg);
       let dest = USER_TEST_DATA_VA + data_cursor;
       s \<leftarrow> vwrite dest (map of_char msg) s;
       s \<leftarrow> vstore (dest + len) 0 s;
       (places, s) \<leftarrow> place_messages (data_cursor + (len + 1)) msgs s;
       Some ((data_cursor, len) # places, s)
     }"

text \<open>\<open>user_ctx\<close> is the address of the static context of the same name.\<close>

definition kernel_single_process_test :: "u32 \<Rightarrow> 'a procs_scheme \<Rightarrow> 'a procs_scheme demo option" where
  "kernel_single_process_test user_ctx s =
     (let user_stack_base = USER_TEST_STACK_TOP - PAGE_SIZE
      in do {
        (code_phys, s) \<leftarrow> alloc_pages PMM_FLAGS_HIGHMEM 1 s;
        (data_phys, s) \<leftarrow> alloc_pages PMM_FLAGS_HIGHMEM 1 s;
        (stack_phys, s) \<leftarrow> alloc_pages PMM_FLAGS_HIGHMEM 1 s;
        if code_phys = 0 \<or> data_phys = 0 \<or> stack_phys = 0
        then Some (Returned (kprint (''iret test: failed to allocate user pages'' @ nl) [] s))
        else do {
          (rc, s) \<leftarrow> proc_map_pages (current_proc s) USER_TEST_CODE_VA code_phys 1 True s;
          if rc \<noteq> 0 then Some (Returned s)
          else do {
            (rc, s) \<leftarrow> proc_map_pages (current_proc s) USER_TEST_DATA_VA data_phys 1 True s;
            if rc \<noteq> 0 then Some (Returned s)
            else do {
              (rc, s) \<leftarrow> proc_map_pages (current_proc s) user_stack_base stack_phys 1 True s;
              if rc \<noteq> 0 then Some (Returned s)
              else do {
                let s = flush_tlb s;
                s \<leftarrow> vmemset USER_TEST_CODE_VA 0x90 [0..<unat PAGE_SIZE] s;
                s \<leftarrow> vmemset USER_TEST_DATA_VA 0 [0..<unat PAGE_SIZE] s;
                (places, s) \<leftarrow> place_messages 0 user_test_messages s;
                s \<leftarrow> vwrite USER_TEST_CODE_VA
                       (concat (map (\<lambda>(off, len). print_code (USER_TEST_DATA_VA + off) len) places) @ spin_code) s;
                s \<leftarrow> vmemset user_stack_base 0 [0..<unat PAGE_SIZE] s;
                let s = s\<lparr>kmem := memset user_ctx 0 52 (kmem s)\<rparr>;
                let s = setf user_ctx ctx_eip USER_TEST_CODE_VA s;
                let s = setf user_ctx ctx_cs 0x1B s;
                let s = setf user_ctx ctx_eflags 0x202 s;
                let s = setf user_ctx ctx_useresp (USER_TEST_STACK_TOP - 0x10) s;
                let s = setf user_ctx ctx_ss 0x23 s;
                let s = setf user_ctx ctx_esp (getf user_ctx ctx_useresp s) s;
                let s = setf user_ctx ctx_ebp (getf user_ctx ctx_useresp s) s;
                let s = kprint (''Running user-mode syscall demo via iret trampoline...'' @ nl) [] s;
                Some (User_mode (iret_jump_user user_ctx s) s)
              }
            }
          }
        }
      })"

text \<open>\<open>flags\<close> is the flags register when \<^verbatim>\<open>proc_enter\<close> reads it.\<close>

definition kernel_three_process_test :: "u32 \<Rightarrow> 'a procs_scheme \<Rightarrow> 'a procs_scheme demo option" where
  "kernel_three_process_test flags s =
     do {
       (p1, s) \<leftarrow> make_user_proc_with_message (Some ''[1] hello world from a process'') s;
       (p2, s) \<leftarrow> make_user_proc_with_message (Some ''[2] hello world from another process'') s;
       (p3, s) \<leftarrow> make_user_proc_with_message (Some ''[3] hello world from yet another process'') s;
       if p1 = 0 \<or> p2 = 0 \<or> p3 = 0
       then Some (Returned (kprint (''three-proc test: failed to set up processes'' @ nl) [] s))
       else do {
         let s = kprint (''Launching three user processes; scheduler should alternate prints...'' @ nl) [] s;
         let s = kprint (''Jumping to first process, entering user mode for the first time via iret'' @ nl) [] s;
         let (frame, s) = proc_enter flags p1 s;
         Some (User_mode frame s)
       }
     }"

section \<open>Printing\<close>

definition logo :: string where
  "logo =
     [CHR 0x0A]
     @ '',-----.                                   ,--.            ,-----.  ,---.   '' @ [CHR 0x0A]
     @ ''|  |) /_ ,--.--. ,---. ,--.   ,--.,--,--, '' @ [CHR 0x60] @ ''--'' @ [CHR 0x27] @ '' ,---.     ''
       @ [CHR 0x27] @ ''  .-.  '' @ [CHR 0x27] @ [CHR 0x27] @ ''   .-'' @ [CHR 0x27] @ ''  '' @ [CHR 0x0A]
     @ ''|  .-.  '' @ [CHR 0x5C] @ ''|  .--'' @ [CHR 0x27] @ ''| .-. ||  |.'' @ [CHR 0x27] @ ''.|  ||      ''
       @ [CHR 0x5C] @ '',--.| .-. :    |  | |  |'' @ [CHR 0x60] @ ''.  '' @ [CHR 0x60] @ ''-.  '' @ [CHR 0x0A]
     @ ''|  '' @ [CHR 0x27] @ ''--'' @ [CHR 0x27] @ '' /|  |   '' @ [CHR 0x27] @ '' '' @ [CHR 0x27] @ ''-''
       @ [CHR 0x27] @ '' '' @ [CHR 0x27] @ ''|   .'' @ [CHR 0x27] @ ''.   ||  ||  ||  |'' @ [CHR 0x5C]
       @ ''   --.    '' @ [CHR 0x27] @ ''  '' @ [CHR 0x27] @ ''-'' @ [CHR 0x27] @ ''  '' @ [CHR 0x27] @ ''.-''
       @ [CHR 0x27] @ ''    | '' @ [CHR 0x0A]
     @ [CHR 0x60] @ ''------'' @ [CHR 0x27] @ '' '' @ [CHR 0x60] @ ''--'' @ [CHR 0x27] @ ''    '' @ [CHR 0x60]
       @ ''---'' @ [CHR 0x27] @ '' '' @ [CHR 0x27] @ ''--'' @ [CHR 0x27] @ ''   '' @ [CHR 0x27] @ ''--''
       @ [CHR 0x27] @ [CHR 0x60] @ ''--'' @ [CHR 0x27] @ [CHR 0x27] @ ''--'' @ [CHR 0x27] @ [CHR 0x60]
       @ ''--'' @ [CHR 0x27] @ '' '' @ [CHR 0x60] @ ''----'' @ [CHR 0x27] @ ''     '' @ [CHR 0x60] @ ''-----''
       @ [CHR 0x27] @ '' '' @ [CHR 0x60] @ ''-----'' @ [CHR 0x27]"

definition printlogo :: "'a tty_scheme \<Rightarrow> 'a tty_scheme" where
  "printlogo s = kprint (nl @ nl) [] (kprint logo [] s)"

text \<open>The words at the symbols the linker script defines.\<close>

record syms =
  sym_ks :: u32
  sym_ke :: u32
  sym_ts :: u32
  sym_rs :: u32
  sym_re :: u32
  sym_dtas :: u32
  sym_dtae :: u32
  sym_bs :: u32
  sym_be :: u32
  sym_test :: u32

definition printsyms :: "syms \<Rightarrow> 'a tty_scheme \<Rightarrow> 'a tty_scheme" where
  "printsyms y s =
     (let s = kprint (''%x KERNEL START'' @ nl @ nl) [ArgW (sym_ks y)] s;
          s = kprint (''%x TEST '' @ nl @ nl) [ArgW (sym_test y)] s;
          s = kprint (''%x TEXT START'' @ nl) [ArgW (sym_ts y)] s;
          s = kprint (''%x READONLY START'' @ nl) [ArgW (sym_rs y)] s;
          s = kprint (''%x READONLY END'' @ nl @ nl) [ArgW (sym_re y)] s;
          s = kprint (''%x DATA START'' @ nl) [ArgW (sym_dtas y)] s;
          s = kprint (''%x DATA END'' @ nl @ nl) [ArgW (sym_dtae y)] s;
          s = kprint (''%x BSS START'' @ nl) [ArgW (sym_bs y)] s;
          s = kprint (''%x BSS END'' @ nl @ nl) [ArgW (sym_be y)] s
      in kprint (''%x KERNEL END'' @ nl) [ArgW (sym_ke y)] s)"

section \<open>The main program\<close>

text \<open>What the linker and the boot code fix: the addresses of static objects and of the stubs.\<close>

record image =
  gdt_addr :: u32
  tss_addr :: u32
  kstack_addr :: u32
  idt_addr :: u32
  stub_addr :: "nat \<Rightarrow> u32"
  kdir_addr :: u32
  ktables_addr :: u32

text \<open>The end of the main program: in user mode, in the halt loop of \<^verbatim>\<open>kpause\<close>, or in that of \<^verbatim>\<open>panic\<close>.\<close>

datatype 's boot = Booted user_frame 's | Paused 's | Panicked 's

definition boot_demo :: "u32 \<Rightarrow> 'a madt_info_scheme \<Rightarrow> 'a madt_info_scheme boot option" where
  "boot_demo flags s =
     do {
       s \<leftarrow> parse_madt s;
       s \<leftarrow> pit_init 1000 s;
       d \<leftarrow> kernel_three_process_test flags s;
       Some (case d of User_mode frame s \<Rightarrow> Booted frame s | Returned s \<Rightarrow> Paused s)
     }"

definition boot_services :: "'a madt_info_scheme \<Rightarrow> 'a madt_info_scheme outcome option" where
  "boot_services s =
     do {
       let s = kprint (''BrownieOS kernel version %s for %s'' @ nl @ nl) [ArgS ''0.0.1'', ArgS ''x86''] s;
       let s = printlogo s;
       s \<leftarrow> kheap_init s;
       let s = proc_init s;
       s \<leftarrow> kernel_proc_init s;
       let s = scheduler_init s;
       let s = isr_init s;
       let s = syscall_init s;
       init_acpi s
     }"

definition kmain ::
    "image \<Rightarrow> u32 \<Rightarrow> u32 \<Rightarrow> u32 \<Rightarrow> 'a madt_info_scheme \<Rightarrow> 'a madt_info_scheme boot option" where
  "kmain im flags mbd magic s =
     do {
       let s = gdt_init (gdt_addr im) (tss_addr im) (kstack_addr im) s;
       let s = idt_init (idt_addr im) (stub_addr im) s;
       r \<leftarrow> paging_init (kdir_addr im) (ktables_addr im) mbd magic s;
       r \<leftarrow> and_then r boot_services;
       case r of
         Halted s \<Rightarrow> Some (Panicked s)
       | Running s \<Rightarrow> boot_demo flags s
     }"

end
