(* ===== verification/User_Pages.thy ===== *)
theory User_Pages
  imports Proc_Create Kernel
begin

text \<open>
  The pages of a demo process, \<^verbatim>\<open>make_user_proc_with_message\<close>: writes through the temporary mappings down to
  the bytes of the frames behind them, and how the words of the memory model relate to frames.
\<close>

section \<open>Bytes through a mapping\<close>

text \<open>The bytes \<open>bs\<close> at \<open>q\<close> and behind.\<close>

definition put_bytes :: "u32 \<Rightarrow> u8 list \<Rightarrow> mem \<Rightarrow> mem" where
  "put_bytes q bs m = (\<lambda>x. if unat (x - q) < length bs then bs ! unat (x - q) else m x)"

lemma put_bytes_Nil [simp]: "put_bytes q [] m = m"
  by (simp add: put_bytes_def)

lemma put_bytes_Cons:
  assumes "length bs < 2 ^ 32 - 1"
  shows "put_bytes (q + 1) bs (m(q := b)) = put_bytes q (b # bs) m"
proof
  fix x
  show "put_bytes (q + 1) bs (m(q := b)) x = put_bytes q (b # bs) m x"
  proof (cases "x = q")
    case True
    have "unat (- 1 :: u32) = 2 ^ 32 - 1" by (simp add: unat_uminus_u32)
    then show ?thesis using True assms by (simp add: put_bytes_def)
  next
    case False
    then have "x - q \<noteq> 0" by simp
    then have "unat (x - q) \<noteq> 0" by (metis unsigned_0 word_unat_eq_iff)
    moreover have "unat (x - (q + 1)) = unat (x - q) - 1"
      using calculation by (simp add: diff_diff_eq [symmetric] unat_sub_u32 word_le_nat_alt)
    ultimately show ?thesis using False by (auto simp: put_bytes_def nth_Cons')
  qed
qed

lemma vmemset_vwrite:
  assumes "k \<le> n"
  shows "vmemset p v [k..<n] s = vwrite (p + of_nat k) (replicate (n - k) v) s"
  using assms
proof (induction "n - k" arbitrary: k s)
  case (Suc x)
  then have "[k..<n] = k # [Suc k..<n]" "n - k = Suc (n - Suc k)" "x = n - Suc k" "Suc k \<le> n" by (simp_all add: upt_conv_Cons)
  then show ?case using Suc.hyps(1) [of "Suc k"]
    by (cases "vstore (p + of_nat k) v s") (simp_all add: add.assoc [symmetric] add.commute [of 1])
qed simp

text \<open>A frame of high memory lies outside the kernel window.\<close>

definition high_frame :: "nat \<Rightarrow> bool" where
  "high_frame c \<longleftrightarrow> LOW_FRAMES \<le> c \<and> c < ALL_FRAMES"

lemma high_frame_byte:
  assumes "high_frame c" "in_window w" "w + i < 0xF8000000"
  shows "\<not> unat (of_nat (w + i) - fptr c 0 :: u32) < 4096"
proof -
  define x where "x = w + i - 0xC0000000"
  have x: "w + i = x + 0xC0000000" "x < 0x38000000" using assms(2,3) by (auto simp: x_def in_window_def)
  have "of_nat (w + i) - fptr c 0 = (of_nat x - of_nat (c * 4096) :: u32)"
    by (simp add: x(1) fptr_def)
  moreover have "\<not> unat (of_nat x - of_nat (c * 4096) :: u32) < 4096"
    using assms(1) x(2) by (subst unat_diff_range) (auto simp: high_frame_def)
  ultimately show ?thesis by simp
qed

lemma put_high:
  assumes "high_frame c" "o' + length bs \<le> 4096"
  shows "agree {w. \<not> in_window w} m (put_bytes (fptr c 0 + of_nat o') bs m)"
  unfolding agree_def
proof (intro allI impI)
  fix w assume w: "4 dvd w" "w < 2 ^ 32" "w \<notin> {w. \<not> in_window w}"
  let ?q = "fptr c 0"
  have byte: "put_bytes (?q + of_nat o') bs m (of_nat (w + i)) = m (of_nat (w + i))" if "i < 4" for i
  proof -
    have "w + i < 0xF8000000" using w that by (auto simp: in_window_def elim!: dvdE)
    then have n: "\<not> unat (of_nat (w + i) - ?q) < 4096" using high_frame_byte [OF assms(1)] w by blast
    have o: "unat (of_nat o' :: u32) = o'" using assms(2) by (intro unat_of_nat_u32) simp
    have "unat (of_nat (w + i) - (?q + of_nat o') :: u32) = unat (of_nat (w + i) - ?q) - o'"
      unfolding diff_diff_eq [symmetric] using n o assms(2) by (subst unat_sub_u32) (simp_all add: word_le_nat_alt)
    then have "\<not> unat (of_nat (w + i) - (?q + of_nat o') :: u32) < length bs" using n assms(2) by linarith
    then show ?thesis unfolding put_bytes_def by (simp only: if_False)
  qed
  from byte [of 0] byte [of 1] byte [of 2] byte [of 3]
  show "word_at (put_bytes (?q + of_nat o') bs m) w = word_at m w" by (simp add: word_at_def load32_def add.commute)
qed

lemma kernel_paging_words:
  assumes "kernel_paging D T s" "kernel_directory s' = kernel_directory s"
    and "\<And>i. i < 2048 \<Longrightarrow> word_at (kmem s') (D + 4 * i) = word_at (kmem s) (D + 4 * i)"
    and "\<And>k. k < LOW_FRAMES \<Longrightarrow> word_at (kmem s') (T + 4 * k) = word_at (kmem s) (T + 4 * k)"
  shows "kernel_paging D T s'"
proof -
  have "word_at (kmem s') (D + 3072 + 4 * n) = word_at (kmem s) (D + 3072 + 4 * n)"
    "word_at (kmem s') (D + 7168 + 4 * n) = word_at (kmem s) (D + 7168 + 4 * n)" if "n < 256" for n
    using assms(3) [of "768 + n"] assms(3) [of "1792 + n"] that by (simp_all add: algebra_simps)
  then show ?thesis using assms(1,2,4) by (simp add: kernel_paging_def kernel_entries_def Let_def)
qed

lemma mapped_kernelI:
  assumes "kernel_paging D T s" "cr3 s = KV2P (of_nat D)"
  shows "mapped_kernel D T D s"
  using assms by (auto simp: mapped_kernel_def kernel_paging_def shares_kernel_def kernel_layout_def elim!: dvdE)

lemma translate_window_same:
  assumes "mapped_kernel D T D s" "agree {w. \<not> in_window w} (kmem s) m"
  shows "mapped_kernel D T D (s\<lparr>kmem := m\<rparr>)" "0xC0000000 \<le> unat va \<Longrightarrow> translate (s\<lparr>kmem := m\<rparr>) va = translate s va"
proof -
  have lay: "kernel_layout D T" using assms(1) by (simp add: mapped_kernel_def kernel_paging_def)
  have same: "word_at m w = word_at (kmem s) w" if "4 dvd w" "in_window w" for w
    using that agree_word [OF assms(2) that(1)] by (simp add: in_window_def)
  have al: "4 dvd D" "4 dvd T" using lay by (auto simp: kernel_layout_def elim!: dvdE)
  have D: "word_at m (D + 4 * i) = word_at (kmem s) (D + 4 * i)" if "i < 2048" for i
    using lay al that by (intro same) (auto simp: kernel_layout_def in_window_def)
  have T: "word_at m (T + 4 * k) = word_at (kmem s) (T + 4 * k)" if "k < 0x40000" for k
    using lay al that by (intro same) (auto simp: kernel_layout_def in_window_def)
  have sh: "shares_kernel D T s" "kernel_paging D T s" using assms(1) by (simp_all add: mapped_kernel_def)
  then have "kernel_paging D T (s\<lparr>kmem := m\<rparr>)" using D T by (intro kernel_paging_words [OF sh(2)]) simp_all
  then show mk: "mapped_kernel D T D (s\<lparr>kmem := m\<rparr>)" using sh by (intro mapped_kernelI) (simp_all add: shares_kernel_def)
  show "translate (s\<lparr>kmem := m\<rparr>) va = translate s va" if va: "0xC0000000 \<le> unat va"
  proof -
    have "shares_kernel D T (s\<lparr>kmem := m\<rparr>)" using mk by (simp add: mapped_kernel_def)
    from translate_window [OF this lay va] translate_window [OF sh(1) lay va] show ?thesis using T [OF window_page_less] by simp
  qed
qed

lemma vwrite_page:
  assumes "mapped_kernel D T D s" "va mod 0x1000 = 0" "0xC0000000 \<le> unat va" "translate s va = Some (frame_addr c)"
    and "high_frame c" "o' + length bs \<le> 4096"
  shows "vwrite (va + of_nat o') bs s = Some (s\<lparr>kmem := put_bytes (fptr c 0 + of_nat o') bs (kmem s)\<rparr>)"
  using assms(1,4,6)
proof (induction bs arbitrary: o' s)
  case (Cons b bs)
  let ?q = "fptr c 0 + of_nat o'"
  have "(of_nat o' :: u32) < 0x1000" using Cons.prems(3) by (simp add: word_less_nat_alt unat_of_nat_u32)
  then have "vstore (va + of_nat o') b s = Some (s\<lparr>kmem := (kmem s)(?q := b)\<rparr>)"
  proof -
    assume "(of_nat o' :: u32) < 0x1000"
    then have "translate s (va + of_nat o') = Some (frame_addr c + of_nat o')" by (rule page_offset [OF assms(2) _ Cons.prems(2)])
    moreover have "KP2V (frame_addr c + of_nat o') = ?q" by (simp add: KP2V_def fptr_def frame_addr_def)
    ultimately show ?thesis by (simp add: vstore_def)
  qed
  moreover define m1 where "m1 = (kmem s)(?q := b)"
  have m: "m1 = put_bytes ?q [b] (kmem s)" using put_bytes_Cons [of "[]" ?q "kmem s" b] by (simp add: m1_def)
  have ag: "agree {w. \<not> in_window w} (kmem s) m1" unfolding m using Cons.prems(3) by (intro put_high [OF assms(5)]) simp
  note t = translate_window_same [OF Cons.prems(1) ag]
  have "vwrite (va + of_nat (Suc o')) bs (s\<lparr>kmem := m1\<rparr>) =
      Some (s\<lparr>kmem := put_bytes (fptr c 0 + of_nat (Suc o')) bs m1\<rparr>)"
    using Cons.IH [OF t(1), of "Suc o'"] t(2) [OF assms(3)] Cons.prems(2,3) by simp
  moreover have "put_bytes (?q + 1) bs m1 = put_bytes ?q (b # bs) (kmem s)"
    unfolding m1_def using Cons.prems(3) by (intro put_bytes_Cons) simp
  ultimately show ?case by (simp add: add.commute [of 1] add.assoc [symmetric] flip: m1_def)
qed simp

section \<open>The pages\<close>

definition user_code :: "string \<Rightarrow> u8 list" where
  "user_code msg = print_code USER_TEST_DATA_VA (of_nat (length msg)) @ spin_code"

definition code_page :: "string \<Rightarrow> u8 list" where
  "code_page msg = user_code msg @ replicate (4096 - length (user_code msg)) 0x90"

definition data_page :: "string \<Rightarrow> u8 list" where
  "data_page msg = map of_char msg @ replicate (4096 - length msg) 0"

text \<open>Frame \<open>c\<close> holds the bytes \<open>bs\<close>.\<close>

definition frame_holds :: "mem \<Rightarrow> nat \<Rightarrow> u8 list \<Rightarrow> bool" where
  "frame_holds m c bs \<longleftrightarrow> (\<forall>i<length bs. m (fptr c 0 + of_nat i) = bs ! i)"

lemma put_bytes_frame:
  assumes "c < ALL_FRAMES" "e < ALL_FRAMES" "length bs \<le> 4096" "i < 4096"
  shows "put_bytes (fptr c 0) bs m (fptr e 0 + of_nat i) = (if e = c \<and> i < length bs then bs ! i else m (fptr e 0 + of_nat i))"
proof -
  have d: "fptr e 0 + of_nat i - fptr c 0 = (of_nat (4096 * e + i) - of_nat (4096 * c) :: u32)" by (simp add: fptr_def)
  have r: "unat (of_nat (4096 * e + i) - of_nat (4096 * c) :: u32) < 4096 \<longleftrightarrow> 4096 * c \<le> 4096 * e + i \<and> 4096 * e + i < 4096 * c + 4096"
    using assms by (intro unat_diff_range) auto
  show ?thesis
  proof (cases "e = c")
    case True
    then have "unat (fptr e 0 + of_nat i - fptr c 0) = i" using assms(4) by (simp add: unat_of_nat_u32)
    then show ?thesis using True by (simp add: put_bytes_def)
  next
    case False
    then have "\<not> unat (fptr e 0 + of_nat i - fptr c 0) < 4096" unfolding d r using assms(4) by auto
    then show ?thesis using False assms(3) by (simp add: put_bytes_def)
  qed
qed

lemma code_length: "length (user_code msg) = 19"
  by (simp add: user_code_def print_code_def imm32_def spin_code_def)

text \<open>Where a temporary mapping of high frame \<open>c\<close> is.\<close>

definition mapped_at :: "nat \<Rightarrow> nat \<Rightarrow> u32 \<Rightarrow> nat \<Rightarrow> 'a vmm_scheme \<Rightarrow> bool" where
  "mapped_at D T va c s \<longleftrightarrow> mapped_kernel D T D s \<and> high_frame c \<and> va mod 0x1000 = 0 \<and> 0xC0000000 \<le> unat va \<and>
     translate s va = Some (frame_addr c)"

lemma write_mapped:
  assumes "mapped_at D T va c s" "o' + length bs \<le> 4096"
  defines "m \<equiv> put_bytes (fptr c 0 + of_nat o') bs (kmem s)"
  shows "vwrite (va + of_nat o') bs s = Some (s\<lparr>kmem := m\<rparr>)" "agree {w. \<not> in_window w} (kmem s) m"
    "mapped_at D T va' c' s \<Longrightarrow> mapped_at D T va' c' (s\<lparr>kmem := m\<rparr>)"
proof -
  show "vwrite (va + of_nat o') bs s = Some (s\<lparr>kmem := m\<rparr>)" unfolding m_def
    using assms(1,2) vwrite_page [of D T s va c] by (simp add: mapped_at_def)
  show ag: "agree {w. \<not> in_window w} (kmem s) m" unfolding m_def using assms(1,2) by (intro put_high) (simp_all add: mapped_at_def)
  show "mapped_at D T va' c' s \<Longrightarrow> mapped_at D T va' c' (s\<lparr>kmem := m\<rparr>)"
    using translate_window_same [OF _ ag] by (auto simp: mapped_at_def)
qed

lemma put_bytes_same: "m q = b \<Longrightarrow> put_bytes q [b] m = m"
  by (rule ext) (auto simp: put_bytes_def unat_eq_zero)

lemma vstore_vwrite: "vstore p b s = vwrite p [b] s"
  by (cases "vstore p b s") simp_all

lemma write_frame:
  assumes "mapped_at D T va c s" "mapped_at D T va' c' s" "mapped_at D T va'' c'' s" "length bs \<le> 4096"
  defines "m \<equiv> put_bytes (fptr c 0) bs (kmem s)"
  shows "vwrite va bs s = Some (s\<lparr>kmem := m\<rparr>)" "agree {w. \<not> in_window w} (kmem s) m"
    "mapped_at D T va' c' (s\<lparr>kmem := m\<rparr>)" "mapped_at D T va'' c'' (s\<lparr>kmem := m\<rparr>)"
  using write_mapped [OF assms(1), of 0 bs] assms(2-4) by (simp_all add: m_def)

lemma fill_user_pages_ok:
  assumes "mapped_at D T cp c s" "mapped_at D T dp e s" "c \<noteq> e" "length msg < 4096"
  obtains m where "fill_user_pages cp dp msg s = Some (s\<lparr>kmem := m\<rparr>)" "agree {w. \<not> in_window w} (kmem s) m"
    "frame_holds m c (code_page msg)" "frame_holds m e (data_page msg)"
    "\<forall>g i. g < ALL_FRAMES \<and> i < 4096 \<and> g \<noteq> c \<and> g \<noteq> e \<longrightarrow> m (fptr g 0 + of_nat i) = kmem s (fptr g 0 + of_nat i)"
proof -
  let ?n = "length msg"
  define m1 where "m1 = put_bytes (fptr c 0) (replicate 4096 0x90) (kmem s)"
  define m2 where "m2 = put_bytes (fptr e 0) (replicate 4096 0) m1"
  define m3 where "m3 = put_bytes (fptr e 0) (map of_char msg) m2"
  define m where "m = put_bytes (fptr c 0) (user_code msg) m3"
  have ce: "c < ALL_FRAMES" "e < ALL_FRAMES" using assms(1,2) by (simp_all add: mapped_at_def high_frame_def)
  note w1 = write_frame [OF assms(1,1,2), of "replicate 4096 0x90", folded m1_def]
  note w2 = write_frame [OF w1(4,3,4), of "replicate 4096 0", simplified, folded m2_def]
  note w3 = write_frame [OF w2(4,3,4), of "map of_char msg", simplified, folded m3_def]
  have l: "\<not> 4096 < ?n" "?n \<le> 4096" using assms(4) by simp_all
  note w5 = write_frame [OF w3(3,3,4), of "user_code msg", simplified, folded m_def]
  have "m3 (fptr e 0 + of_nat ?n) = 0"
    unfolding m3_def m2_def using assms(4) ce by (simp add: put_bytes_frame)
  then have m4: "put_bytes (fptr e 0 + of_nat ?n) [0] m3 = m3" by (rule put_bytes_same)
  have w4: "vstore (dp + of_nat ?n) 0 (s\<lparr>kmem := m3\<rparr>) = Some (s\<lparr>kmem := m3\<rparr>)"
    using write_mapped(1) [OF w3(4) [OF l(2)], of ?n "[0]"] assms(4) m4 by (simp add: vstore_vwrite del: vwrite.simps)
  have "unat PAGE_SIZE = 4096" by (simp add: PAGE_SIZE_def)
  moreover have "vmemset p v [0..<4096] u = vwrite p (replicate 4096 v) u" for p v and u :: "'a vmm_scheme"
    using vmemset_vwrite [of 0 4096 p v u] by (simp del: upt_rec_numeral)
  ultimately have "fill_user_pages cp dp msg s = Some (s\<lparr>kmem := m\<rparr>)"
    using w1(1) w2(1) w3(1) w4 w5(1) assms(4) code_length [of msg]
    by (simp add: fill_user_pages_def del: upt_rec_numeral vwrite.simps flip: user_code_def)
  moreover have "agree {w. \<not> in_window w} (kmem s) m"
    using agree_trans [OF agree_trans [OF agree_trans [OF w1(2) w2(2)] w3(2)] w5(2)] l code_length [of msg] by simp
  moreover have "frame_holds m c (code_page msg)" "frame_holds m e (data_page msg)"
    unfolding frame_holds_def m_def m3_def m2_def m1_def using assms(3,4) ce code_length [of msg]
    by (auto simp: put_bytes_frame code_page_def data_page_def nth_append)
  moreover have "m (fptr g 0 + of_nat i) = kmem s (fptr g 0 + of_nat i)" if "g < ALL_FRAMES" "i < 4096" "g \<noteq> c" "g \<noteq> e" for g i
    unfolding m_def m3_def m2_def m1_def using that ce l code_length [of msg] by (simp add: put_bytes_frame)
  ultimately show ?thesis using that by blast
qed

section \<open>Words and bytes\<close>

lemma load32_bytes:
  assumes "load32 m q = load32 m' q"
  shows "m q = m' q" "m (q + 1) = m' (q + 1)" "m (q + 2) = m' (q + 2)" "m (q + 3) = m' (q + 3)"
proof -
  have "m = store32 m q (load32 m' q)" using assms store32_id [of m q] by simp
  then have *: "m x = store32 m q (load32 m' q) x" for x by (rule fun_cong)
  have **: "m' x = store32 m' q (load32 m' q) x" for x by (simp add: store32_id)
  show "m q = m' q" "m (q + 1) = m' (q + 1)" "m (q + 2) = m' (q + 2)" "m (q + 3) = m' (q + 3)"
    by (subst *, subst **, simp add: store32_def)+
qed

lemma word_at_bytes:
  assumes "word_at m w = word_at m' w" "i < 4"
  shows "m (of_nat (w + i)) = m' (of_nat (w + i))"
proof -
  have "i = 0 \<or> i = 1 \<or> i = 2 \<or> i = 3" using assms(2) by auto
  then show ?thesis using load32_bytes [of m "of_nat w" m'] assms(1) by (auto simp: word_at_def add.commute)
qed

text \<open>Words outside the kernel window determine the bytes of high frames.\<close>

lemma high_byte_same:
  assumes "high_frame c" "i < 4096"
    and "\<And>w. w < 2 ^ 32 \<Longrightarrow> 4 dvd w \<Longrightarrow> \<not> in_window w \<Longrightarrow> word_at m' w = word_at m w"
  shows "m' (fptr c 0 + of_nat i) = m (fptr c 0 + of_nat i)"
proof -
  define x where "x = unat (fptr c 0 + of_nat i)"
  define w where "w = x - x mod 4"
  have x: "w + x mod 4 = x" "4 dvd w" "x < 2 ^ 32" "x mod 4 < 4" using unat_u32_less by (auto simp: w_def x_def minus_mod_eq_mult_div)
  have b: "of_nat (w + x mod 4) = fptr c 0 + of_nat i" unfolding x(1) by (simp add: x_def)
  have "\<not> in_window w"
  proof
    assume win: "in_window w"
    then have "w + x mod 4 < 0xF8000000" using x(2,4) by (auto simp: in_window_def elim!: dvdE)
    from high_frame_byte [OF assms(1) win this] b assms(2) show False by (simp add: unat_of_nat_u32)
  qed
  then have "word_at m' w = word_at m w" using assms(3) x by simp
  from word_at_bytes [OF this x(4)] show ?thesis unfolding b .
qed

text \<open>The physical address that kernel address \<open>w\<close> of the memory model stands for.\<close>

definition phys_addr :: "nat \<Rightarrow> nat" where
  "phys_addr w = (if 0xC0000000 \<le> w then w - 0xC0000000 else w + 0x40000000)"

lemma phys_addr_window: "in_window w \<Longrightarrow> phys_addr w div 4096 = word_frame w"
  by (simp add: phys_addr_def in_window_def word_frame_def)

lemma phys_addr_byte:
  assumes "w < 2 ^ 32" "4 dvd w" "i < 4"
  shows "phys_addr w div 4096 < ALL_FRAMES" "phys_addr w mod 4096 + i < 4096"
    "of_nat (w + i) = fptr (phys_addr w div 4096) 0 + of_nat (phys_addr w mod 4096 + i)"
proof -
  have "4 dvd phys_addr w" using assms(2) by (auto simp: phys_addr_def elim!: dvdE)
  then have "4 dvd phys_addr w mod 4096" by (simp add: dvd_mod)
  then obtain k where "phys_addr w mod 4096 = 4 * k" by (rule dvdE)
  moreover have "phys_addr w mod 4096 < 4096" by simp
  ultimately have "k < 1024" by simp
  then show "phys_addr w mod 4096 + i < 4096" using assms(3) \<open>phys_addr w mod 4096 = 4 * k\<close> by linarith
  have lt: "phys_addr w < 2 ^ 32" using assms(1) by (auto simp: phys_addr_def)
  then show "phys_addr w div 4096 < ALL_FRAMES" by simp
  have "fptr (phys_addr w div 4096) 0 + of_nat (phys_addr w mod 4096 + i) = (of_nat (0xC0000000 + phys_addr w + i) :: u32)"
  proof -
    have e: "0xC0000000 + 4096 * (phys_addr w div 4096) + (phys_addr w mod 4096 + i) = 0xC0000000 + phys_addr w + i" by simp
    have "fptr f 0 + of_nat j = (of_nat (0xC0000000 + 4096 * f + j) :: u32)" for f j by (simp add: fptr_def)
    then show ?thesis by (simp only: e)
  qed
  also have "\<dots> = of_nat (w + i)" by (simp add: phys_addr_def of_nat_diff)
  finally show "of_nat (w + i) = fptr (phys_addr w div 4096) 0 + of_nat (phys_addr w mod 4096 + i)" ..
qed

text \<open>
  Every word of a frame that was in use, but for the parts of the heap that were not allocated, is as
  before, and frames stay used.
\<close>

definition used_kept :: "nat \<Rightarrow> blocks \<Rightarrow> 'a kmm_scheme \<Rightarrow> 'a kmm_scheme \<Rightarrow> bool" where
  "used_kept a bs s t \<longleftrightarrow> (\<forall>f<ALL_FRAMES. frame_used s f \<longrightarrow> frame_used t f) \<and>
     (\<forall>w<2 ^ 32. 4 dvd w \<longrightarrow> frame_used s (phys_addr w div 4096) \<longrightarrow> w \<notin> heap_gaps a bs \<longrightarrow>
        word_at (kmem t) w = word_at (kmem s) w)"

lemma used_kept_trans:
  assumes "used_kept a bs s t" "used_kept a bs' t u" "heap_gaps a bs' \<subseteq> heap_gaps a bs"
  shows "used_kept a bs s u"
proof -
  have "phys_addr w div 4096 < ALL_FRAMES" if "w < 2 ^ 32" for w using that by (auto simp: phys_addr_def)
  then show ?thesis using assms unfolding used_kept_def by (metis subsetD)
qed

end
