(* ===== verification/User_Proc.thy ===== *)
theory User_Proc
  imports User_Pages Syscall
begin

text \<open>
  Correctness of \<^verbatim>\<open>make_user_proc_with_message\<close> as the composition of the frame allocator, temporary
  mappings, \<^verbatim>\<open>create_proc\<close> and \<^verbatim>\<open>proc_map_pages\<close>, of the demo that starts three such processes, and of
  the system call their code makes.
\<close>

section \<open>Frames and temporary mappings\<close>

lemma high_frame_addr:
  assumes "high_frame c"
  shows "frame_addr c \<noteq> 0" "KERN_IDENTITY_PHYS_END \<le> frame_addr c" "frame_addr c mod PAGE_SIZE = 0" "unat (frame_addr c) = 4096 * c"
proof -
  show u: "unat (frame_addr c) = 4096 * c" using assms unat_frame_addr [of c] by (simp add: high_frame_def)
  show "frame_addr c \<noteq> 0" using u assms by (auto simp: high_frame_def)
  show "KERN_IDENTITY_PHYS_END \<le> frame_addr c" using u assms by (simp add: identity_end word_le_nat_alt high_frame_def)
  show "frame_addr c mod PAGE_SIZE = 0" using u by (simp add: word_unat_eq_iff unat_mod PAGE_SIZE_def)
qed

lemma alloc_two:
  assumes "first_fit s LOW_FRAMES ALL_FRAMES 4 = Some g"
  obtains c e h s1 s2 where "alloc_pages PMM_FLAGS_HIGHMEM 1 s = Some (frame_addr c, s1)"
    "alloc_pages PMM_FLAGS_HIGHMEM 1 s1 = Some (frame_addr e, s2)" "high_frame c" "high_frame e" "c \<noteq> e"
    "\<not> frame_used s c" "\<not> frame_used s e" "s2 = s\<lparr>framemap := framemap s2\<rparr>"
    "\<forall>f<ALL_FRAMES. frame_used s2 f \<longleftrightarrow> f = c \<or> f = e \<or> frame_used s f" "first_fit s2 LOW_FRAMES ALL_FRAMES 2 = Some h"
proof -
  have g: "LOW_FRAMES \<le> g" "g + 4 \<le> ALL_FRAMES" "\<And>i. i < 4 \<Longrightarrow> \<not> frame_used s (g + i)"
    using assms by (auto simp: first_fit_Some free_run_def)
  have "\<not> frame_used s g" "\<not> frame_used s (g + 1)" using g(3) [of 0] g(3) [of 1] by simp_all
  then have "first_fit s LOW_FRAMES ALL_FRAMES 1 \<noteq> None" using g by (auto simp: first_fit_None free_run_def)
  then obtain c where c: "first_fit s LOW_FRAMES ALL_FRAMES 1 = Some c" by blast
  then have c': "high_frame c" "\<not> frame_used s c" "c \<le> g"
    using g(1,2) \<open>\<not> frame_used s g\<close> by (auto simp: first_fit_Some free_run_def high_frame_def not_less)
  obtain s1 where s1: "alloc_pages PMM_FLAGS_HIGHMEM 1 s = Some (frame_addr c, s1)" "marked s s1 c 1"
    using alloc_high_hit [of s 1 c] c by auto
  have u1: "frame_used s1 f \<longleftrightarrow> f = c \<or> frame_used s f" if "f < ALL_FRAMES" for f using marked_used [OF s1(2) that] by auto
  obtain f where f: "f \<le> g + 1" "LOW_FRAMES \<le> f" "\<not> frame_used s1 f"
  proof (cases "c = g")
    case True
    then show ?thesis using that [of "g + 1"] u1 [of "g + 1"] g \<open>\<not> frame_used s (g + 1)\<close> by simp
  next
    case False
    then show ?thesis using that [of g] u1 [of g] g \<open>\<not> frame_used s g\<close> by simp
  qed
  then have "first_fit s1 LOW_FRAMES ALL_FRAMES 1 \<noteq> None" using g(2) by (auto simp: first_fit_None free_run_def)
  then obtain e where e: "first_fit s1 LOW_FRAMES ALL_FRAMES 1 = Some e" by blast
  then have e': "LOW_FRAMES \<le> e" "e < ALL_FRAMES" "\<not> frame_used s1 e" "e \<le> g + 1"
    using f by (auto simp: first_fit_Some free_run_def not_less)
  obtain s2 where s2: "alloc_pages PMM_FLAGS_HIGHMEM 1 s1 = Some (frame_addr e, s2)" "marked s1 s2 e 1"
    using alloc_high_hit [of s1 1 e] e by auto
  have u2: "frame_used s2 f \<longleftrightarrow> f = c \<or> f = e \<or> frame_used s f" if "f < ALL_FRAMES" for f
    using marked_used [OF s2(2) that] u1 [OF that] by auto
  have "free_run s2 (g + 2) 2"
    using g u2 [of "g + 2"] u2 [of "g + 3"] g(3) [of 2] g(3) [of 3] c'(3) e'(4)
    by (auto simp: free_run_def numeral_2_eq_2 numeral_3_eq_3 less_Suc_eq)
  then have "first_fit s2 LOW_FRAMES ALL_FRAMES 2 \<noteq> None" using g(1,2) by (auto simp: first_fit_None intro: exI [of _ "Suc (Suc g)"])
  then obtain h where h: "first_fit s2 LOW_FRAMES ALL_FRAMES 2 = Some h" by blast
  have "s2 = s\<lparr>framemap := framemap s2\<rparr>" using s1(2) s2(2) unfolding marked_def by (metis pmm.update_convs(1) pmm.surjective)
  then show ?thesis using that [OF s1(1) s2(1) c'(1) _ _ c'(2) _ _ _ h] e' u1 u2 by (auto simp: high_frame_def)
qed

text \<open>Two free slots for temporary mappings.\<close>

definition two_slots :: "nat \<Rightarrow> mem \<Rightarrow> bool" where
  "two_slots T m \<longleftrightarrow> (\<exists>k l. LOW_FRAMES \<le> k \<and> k < l \<and> l < 0x40000 \<and> word_at m (T + 4 * k) = 0 \<and> word_at m (T + 4 * l) = 0)"

text \<open>The memory with slots \<open>k\<close> and \<open>l\<close> of the high window set.\<close>

definition slots_set :: "nat \<Rightarrow> nat \<Rightarrow> u32 \<Rightarrow> nat \<Rightarrow> u32 \<Rightarrow> mem \<Rightarrow> mem" where
  "slots_set T k v l v' m = store32 (store32 m (of_nat (T + 4 * k)) v) (of_nat (T + 4 * l)) v'"

lemma mapped_atI:
  assumes "mapped_kernel D T D s" "high_frame c" "LOW_FRAMES \<le> k" "k < 0x40000"
    "translate s (of_nat (0xC0000000 + 4096 * k) + frame_addr c mod PAGE_SIZE) = Some (frame_addr c)"
  shows "mapped_at D T (of_nat (0xC0000000 + 4096 * k)) c s" "window_page (of_nat (0xC0000000 + 4096 * k)) = k"
    "(of_nat (0xC0000000 + 4096 * k) :: u32) \<noteq> 0"
proof -
  note a = slot_address [OF assms(3,4), of "frame_addr c", unfolded high_frame_addr(3) [OF assms(2)] add_0_right]
  note m = high_frame_addr(3) [OF assms(2), unfolded PAGE_SIZE_def]
  show "window_page (of_nat (0xC0000000 + 4096 * k)) = k" by (rule a(2))
  have u: "0xC0000000 \<le> unat (of_nat (0xC0000000 + 4096 * k) :: u32)" unfolding a(1) by simp
  then show "(of_nat (0xC0000000 + 4096 * k) :: u32) \<noteq> 0" by (metis not_numeral_le_zero unsigned_0)
  show "mapped_at D T (of_nat (0xC0000000 + 4096 * k)) c s"
    using assms(1,2,5) u a(4) m high_frame_addr(3) [OF assms(2)] by (simp add: mapped_at_def)
qed

lemma map_two:
  assumes "mapped_kernel D T D s" "two_slots T (kmem s)" "high_frame c" "high_frame e"
  obtains k l cp dp s1 s2 where "kmap (frame_addr c) s = (cp, s1)" "kmap (frame_addr e) s1 = (dp, s2)"
    "LOW_FRAMES \<le> k" "k < 0x40000" "LOW_FRAMES \<le> l" "l < 0x40000" "k \<noteq> l"
    "word_at (kmem s) (T + 4 * k) = 0" "word_at (kmem s) (T + 4 * l) = 0" "window_page cp = k" "window_page dp = l"
    "mapped_at D T cp c s2" "mapped_at D T dp e s2" "cp \<noteq> 0" "dp \<noteq> 0"
    "s2 = s\<lparr>kmem := slots_set T k (slot_word (frame_addr c)) l (slot_word (frame_addr e)) (kmem s)\<rparr>"
proof -
  have lay: "kernel_layout D T" using assms(1) by (simp add: mapped_kernel_def kernel_paging_def)
  note hc = high_frame_addr [OF assms(3)] and he = high_frame_addr [OF assms(4)]
  obtain cp s1 where 1: "kmap (frame_addr c) s = (cp, s1)" by (cases "kmap (frame_addr c) s")
  obtain dp s2 where 2: "kmap (frame_addr e) s1 = (dp, s2)" by (cases "kmap (frame_addr e) s1")
  obtain x y where xy: "LOW_FRAMES \<le> x" "x < y" "y < 0x40000" "word_at (kmem s) (T + 4 * x) = 0" "word_at (kmem s) (T + 4 * y) = 0"
    using assms(2) by (auto simp: two_slots_def)
  have f: "free_slot T (kmem s) \<noteq> None" using xy by (intro free_slotI [of x]) simp_all
  obtain k where k: "LOW_FRAMES \<le> k" "k < 0x40000" "word_at (kmem s) (T + 4 * k) = 0"
    "cp = of_nat (0xC0000000 + 4096 * k) + frame_addr c mod PAGE_SIZE"
    "s1 = s\<lparr>kmem := store32 (kmem s) (of_nat (T + 4 * k)) (slot_word (frame_addr c))\<rparr>"
    using kmap_slot [OF assms(1) f hc(2) 1] .
  have w1: "word_at (kmem s1) (T + 4 * j) = (if j = k then slot_word (frame_addr c) else word_at (kmem s) (T + 4 * j))" if "j < 0x40000" for j
    unfolding k(5) using word_at_slot [OF lay k(2) layout_page [OF lay that]] by simp
  have "free_slot T (kmem s1) \<noteq> None"
  proof (cases "x = k")
    case True
    then show ?thesis using xy w1 [of y] by (intro free_slotI [of y]) simp_all
  next
    case False
    then show ?thesis using xy w1 [of x] by (intro free_slotI [of x]) simp_all
  qed
  note f1 = this
  note m1 = kernel_maps.map_valid [OF assms(1) f hc(2) 1]
  obtain l where l: "LOW_FRAMES \<le> l" "l < 0x40000" "word_at (kmem s1) (T + 4 * l) = 0"
    "dp = of_nat (0xC0000000 + 4096 * l) + frame_addr e mod PAGE_SIZE"
    "s2 = s1\<lparr>kmem := store32 (kmem s1) (of_nat (T + 4 * l)) (slot_word (frame_addr e))\<rparr>"
    using kmap_slot [OF m1 f1 he(2) 2] .
  have "slot_word (frame_addr c) \<noteq> 0" using slot_word_entry(1) [of "frame_addr c"] by (auto simp: entry_present_def)
  then have kl: "k \<noteq> l" "word_at (kmem s) (T + 4 * l) = 0" using l(3) w1 [OF l(2)] by (auto split: if_splits)
  note tr = kernel_maps.two_mappings [OF assms(1) f hc(2) 1 f1 he(2) 2]
  note m2 = kernel_maps.map_valid [OF m1 f1 he(2) 2]
  have cp: "cp = of_nat (0xC0000000 + 4096 * k)" and dp: "dp = of_nat (0xC0000000 + 4096 * l)" using k(4) l(4) hc(3) he(3) by simp_all
  note pc = mapped_atI [OF m2 assms(3) k(1,2), folded k(4), folded cp] and pd = mapped_atI [OF m2 assms(4) l(1,2), folded l(4), folded dp]
  show ?thesis using tr pc pd k(1-3,5) l(1-3,5) kl by (intro that [OF 1 2, of k l]) (simp_all add: slots_set_def)
qed

lemma slots_set_agree:
  assumes "kernel_layout D T" "k < 0x40000" "l < 0x40000"
  shows "agree {T + 4 * k, T + 4 * l} m (slots_set T k v l v' m)"
proof -
  note p = layout_page [OF assms(1)]
  show ?thesis unfolding slots_set_def
    by (rule agree_mono [OF agree_trans [OF agree_store [OF p [OF assms(2)]] agree_store [OF p [OF assms(3)]]]]) auto
qed

lemma kernel_mem_change:
  assumes "kernel_mem D T a bs s" "agree X (kmem s) (kmem s')"
    and "X \<inter> ({a..<block_end a bs} \<union> {D..<D + 8192} \<union> {T..<T + 4 * LOW_FRAMES}) = {}"
    and "\<And>f. f < ALL_FRAMES \<Longrightarrow> frame_used s f \<Longrightarrow> frame_used s' f" "kernel_directory s' = kernel_directory s"
    and "kheap s' = kheap s" "kheap_header_array s' = kheap_header_array s" "kheap_footer_array s' = kheap_footer_array s"
  shows "kernel_mem D T a bs s'"
proof -
  note inv = assms(1) [unfolded kernel_mem_def]
  have lay: "kernel_layout D T" using inv by (simp add: kernel_paging_def)
  have al: "4 dvd D" "4 dvd T" using lay by (auto simp: kernel_layout_def elim!: dvdE)
  have D: "word_at (kmem s') (D + 4 * i) = word_at (kmem s) (D + 4 * i)" if "i < 2048" for i
  proof (rule agree_word [OF assms(2)])
    have "D + 4 * i \<in> {D..<D + 8192}" using that by auto
    then show "D + 4 * i \<notin> X" using assms(3) by blast
  qed (use al lay that in \<open>auto simp: kernel_layout_def\<close>)
  have T: "word_at (kmem s') (T + 4 * k) = word_at (kmem s) (T + 4 * k)" if "k < LOW_FRAMES" for k
  proof (rule agree_word [OF assms(2)])
    have "T + 4 * k \<in> {T..<T + 4 * LOW_FRAMES}" using that by auto
    then show "T + 4 * k \<notin> X" using assms(3) by blast
  qed (use al lay that in \<open>auto simp: kernel_layout_def\<close>)
  have "heap_inv s' a bs" using assms(3) inv by (intro heap_inv_agree [OF _ assms(2) _ assms(6-8)]) blast+
  moreover have "kernel_paging D T s'" using inv by (intro kernel_paging_words [OF _ assms(5) D T]) blast+
  moreover have "null_reserved s'" using inv assms(4) by (simp add: null_reserved_def)
  moreover have "frame_used s' (word_frame w)" if "in_window w" "frame_used s (word_frame w)" for w
    using that assms(4) by (auto simp: in_window_def word_frame_def)
  moreover have "\<forall>i<768. entry_frame (word_at (kmem s') (D + 4 * i)) = 0" using inv D by simp
  ultimately show ?thesis unfolding kernel_mem_def using inv by blast
qed

lemma slots_apart:
  assumes "kernel_mem D T a bs s" "LOW_FRAMES \<le> k" "k < 0x40000" "LOW_FRAMES \<le> l" "l < 0x40000"
  shows "{T + 4 * k, T + 4 * l} \<inter> ({a..<block_end a bs} \<union> {D..<D + 8192} \<union> {T..<T + 4 * LOW_FRAMES}) = {}"
proof -
  have "D + 8192 \<le> T \<or> T + 0x100000 \<le> D" using assms(1) by (simp add: kernel_mem_def kernel_paging_def kernel_layout_def)
  then have "j \<notin> {D..<D + 8192} \<union> {T..<T + 4 * LOW_FRAMES}" if "j \<in> {T + 4 * k, T + 4 * l}" for j using assms(2-) that by auto
  moreover have "{T + 4 * k, T + 4 * l} \<subseteq> {T..<T + 0x100000}" using assms(3,5) by auto
  moreover have "{a..<block_end a bs} \<inter> {T..<T + 0x100000} = {}" using assms(1) unfolding kernel_mem_def by blast
  ultimately show ?thesis by blast
qed

section \<open>The address space of the process\<close>

lemma mapped_one: "mapped a b w 0 (Suc 0) M = M(a \<mapsto> (b, w))"
  by (auto simp: mapped_def fun_eq_iff)

lemma map_one_page:
  fixes s :: "'a vmm_scheme"
  assumes "user_space d s" "r \<noteq> 0" "getf r off_page_directory s = KP2V (frame_addr d)" "high_frame c"
    and "unat va + 4096 \<le> 0xC0000000"
  obtains rc u where "proc_map_pages r va (frame_addr c) 1 True s = Some (rc, u)"
    "rc = 0 \<Longrightarrow> space_maps d ((upage (kmem s) d)(unat va div 4096 \<mapsto> (c, True))) s u \<and> mem_only s u"
    "rc \<noteq> 0 \<Longrightarrow> low_memory_full u \<and> space_maps d (upage (kmem s) d) s u"
proof -
  note a = high_frame_addr(4) [OF assms(4)]
  have c: "unat (frame_addr c) + 4096 * unat (1 :: u32) \<le> 2 ^ 32" "unat (frame_addr c) div 4096 = c"
    using assms(4) by (simp_all add: a high_frame_def)
  from proc_map_pages_space [OF assms(1-3) _ _ c(1), of va True] assms(5) obtain rc u k where
    "proc_map_pages r va (frame_addr c) 1 True s = Some (rc, u)"
    "space_maps d (mapped (unat va div 4096) c True 0 k (upage (kmem s) d)) s u"
    "if rc = 0 then k = unat (1 :: u32) \<and> mem_only s u else rc = -1 \<and> k < unat (1 :: u32) \<and> low_memory_full u"
    unfolding c(2) by auto
  then show ?thesis by (intro that [of rc u]) (auto simp: mapped_one)
qed

lemma map_user_pages_ok:
  fixes s :: "'a vmm_scheme"
  assumes "user_space d s" "r \<noteq> 0" "getf r off_page_directory s = KP2V (frame_addr d)" "high_frame c" "high_frame e"
    and "\<And>u. space_step d s u \<Longrightarrow> getf r off_page_directory u = getf r off_page_directory s"
  obtains ok u where "map_user_pages r (frame_addr c) (frame_addr e) s = Some (ok, u)" "\<not> ok \<Longrightarrow> low_memory_full u"
    "\<not> ok \<Longrightarrow> tight_space U d s \<Longrightarrow> tight_space U d u"
    "\<not> ok \<Longrightarrow> \<forall>v. upage (kmem u) d v \<noteq> None \<longrightarrow> upage (kmem s) d v \<noteq> None \<or> v = 0x400"
    "ok \<Longrightarrow> space_maps d ((upage (kmem s) d)(0x400 \<mapsto> (c, True), 0x401 \<mapsto> (e, True))) s u \<and> mem_only s u"
proof -
  have va: "unat USER_TEST_CODE_VA + 4096 \<le> 0xC0000000" "unat USER_TEST_DATA_VA + 4096 \<le> 0xC0000000"
    "unat USER_TEST_CODE_VA div 4096 = 0x400" "unat USER_TEST_DATA_VA div 4096 = 0x401"
    by (simp_all add: USER_TEST_CODE_VA_def USER_TEST_DATA_VA_def)
  have k: "low_memory_full (kprint f as u) = low_memory_full u" "tight_space U d (kprint f as u) = tight_space U d u" for f as and u :: "'a vmm_scheme"
    by (simp_all add: low_memory_full_def frame_used_def tight_space_def used_frames_def)
  obtain rc u where u: "proc_map_pages r USER_TEST_CODE_VA (frame_addr c) 1 True s = Some (rc, u)"
    "rc = 0 \<Longrightarrow> space_maps d ((upage (kmem s) d)(0x400 \<mapsto> (c, True))) s u \<and> mem_only s u"
    "rc \<noteq> 0 \<Longrightarrow> low_memory_full u \<and> space_maps d (upage (kmem s) d) s u"
    using map_one_page [OF assms(1-4) va(1)] unfolding va(3) by blast
  show ?thesis
  proof (cases "rc = 0")
    case False
    then have "\<exists>v. map_user_pages r (frame_addr c) (frame_addr e) s = Some (False, v) \<and> low_memory_full v \<and>
        (tight_space U d s \<longrightarrow> tight_space U d v) \<and> upage (kmem v) d = upage (kmem s) d"
      using u(1) u(3) by (simp add: map_user_pages_def k space_maps_def)
    then show ?thesis using that [of False] by metis
  next
    case True
    then have u': "user_space d u" "space_step d s u" "upage (kmem u) d = (upage (kmem s) d)(0x400 \<mapsto> (c, True))" "mem_only s u"
      using u(2) [OF True] unfolding space_maps_def by blast+
    have "getf r off_page_directory u = KP2V (frame_addr d)" using assms(3) assms(6) [OF u'(2)] by simp
    from map_one_page [OF u'(1) assms(2) this assms(5) va(2)] obtain rc' v where
      v: "proc_map_pages r USER_TEST_DATA_VA (frame_addr e) 1 True u = Some (rc', v)"
      "rc' = 0 \<Longrightarrow> space_maps d ((upage (kmem u) d)(0x401 \<mapsto> (e, True))) u v \<and> mem_only u v"
      "rc' \<noteq> 0 \<Longrightarrow> low_memory_full v \<and> space_maps d (upage (kmem u) d) u v"
      unfolding va(4) by blast
    show ?thesis
    proof (cases "rc' = 0")
      case False
      then have "\<exists>v. map_user_pages r (frame_addr c) (frame_addr e) s = Some (False, v) \<and> low_memory_full v \<and>
          (tight_space U d s \<longrightarrow> tight_space U d v) \<and> upage (kmem v) d = (upage (kmem s) d)(0x400 \<mapsto> (c, True))"
        using u(1) v(1) v(3) True u'(3) u(2) [OF True] by (simp add: map_user_pages_def k space_maps_def)
      then show ?thesis using that [of False] by (metis fun_upd_apply)
    next
      case t: True
      then have "space_maps d ((upage (kmem s) d)(0x400 \<mapsto> (c, True), 0x401 \<mapsto> (e, True))) s v" "mem_only s v"
        using v(2) u' u(2) [OF True] space_step_trans [of d s u v] mem_only_trans [of s u v] by (auto simp: space_maps_def)
      then show ?thesis using u(1) v(1) True t by (intro that [of True v]) (simp_all add: map_user_pages_def)
    qed
  qed
qed

text \<open>The pages of the process: code, data and the two pages of the stack.\<close>

definition user_pages :: "nat \<Rightarrow> nat \<Rightarrow> nat \<Rightarrow> nat \<Rightarrow> (nat \<times> bool) option" where
  "user_pages c e h v =
     (if v = 0x400 then Some (c, True) else if v = 0x401 then Some (e, True)
      else if 0xBFFFE \<le> v \<and> v < 0xC0000 then Some (h + (v - 0xBFFFE), True) else None)"

text \<open>
  A process that is ready to print \<open>msg\<close>: it resumes in user mode at its code with interrupts enabled,
  with its own stacks and directory, whose user part maps exactly its four pages and whose kernel part is \<open>K\<close>; user code
  finds the program and the message in its pages.
\<close>

definition message_process ::
    "string \<Rightarrow> u32 \<Rightarrow> u32 \<Rightarrow> nat \<Rightarrow> nat \<Rightarrow> nat \<Rightarrow> nat \<Rightarrow> nat \<Rightarrow> (nat \<Rightarrow> u32) \<Rightarrow> 'a kmm_scheme \<Rightarrow> bool" where
  "message_process msg r pid ks d c e h K t \<longleftrightarrow>
     getf r off_pid t = pid \<and> getf r off_procstate t = procstate_val PROC_RUNNING \<and>
     getf r off_page_directory t = KP2V (frame_addr d) \<and> getf r off_cr3 t = frame_addr d \<and>
     getf r off_kstack_base t = of_nat ks \<and> getf r off_kstack_top t = of_nat ks + 8192 \<and>
     (\<exists>flags. iret_jump_user (r + off_context) t =
       \<lparr>u_eip = USER_TEST_CODE_VA, u_cs = 0x1B, u_eflags = flags, u_esp = 0xBFFFFFE0, u_ss = 0x23\<rparr> \<and> bit flags 9) \<and>
     user_space d t \<and> upage (kmem t) d = user_pages c e h \<and> (\<forall>j<1024. 768 \<le> j \<longrightarrow> fword (kmem t) d j = K j) \<and>
     (\<forall>i<4096. user_byte (kmem t) (KP2V (frame_addr d)) (USER_TEST_CODE_VA + of_nat i) = Some (code_page msg ! i)) \<and>
     (\<forall>i<4096. user_byte (kmem t) (KP2V (frame_addr d)) (USER_TEST_DATA_VA + of_nat i) = Some (data_page msg ! i))"

lemma framemap_kunmap [simp]: "framemap (kunmap va s) = framemap s"
  by (simp add: kunmap_def Let_def upd_word_def)

lemma low_full_kunmap [simp]: "low_memory_full (kunmap va s) = low_memory_full s"
  by (simp add: low_memory_full_def frame_used_def)

section \<open>Building the process\<close>

text \<open>
  \<open>t\<close> has the pages of the program: frames \<open>c\<close> and \<open>e\<close>, free in \<open>s\<close>, are marked and filled and are mapped
  through slots \<open>k\<close> and \<open>l\<close>; nothing else has changed.
\<close>

definition slots_ok :: "nat \<Rightarrow> nat \<Rightarrow> nat \<Rightarrow> mem \<Rightarrow> bool" where
  "slots_ok T k l m \<longleftrightarrow> LOW_FRAMES \<le> k \<and> k < 0x40000 \<and> LOW_FRAMES \<le> l \<and> l < 0x40000 \<and> k \<noteq> l \<and>
     word_at m (T + 4 * k) = 0 \<and> word_at m (T + 4 * l) = 0"

definition pages_ready :: "nat \<Rightarrow> nat \<Rightarrow> nat \<Rightarrow> nat \<Rightarrow> nat \<Rightarrow> string \<Rightarrow> 'a kmm_scheme \<Rightarrow> 'a kmm_scheme \<Rightarrow> bool" where
  "pages_ready T k l c e msg s t \<longleftrightarrow> t = s\<lparr>framemap := framemap t, kmem := kmem t\<rparr> \<and>
     slots_ok T k l (kmem s) \<and> high_frame c \<and> high_frame e \<and> c \<noteq> e \<and> \<not> frame_used s c \<and> \<not> frame_used s e \<and>
     (\<forall>f<ALL_FRAMES. frame_used t f \<longleftrightarrow> f = c \<or> f = e \<or> frame_used s f) \<and>
     frame_holds (kmem t) c (code_page msg) \<and> frame_holds (kmem t) e (data_page msg) \<and>
     agree ({w. \<not> in_window w} \<union> {T + 4 * k, T + 4 * l}) (kmem s) (kmem t) \<and>
     agree ({w. phys_addr w div 4096 \<in> {c, e}} \<union> {T + 4 * k, T + 4 * l}) (kmem s) (kmem t)"

lemma same_frames_agree:
  assumes "\<forall>g i. g < ALL_FRAMES \<and> i < 4096 \<and> g \<noteq> c \<and> g \<noteq> e \<longrightarrow> m' (fptr g 0 + of_nat i) = m (fptr g 0 + of_nat i)"
  shows "agree {w. phys_addr w div 4096 \<in> {c, e}} m m'"
  unfolding agree_def
proof (intro allI impI)
  fix w :: nat assume w: "4 dvd w" "w < 2 ^ 32" "w \<notin> {w. phys_addr w div 4096 \<in> {c, e}}"
  have "m' (of_nat (w + i)) = m (of_nat (w + i))" if i: "i < 4" for i
    unfolding phys_addr_byte(3) [OF w(2,1) i] using phys_addr_byte(1,2) [OF w(2,1) i] w(3) by (intro assms [rule_format]) auto
  from this [of 0] this [of 1] this [of 2] this [of 3] show "word_at m' w = word_at m w"
    by (simp add: word_at_def load32_def add.commute)
qed

lemma build_pages:
  fixes s :: "'a vmm_scheme"
  assumes mem: "kernel_mem D T a bs s" and cr3: "cr3 s = KV2P (of_nat D)" and slots: "two_slots T (kmem s)"
    and frames: "first_fit s LOW_FRAMES ALL_FRAMES 4 = Some g" and msg: "length msg < 4096"
  obtains c e h k l cp dp s1 s2 s3 s4 t where "alloc_pages PMM_FLAGS_HIGHMEM 1 s = Some (frame_addr c, s1)"
    "alloc_pages PMM_FLAGS_HIGHMEM 1 s1 = Some (frame_addr e, s2)" "kmap (frame_addr c) s2 = (cp, s3)"
    "kmap (frame_addr e) s3 = (dp, s4)" "fill_user_pages cp dp msg s4 = Some t" "cp \<noteq> 0" "dp \<noteq> 0"
    "window_page cp = k" "window_page dp = l" "0xC0000000 \<le> unat cp" "0xC0000000 \<le> unat dp"
    "first_fit t LOW_FRAMES ALL_FRAMES 2 = Some h" "pages_ready T k l c e msg s t"
proof -
  obtain c e h s1 s2 where al: "alloc_pages PMM_FLAGS_HIGHMEM 1 s = Some (frame_addr c, s1)"
    "alloc_pages PMM_FLAGS_HIGHMEM 1 s1 = Some (frame_addr e, s2)" "high_frame c" "high_frame e" "c \<noteq> e"
    "\<not> frame_used s c" "\<not> frame_used s e" "s2 = s\<lparr>framemap := framemap s2\<rparr>"
    "\<forall>f<ALL_FRAMES. frame_used s2 f \<longleftrightarrow> f = c \<or> f = e \<or> frame_used s f" "first_fit s2 LOW_FRAMES ALL_FRAMES 2 = Some h"
    using alloc_two [OF frames] .
  define fm where "fm = framemap s2"
  have s2: "s2 = s\<lparr>framemap := fm\<rparr>" using al(8) by (simp only: fm_def)
  have "kernel_paging D T s" "kernel_layout D T" using mem by (simp_all add: kernel_mem_def kernel_paging_def)
  then have mk: "mapped_kernel D T D s2" using cr3 unfolding s2 by (intro mapped_kernelI) (simp_all add: kernel_paging_def)
  have sl: "two_slots T (kmem s2)" using slots by (simp add: s2)
  obtain k l cp dp s3 s4 where kl: "kmap (frame_addr c) s2 = (cp, s3)" "kmap (frame_addr e) s3 = (dp, s4)"
    "LOW_FRAMES \<le> k" "k < 0x40000" "LOW_FRAMES \<le> l" "l < 0x40000" "k \<noteq> l"
    "word_at (kmem s2) (T + 4 * k) = 0" "word_at (kmem s2) (T + 4 * l) = 0" "window_page cp = k" "window_page dp = l"
    "mapped_at D T cp c s4" "mapped_at D T dp e s4" "cp \<noteq> 0" "dp \<noteq> 0"
    "s4 = s2\<lparr>kmem := slots_set T k (slot_word (frame_addr c)) l (slot_word (frame_addr e)) (kmem s2)\<rparr>"
    using map_two [OF mk sl al(3,4)] .
  obtain m where m: "fill_user_pages cp dp msg s4 = Some (s4\<lparr>kmem := m\<rparr>)" "agree {w. \<not> in_window w} (kmem s4) m"
    "frame_holds m c (code_page msg)" "frame_holds m e (data_page msg)"
    "\<forall>g i. g < ALL_FRAMES \<and> i < 4096 \<and> g \<noteq> c \<and> g \<noteq> e \<longrightarrow> m (fptr g 0 + of_nat i) = kmem s4 (fptr g 0 + of_nat i)"
    using fill_user_pages_ok [OF kl(12,13) al(5) msg] .
  define t where "t = s4\<lparr>kmem := m\<rparr>"
  have t: "t = s\<lparr>framemap := fm, kmem := m\<rparr>" by (simp add: t_def kl(16) s2)
  have s4: "agree {T + 4 * k, T + 4 * l} (kmem s) (kmem s4)"
    using slots_set_agree [OF \<open>kernel_layout D T\<close> kl(4,6)] by (simp add: kl(16) s2)
  have ag: "agree ({w. \<not> in_window w} \<union> {T + 4 * k, T + 4 * l}) (kmem s) m"
    "agree ({w. phys_addr w div 4096 \<in> {c, e}} \<union> {T + 4 * k, T + 4 * l}) (kmem s) m"
    using agree_trans [OF s4 m(2)] agree_trans [OF s4 same_frames_agree [OF m(5)]] by (simp_all add: Un_commute)
  have used: "frame_used t f = frame_used s2 f" for f by (simp add: t s2 frame_used_def)
  have "pages_ready T k l c e msg s t"
    unfolding pages_ready_def slots_ok_def using kl(3-9) al(3-7,9) m(3,4) ag by (simp add: used) (simp add: t s2)
  moreover have "first_fit t LOW_FRAMES ALL_FRAMES 2 = Some h" using al(10) first_fit_cong [of t s2] by (simp add: t s2)
  moreover have "0xC0000000 \<le> unat cp" "0xC0000000 \<le> unat dp" using kl(12,13) by (simp_all add: mapped_at_def)
  ultimately show ?thesis using that [OF al(1,2) kl(1,2) m(1) kl(14,15,10,11)] by (simp flip: t_def)
qed

lemma pages_ready_fields:
  fixes s t :: "'a procs_scheme"
  assumes "pages_ready T k l c e msg s t"
  shows "kernel_directory t = kernel_directory s" "cr3 t = cr3 s" "proc_list t = proc_list s" "current_proc t = current_proc s"
    "pid_ctr t = pid_ctr s" "kheap t = kheap s" "kheap_header_array t = kheap_header_array s" "kheap_footer_array t = kheap_footer_array s"
    "interrupt_handlers t = interrupt_handlers s" "procs.more t = procs.more s"
proof -
  obtain fm m where t: "t = s\<lparr>framemap := fm, kmem := m\<rparr>" using assms unfolding pages_ready_def by metis
  show "kernel_directory t = kernel_directory s" "cr3 t = cr3 s" "proc_list t = proc_list s" "current_proc t = current_proc s"
    "pid_ctr t = pid_ctr s" "kheap t = kheap s" "kheap_header_array t = kheap_header_array s" "kheap_footer_array t = kheap_footer_array s"
    "interrupt_handlers t = interrupt_handlers s" "procs.more t = procs.more s"
    unfolding t by simp_all
qed

text \<open>The invariants carry over.\<close>

lemma pages_ready_mem:
  fixes s t :: "'a procs_scheme"
  assumes "kernel_mem D T a bs s" "pages_ready T k l c e msg s t"
  shows "kernel_mem D T a bs t"
    "agree ({w. \<not> in_window w} \<union> {T + 4 * k, T + 4 * l}) (kmem s) (kmem t)"
    "({w. \<not> in_window w} \<union> {T + 4 * k, T + 4 * l}) \<inter> ({a..<block_end a bs} \<union> {D..<D + 8192} \<union> {T..<T + 4 * LOW_FRAMES}) = {}"
proof -
  note f = pages_ready_fields [OF assms(2)] and p = assms(2) [unfolded pages_ready_def slots_ok_def]
  show ag: "agree ({w. \<not> in_window w} \<union> {T + 4 * k, T + 4 * l}) (kmem s) (kmem t)" using p by blast
  have "{T..<T + 4 * LOW_FRAMES} \<subseteq> {T..<T + 0x100000}" by auto
  then have "{w. \<not> in_window w} \<inter> ({a..<block_end a bs} \<union> {D..<D + 8192} \<union> {T..<T + 4 * LOW_FRAMES}) = {}"
    using kernel_mem_frames [OF assms(1)] by blast
  moreover have "{T + 4 * k, T + 4 * l} \<inter> ({a..<block_end a bs} \<union> {D..<D + 8192} \<union> {T..<T + 4 * LOW_FRAMES}) = {}"
    using p by (intro slots_apart [OF assms(1)]) simp_all
  ultimately show dj: "({w. \<not> in_window w} \<union> {T + 4 * k, T + 4 * l}) \<inter>
      ({a..<block_end a bs} \<union> {D..<D + 8192} \<union> {T..<T + 4 * LOW_FRAMES}) = {}" by blast
  show "kernel_mem D T a bs t" using p by (intro kernel_mem_change [OF assms(1) ag dj _ f(1,6-8)]) simp_all
qed

lemma getf_live:
  fixes s t :: "'a procs_scheme"
  assumes "sched_inv s" "procs_allocated a bs s" "agree X (kmem s) (kmem t)" "X \<inter> {a..<block_end a bs} = {}"
    and "p \<in> live_procs s" "4 dvd unat x" "unat x < 104"
  shows "getf p x t = getf p x s"
proof -
  have p: "proc_ok p" "struct_words (unat p) \<subseteq> used_payload a bs" using assms(1,2,5) by (auto simp: sched_inv_def procs_allocated_def)
  then have "struct_words (unat p) \<inter> X = {}" using assms(4) used_payload_bounds by fastforce
  then show ?thesis using getf_agree [OF assms(3), of "unat p" x] p(1) assms(6,7) by (simp add: proc_ok_def)
qed

lemma find_slot_same:
  fixes s t :: "'a procs_scheme"
  assumes "sched_inv s" "procs_allocated a bs s" "agree X (kmem s) (kmem t)" "X \<inter> {a..<block_end a bs} = {}" "proc_list t = proc_list s"
  shows "find_slot t = find_slot s"
proof -
  have "slot_free i t = slot_free i s" if "i \<in> set [1..<MAXPROC]" for i
  proof (cases "proc_list s ! i = 0")
    case False
    moreover have "i < length (proc_list s)" using that assms(1) by (simp add: sched_inv_def)
    ultimately have "proc_list s ! i \<in> live_procs s" by (simp add: live_procs_def)
    then show ?thesis using getf_live [OF assms(1-4), of "proc_list s ! i" off_procstate] assms(5)
      by (simp add: slot_free_def struct_offsets)
  qed (simp add: slot_free_def assms(5))
  then show ?thesis unfolding find_slot_def by (intro find_cong) simp_all
qed

lemma unmap_two:
  assumes "kernel_paging D T v" "0xC0000000 \<le> unat cp" "0xC0000000 \<le> unat dp" "LOW_FRAMES \<le> window_page cp"
  shows "kunmap dp (kunmap cp v) = v\<lparr>kmem := slots_set T (window_page cp) 0 (window_page dp) 0 (kmem v)\<rparr>"
proof -
  have "kernel_paging D T (kunmap cp v)"
    using paging_slot [OF assms(1,4) window_page_less] kunmap_slot [OF assms(1,2)] by simp
  from kunmap_slot [OF this assms(3)] kunmap_slot [OF assms(1,2)] show ?thesis by (simp add: slots_set_def)
qed

lemma slots_set_words:
  assumes "kernel_layout D T" "k < 0x40000" "l < 0x40000" "j < 0x40000"
  shows "word_at (slots_set T k v l v' m) (T + 4 * j) = (if j = l then v' else if j = k then v else word_at m (T + 4 * j))"
  using word_at_slot [OF assms(1,3) layout_page [OF assms(1,4)]] word_at_slot [OF assms(1,2) layout_page [OF assms(1,4)]]
  by (simp add: slots_set_def)

lemma space_agree:
  assumes "user_space d v" "agree X (kmem v) (kmem w)" "framemap w = framemap v"
    and "\<And>x. x \<in> X \<Longrightarrow> in_window x \<and> word_frame x \<notin> space_frames (kmem v) d"
  shows "user_space d w" "upage (kmem w) d = upage (kmem v) d" "j < 1024 \<Longrightarrow> fword (kmem w) d j = fword (kmem v) d j"
    "tight_space U d v \<Longrightarrow> tight_space U d w" "space_frames (kmem w) d = space_frames (kmem v) d"
proof -
  have f: "fword (kmem w) g k = fword (kmem v) g k" if "g \<in> space_frames (kmem v) d" "g < LOW_FRAMES" "k < 1024" for g k
  proof (rule fword_agree [OF assms(2) that(2,3)])
    have "word_frame (0xC0000000 + 4096 * g + 4 * k) = g" using that(3) by (simp add: word_frame_def)
    then show "0xC0000000 + 4096 * g + 4 * k \<notin> X" using assms(4) that(1) by metis
  qed
  have u: "frame_used w g" if "frame_used v g" for g using that assms(3) by (simp add: frame_used_def)
  show "user_space d w" "upage (kmem w) d = upage (kmem v) d" "tight_space U d v \<Longrightarrow> tight_space U d w"
    "space_frames (kmem w) d = space_frames (kmem v) d"
    using space_unchanged [OF assms(1) u f] assms(3) by blast+
  show "j < 1024 \<Longrightarrow> fword (kmem w) d j = fword (kmem v) d j"
    using f [of d j] user_space_bounds [OF assms(1)] by (simp add: space_frames_def)
qed

text \<open>Mapping the pages into the new directory and removing the temporary mappings.\<close>

lemma finish_mappings:
  fixes t u v :: "'a procs_scheme"
  assumes mem: "kernel_mem D T a bs t" "kernel_mem D T a bs2 u" "block_end a bs2 = block_end a bs" and kept: "kept a bs t u"
    and space: "stack_space d h PAGE_SIZE t u" and fields: "mem_only u v"
    and maps: "space_maps d ((upage (kmem u) d)(0x400 \<mapsto> (c, True), 0x401 \<mapsto> (e, True))) u v"
    and ptrs: "0xC0000000 \<le> unat cp" "0xC0000000 \<le> unat dp" "LOW_FRAMES \<le> window_page cp" "LOW_FRAMES \<le> window_page dp"
  defines "w \<equiv> kunmap dp (kunmap cp v)" and "S \<equiv> {T + 4 * window_page cp, T + 4 * window_page dp}"
    and "Y \<equiv> {x. in_window x \<and> \<not> frame_used t (word_frame x)}"
  shows "kernel_mem D T a bs2 w" "agree (Y \<union> S) (kmem u) (kmem w)" "(Y \<union> S) \<inter> {a..<block_end a bs2} = {}"
    "user_space d w" "upage (kmem w) d = user_pages c e h" "\<And>j. j < 1024 \<Longrightarrow> 768 \<le> j \<Longrightarrow> fword (kmem w) d j = fword (kmem u) d j"
    "\<And>f. f < ALL_FRAMES \<Longrightarrow> frame_used u f \<Longrightarrow> frame_used w f"
    "w = u\<lparr>framemap := framemap w, kmem := kmem w\<rparr>" "word_at (kmem w) (T + 4 * window_page cp) = 0" "word_at (kmem w) (T + 4 * window_page dp) = 0"
    "tight_space (used_frames t \<union> {h, Suc h}) d w" "\<forall>g\<in>space_frames (kmem w) d. \<not> frame_used t g"
proof -
  have lay: "kernel_layout D T" using mem(1) by (simp add: kernel_mem_def kernel_paging_def)
  have st: "user_space d v" "space_step d u v" "upage (kmem v) d = (upage (kmem u) d)(0x400 \<mapsto> (c, True), 0x401 \<mapsto> (e, True))"
    using maps by (simp_all add: space_maps_def)
  have fresh: "frame_used u g \<and> g \<notin> space_frames (kmem u) d" if "g < LOW_FRAMES" "frame_used t g" for g
    using that space kept unfolding stack_space_def kept_def by auto
  note Y = space_step_fresh [where s = t, OF st(2) fresh, folded Y_def]
  have dis: "Y \<inter> ({a..<block_end a bs2} \<union> {D..<D + 8192} \<union> {T..<T + 4 * LOW_FRAMES}) = {}"
  proof -
    have "{T..<T + 4 * LOW_FRAMES} \<subseteq> {T..<T + 0x100000}" by auto
    then show ?thesis using kernel_mem_frames [OF mem(1)] unfolding Y_def mem(3) by blast
  qed
  obtain fm m where v: "v = u\<lparr>framemap := fm, kmem := m\<rparr>" using fields unfolding mem_only_def by metis
  have used: "frame_used v f" if "f < ALL_FRAMES" "frame_used u f" for f using st(2) that by (simp add: space_step_def)
  have kv: "kernel_mem D T a bs2 v" by (rule kernel_mem_change [OF mem(2) Y(1) dis used]) (simp_all add: v)
  then have "kernel_paging D T v" by (simp add: kernel_mem_def)
  from unmap_two [OF this ptrs(1-3)] have w: "w = v\<lparr>kmem := slots_set T (window_page cp) 0 (window_page dp) 0 (kmem v)\<rparr>" by (simp add: w_def)
  have S: "agree S (kmem v) (kmem w)" unfolding w S_def using slots_set_agree [OF lay window_page_less window_page_less] by simp
  have dS: "S \<inter> ({a..<block_end a bs2} \<union> {D..<D + 8192} \<union> {T..<T + 4 * LOW_FRAMES}) = {}"
    unfolding S_def using slots_apart [OF kv ptrs(3) window_page_less ptrs(4) window_page_less] .
  show "kernel_mem D T a bs2 w" by (rule kernel_mem_change [OF kv S dS]) (simp_all add: w frame_used_def)
  show "agree (Y \<union> S) (kmem u) (kmem w)" using agree_trans [OF Y(1) S] .
  show "(Y \<union> S) \<inter> {a..<block_end a bs2} = {}" using dis dS by blast
  show "frame_used w f" if "f < ALL_FRAMES" "frame_used u f" for f using used [OF that] by (simp add: w frame_used_def)
  show "w = u\<lparr>framemap := framemap w, kmem := kmem w\<rparr>" by (simp add: w v)
  show "word_at (kmem w) (T + 4 * window_page cp) = 0" "word_at (kmem w) (T + 4 * window_page dp) = 0"
    using slots_set_words [OF lay window_page_less window_page_less window_page_less] by (simp_all add: w)
  have "in_window x \<and> word_frame x \<notin> space_frames (kmem v) d" if "x \<in> S" for x
  proof -
    have "x \<in> {T..<T + 0x100000}" using that window_page_less [of cp] window_page_less [of dp] by (auto simp: S_def)
    then have x: "in_window x" "frame_used t (word_frame x)" using kernel_mem_frames(3) [OF mem(1)] by blast+
    then have "word_frame x < LOW_FRAMES" by (auto simp: in_window_def word_frame_def)
    then show ?thesis using Y(2) x by blast
  qed
  note sp = space_agree [OF st(1) S _ this]
  have fw: "framemap w = framemap v" by (simp add: w)
  show "user_space d w" using sp(1) [OF fw] by blast
  have "stack_pages PAGE_SIZE = 2" by (simp add: stack_pages_def PAGE_SIZE_def)
  then have "upage (kmem u) d = mapped 0xBFFFE h True 0 2 (\<lambda>_. None)" using space by (simp add: stack_space_def)
  then have "upage (kmem v) d = user_pages c e h" unfolding st(3) by (auto simp: user_pages_def mapped_def fun_eq_iff)
  then show "upage (kmem w) d = user_pages c e h" using sp(2) [OF fw] by simp
  show "\<forall>g\<in>space_frames (kmem w) d. \<not> frame_used t g"
  proof
    fix g assume g: "g \<in> space_frames (kmem w) d"
    then have "g \<in> space_frames (kmem v) d" using sp(5) [OF fw] by blast
    moreover from this have "g < LOW_FRAMES" using user_space_bounds [OF st(1)] user_space_table(3) [OF st(1)] by (auto simp: space_frames_def)
    ultimately show "\<not> frame_used t g" using Y(2) by blast
  qed
  have "{h..<h + 2} = {h, Suc h}" by auto
  then have "tight_space (used_frames t \<union> {h, Suc h}) d u" using space \<open>stack_pages PAGE_SIZE = 2\<close> by (simp add: stack_space_def)
  then show "tight_space (used_frames t \<union> {h, Suc h}) d w" using maps sp(4) [OF fw] unfolding space_maps_def by blast
  show "fword (kmem w) d j = fword (kmem u) d j" if "j < 1024" "768 \<le> j" for j
    using sp(3) [OF fw _ that(1)] st(2) that by (simp add: space_step_def)
qed

lemma user_byte_upage:
  assumes "user_space d t" "va < 0xC0000000"
  shows "user_byte (kmem t) (KP2V (frame_addr d)) va =
    map_option (\<lambda>(f, w). kmem t (fptr f 0 + of_nat (unat va mod 4096))) (upage (kmem t) d (unat va div 4096))"
proof -
  have va: "unat va < 0xC0000000" using assms(2) by (simp add: word_less_nat_alt)
  have "walk user_access (kmem t) (frame_addr d) va = map_option fst (user_view (kmem t) (frame_addr d) va)"
    by (simp add: user_view_def option.map_comp comp_def option.map_ident)
  also have "\<dots> = map_option (\<lambda>(f, w). of_nat (4096 * f + unat va mod 4096)) (upage (kmem t) d (unat va div 4096))"
    unfolding user_view_upage [OF assms(1) va] by (cases "upage (kmem t) d (unat va div 4096)") auto
  moreover have "KV2P (KP2V (frame_addr d)) = frame_addr d" by (simp add: KV2P_def KP2V_def)
  moreover have "KP2V (of_nat (4096 * f + j)) = fptr f 0 + of_nat j" for f j by (simp add: KP2V_def fptr_def)
  ultimately show ?thesis using assms(2)
    by (cases "upage (kmem t) d (unat va div 4096)") (auto simp: user_byte_def simp del: of_nat_add of_nat_mult)
qed

lemma user_page_bytes:
  assumes "user_space d t" "upage (kmem t) d v = Some (f, True)" "frame_holds (kmem t) f bs" "length bs = 4096" "v < 0xC0000" "i < 4096"
  shows "user_byte (kmem t) (KP2V (frame_addr d)) (of_nat (4096 * v) + of_nat i) = Some (bs ! i)"
proof -
  have "of_nat (4096 * v) + of_nat i = (of_nat (4096 * v + i) :: u32)" by simp
  moreover have u: "unat (of_nat (4096 * v + i) :: u32) = 4096 * v + i" using assms(5,6) by (intro unat_of_nat_u32) simp
  moreover have "(of_nat (4096 * v + i) :: u32) < 0xC0000000" using assms(5,6) unfolding word_less_nat_alt u by simp
  ultimately show ?thesis using user_byte_upage [OF assms(1), of "of_nat (4096 * v + i)"] assms(2-4,6)
    by (simp add: frame_holds_def)
qed

lemma message_bytes:
  assumes "user_space d t" "upage (kmem t) d = user_pages c e h" "length msg < 4096"
    and "frame_holds (kmem t) c (code_page msg)" "frame_holds (kmem t) e (data_page msg)"
  shows "\<forall>i<4096. user_byte (kmem t) (KP2V (frame_addr d)) (USER_TEST_CODE_VA + of_nat i) = Some (code_page msg ! i)"
    "\<forall>i<4096. user_byte (kmem t) (KP2V (frame_addr d)) (USER_TEST_DATA_VA + of_nat i) = Some (data_page msg ! i)"
  using user_page_bytes [OF assms(1) _ assms(4), of "0x400"] user_page_bytes [OF assms(1) _ assms(5), of "0x401"] assms(2,3) code_length [of msg]
  by (simp_all add: user_pages_def USER_TEST_CODE_VA_def USER_TEST_DATA_VA_def code_page_def data_page_def)

text \<open>What the caller finds when the process is complete.\<close>

lemma built_process:
  fixes s t u v :: "'a procs_scheme"
  assumes mem: "kernel_mem D T a bs s" and ready: "pages_ready T k l c e msg s t" and msg: "length msg < 4096"
    and u: "kernel_mem D T a bs2 u" "sched_inv u" "procs_allocated a bs2 u" "kept a bs t u" "stack_space d h PAGE_SIZE t u"
      "new_process r USER_TEST_CODE_VA PAGE_SIZE prio pid ks d h K u" "r \<in> live_procs u" "block_end a bs2 = block_end a bs"
    and v: "space_maps d ((upage (kmem u) d)(0x400 \<mapsto> (c, True), 0x401 \<mapsto> (e, True))) u v" "mem_only u v"
    and ptrs: "0xC0000000 \<le> unat cp" "0xC0000000 \<le> unat dp" "window_page cp = k" "window_page dp = l"
    and h: "h + 2 \<le> ALL_FRAMES"
  defines "w \<equiv> kunmap dp (kunmap cp v)"
  shows "message_process msg r pid ks d c e h K w" "kernel_mem D T a bs2 w" "sched_inv w" "procs_allocated a bs2 w"
    "used_kept a bs s w" "proc_list w = proc_list u" "cr3 w = cr3 u" "pid_ctr w = pid_ctr u" "current_proc w = current_proc u"
    "\<And>p x. p \<in> live_procs u \<Longrightarrow> 4 dvd unat x \<Longrightarrow> unat x < 104 \<Longrightarrow> getf p x w = getf p x u"
    "tight_space (used_frames s \<union> {c, e, h, Suc h}) d w" "\<forall>f\<in>{c, e, h, Suc h}. frame_used w f"
    "\<forall>g\<in>space_frames (kmem w) d. \<not> frame_used s g" "interrupt_handlers w = interrupt_handlers u" "procs.more w = procs.more u"
proof -
  note rd = ready [unfolded pages_ready_def slots_ok_def]
  have kl: "LOW_FRAMES \<le> window_page cp" "LOW_FRAMES \<le> window_page dp" using rd ptrs(3,4) by simp_all
  note mt = pages_ready_mem(1) [OF mem ready]
  note f = finish_mappings [OF mt u(1,8,4,5) v(2,1) ptrs(1,2) kl, folded w_def, unfolded ptrs(3,4)]
  define Y where "Y = {x. in_window x \<and> \<not> frame_used t (word_frame x)}"
  define S where "S = {T + 4 * k, T + 4 * l}"
  have ag: "agree (Y \<union> S) (kmem u) (kmem w)" "(Y \<union> S) \<inter> {a..<block_end a bs2} = {}" using f(2,3) by (simp_all add: Y_def S_def)
  obtain fm m where w: "w = u\<lparr>framemap := fm, kmem := m\<rparr>" using f(8) by blast
  show eqs: "proc_list w = proc_list u" "cr3 w = cr3 u" "pid_ctr w = pid_ctr u" "current_proc w = current_proc u" by (simp_all add: w)
  show "interrupt_handlers w = interrupt_handlers u" "procs.more w = procs.more u" by (simp_all add: w)
  show "kernel_mem D T a bs2 w" by (fact f(1))
  show "sched_inv w" "procs_allocated a bs2 w" using u(2,3) eqs by (simp_all add: sched_inv_def procs_allocated_def live_procs_def)
  show live: "getf p x w = getf p x u" if "p \<in> live_procs u" "4 dvd unat x" "unat x < 104" for p x
    by (rule getf_live [OF u(2,3) ag that])
  have "used_frames t \<union> {h, Suc h} = used_frames s \<union> {c, e, h, Suc h}"
    using rd by (auto simp: used_frames_def high_frame_def)
  then show "tight_space (used_frames s \<union> {c, e, h, Suc h}) d w" using f(11) by simp
  have "g < ALL_FRAMES" if "g \<in> space_frames (kmem w) d" for g
    using that user_space_bounds [OF f(4)] user_space_table(3) [OF f(4)] by (force simp: space_frames_def)
  then show "\<forall>g\<in>space_frames (kmem w) d. \<not> frame_used s g" using f(12) rd by blast
  have "frame_used u f" if "f \<in> {c, e, h, Suc h}" for f
  proof -
    have "stack_pages PAGE_SIZE = 2" by (simp add: stack_pages_def PAGE_SIZE_def)
    then have "frame_used u h" "frame_used u (Suc h)" using u(5) by (simp_all add: stack_space_def)
    moreover have "frame_used u c" "frame_used u e" using rd u(4) unfolding kept_def high_frame_def by blast+
    ultimately show ?thesis using that by blast
  qed
  moreover have "\<forall>f\<in>{c, e, h, Suc h}. f < ALL_FRAMES" using rd h by (simp add: high_frame_def)
  ultimately show "\<forall>f\<in>{c, e, h, Suc h}. frame_used w f" using f(7) by blast
  note g = live [OF u(7)]
  have S: "in_window x \<and> frame_used s (word_frame x)" if "x \<in> S" for x
  proof -
    have "x \<in> {T..<T + 0x100000}" using that rd by (auto simp: S_def)
    then show ?thesis using kernel_mem_frames(3) [OF mem] by blast
  qed
  have bytes: "frame_holds (kmem w) j bs'" if j: "high_frame j" "frame_holds (kmem t) j bs'" "length bs' = 4096" for j bs'
  proof -
    have "word_at (kmem w) x = word_at (kmem t) x" if x: "x < 2 ^ 32" "4 dvd x" "\<not> in_window x" for x
    proof -
      have "x \<notin> Y \<union> S" using x(3) S by (auto simp: Y_def)
      then have "word_at (kmem w) x = word_at (kmem u) x" using agree_word [OF ag(1) x(2,1)] by blast
      also have "\<dots> = word_at (kmem t) x" using u(4) x kernel_mem_frames(1) [OF mt] heap_gaps_sub unfolding kept_def by blast
      finally show ?thesis .
    qed
    from high_byte_same [OF j(1) _ this] show ?thesis using j(2,3) by (simp add: frame_holds_def)
  qed
  have len: "length (code_page msg) = 4096" "length (data_page msg) = 4096"
    using msg code_length [of msg] by (simp_all add: code_page_def data_page_def)
  have "frame_holds (kmem w) c (code_page msg)" "frame_holds (kmem w) e (data_page msg)" using rd bytes len by blast+
  note bytes = message_bytes [OF f(4,5) msg this]
  have "iret_jump_user (r + off_context) w = iret_jump_user (r + off_context) u"
    by (simp add: iret_jump_user_def getf_off g ctx_offsets)
  then show "message_process msg r pid ks d c e h K w" using u(6) f(4-6) bytes
    unfolding message_process_def new_process_def by (simp add: g struct_offsets)
  show "used_kept a bs s w" unfolding used_kept_def
  proof (intro conjI allI impI)
    fix j assume "j < ALL_FRAMES" "frame_used s j"
    then show "frame_used w j" using rd u(4) f(7) unfolding kept_def by blast
  next
    fix x :: nat assume x: "x < 2 ^ 32" "4 dvd x" "frame_used s (phys_addr x div 4096)" "x \<notin> heap_gaps a bs"
    show "word_at (kmem w) x = word_at (kmem s) x"
    proof (cases "x \<in> S")
      case True
      then show ?thesis using f(9,10) rd by (auto simp: S_def)
    next
      case False
      have "phys_addr x div 4096 \<notin> {c, e}" using x(3) rd by auto
      then have "x \<notin> {w. phys_addr w div 4096 \<in> {c, e}} \<union> {T + 4 * k, T + 4 * l}" using False by (simp add: S_def)
      then have st: "word_at (kmem t) x = word_at (kmem s) x" using rd agree_word [OF _ x(2,1)] by blast
      have win: "frame_used t (word_frame x)" if "in_window x"
        using that x(3) rd phys_addr_window [OF that] by (auto simp: in_window_def word_frame_def)
      then have "word_at (kmem u) x = word_at (kmem t) x" using u(4) x unfolding kept_def by blast
      moreover have "x \<notin> Y \<union> S" using win False by (auto simp: Y_def)
      then have "word_at (kmem w) x = word_at (kmem u) x" using agree_word [OF ag(1) x(2,1)] by blast
      ultimately show ?thesis using st by simp
    qed
  qed
qed

lemma used_kept_spaces:
  assumes "used_kept a bs s t"
  shows "spaces_kept a bs s t"
proof (rule spaces_keptI)
  show "frame_used t f" if "f < LOW_FRAMES" "frame_used s f" for f using assms that by (simp add: used_kept_def)
  show "word_at (kmem t) w = word_at (kmem s) w"
    if "4 dvd w" "in_window w" "frame_used s (word_frame w)" "w \<notin> heap_gaps a bs" for w
    using assms that phys_addr_window [OF that(2)] by (auto simp: used_kept_def in_window_def)
qed

text \<open>The kernel's directory and its tables are kept.\<close>

lemma used_kept_kernel:
  assumes "kernel_mem D T a bs s" "used_kept a bs s t"
  shows "i < 2048 \<Longrightarrow> word_at (kmem t) (D + 4 * i) = word_at (kmem s) (D + 4 * i)"
    "k < 0x40000 \<Longrightarrow> word_at (kmem t) (T + 4 * k) = word_at (kmem s) (T + 4 * k)"
proof -
  have lay: "4 dvd D" "4 dvd T" using assms(1) by (auto simp: kernel_mem_def kernel_paging_def kernel_layout_def elim!: dvdE)
  have same: "word_at (kmem t) w = word_at (kmem s) w" if w: "w \<in> {D..<D + 8192} \<union> {T..<T + 0x100000}" "4 dvd w" for w
  proof -
    have "in_window w" "frame_used s (word_frame w)" using w(1) assms(1) unfolding kernel_mem_def by blast+
    moreover have "w \<notin> {a..<block_end a bs}" using w(1) assms(1) unfolding kernel_mem_def by blast
    then have "w \<notin> heap_gaps a bs" using heap_gaps_sub by blast
    ultimately show ?thesis using assms(2) w(2) phys_addr_window [of w] by (simp add: used_kept_def in_window_def)
  qed
  show "i < 2048 \<Longrightarrow> word_at (kmem t) (D + 4 * i) = word_at (kmem s) (D + 4 * i)"
    "k < 0x40000 \<Longrightarrow> word_at (kmem t) (T + 4 * k) = word_at (kmem s) (T + 4 * k)"
    using lay by (intro same; auto)+
qed

lemma space_step_live:
  fixes t u v :: "'a procs_scheme"
  assumes "kernel_mem D T a bs t" "block_end a bs2 = block_end a bs" "kept a bs t u" "stack_space d h sz t u"
    and "sched_inv u" "procs_allocated a bs2 u" "p \<in> live_procs u" "space_step d u v" "4 dvd unat x" "unat x < 104"
  shows "getf p x v = getf p x u"
proof -
  have fresh: "frame_used u g \<and> g \<notin> space_frames (kmem u) d" if "g < LOW_FRAMES" "frame_used t g" for g
    using that assms(3,4) unfolding stack_space_def kept_def by auto
  have "{x. in_window x \<and> \<not> frame_used t (word_frame x)} \<inter> {a..<block_end a bs2} = {}"
    using kernel_mem_frames(1) [OF assms(1)] unfolding assms(2) by blast
  from getf_live [OF assms(5,6) space_step_fresh(1) [where s = t, OF assms(8) fresh] this assms(7,9,10)] show ?thesis .
qed

lemma live_update:
  fixes s u :: "'a procs_scheme"
  assumes "proc_list u = (proc_list s)[i := r]" "proc_list s ! i = 0" "i < length (proc_list s)" "r \<noteq> 0"
  shows "live_procs u = insert r (live_procs s)"
proof -
  from id_take_nth_drop [OF assms(3)] assms(2) upd_conv_take_nth_drop [OF assms(3), of r] assms(1)
  obtain xs ys where "proc_list s = xs @ 0 # ys" "proc_list u = xs @ r # ys" by metis
  then show ?thesis using assms(4) by (auto simp: live_procs_def)
qed

lemma make_user_proc_ok:
  fixes s :: "'a procs_scheme"
  assumes mem: "kernel_mem D T a bs s" "cr3 s = KV2P (of_nat D)" and inv: "sched_inv s" "procs_allocated a bs s"
    and slot: "find_slot s = Some i" "proc_list s ! i = 0"
    and struct: "length bs < 4096" "fit_ok 112 bs" "spec_alloc 112 a bs = Some (q, bs1)"
    and kstack: "length bs1 < 4096" "fit_ok 8192 bs1" "spec_alloc 8192 a bs1 = Some (ks, bs2)"
    and frames: "first_fit s 0 LOW_FRAMES 2 = Some d" "first_fit s LOW_FRAMES ALL_FRAMES 4 = Some g"
    and maps: "two_slots T (kmem s)" and msg: "length msg < 4096"
  shows "\<exists>r t. make_user_proc_with_message (Some msg) s = Some (r, t) \<and>
    (if r = 0 then low_memory_full t \<and> card (free_low s) \<le> 4
     else r = of_nat q \<and> proc_list t = (proc_list s)[i := r] \<and> pid_ctr t = pid_ctr s + 1 \<and> current_proc t = current_proc s \<and>
       (\<exists>c e h. distinct [c, e, h, Suc h] \<and> (\<forall>f\<in>{c, e, h, Suc h}. high_frame f \<and> \<not> frame_used s f) \<and> (\<forall>f\<in>{c, e, h, Suc h}. frame_used t f) \<and>
          (\<forall>f\<in>space_frames (kmem t) d. \<not> frame_used s f) \<and>
          tight_space (used_frames s \<union> {c, e, h, Suc h}) d t \<and>
          message_process msg r (pid_ctr s) ks d c e h (\<lambda>j. word_at (kmem s) (D + 4 * j)) t) \<and>
       kernel_mem D T a bs2 t \<and> cr3 t = cr3 s \<and> sched_inv t \<and> procs_allocated a bs2 t \<and> used_kept a bs s t \<and> block_end a bs2 = block_end a bs \<and>
       interrupt_handlers t = interrupt_handlers s \<and> procs.more t = procs.more s \<and>
       (\<forall>p\<in>live_procs s. \<forall>j<26. getf p (4 * of_nat j) t = getf p (4 * of_nat j) s))"
proof -
  obtain c e h k l cp dp s1 s2 s3 s4 t where b: "alloc_pages PMM_FLAGS_HIGHMEM 1 s = Some (frame_addr c, s1)"
    "alloc_pages PMM_FLAGS_HIGHMEM 1 s1 = Some (frame_addr e, s2)" "kmap (frame_addr c) s2 = (cp, s3)"
    "kmap (frame_addr e) s3 = (dp, s4)" "fill_user_pages cp dp msg s4 = Some t" "cp \<noteq> 0" "dp \<noteq> 0"
    "window_page cp = k" "window_page dp = l" "0xC0000000 \<le> unat cp" "0xC0000000 \<le> unat dp"
    "first_fit t LOW_FRAMES ALL_FRAMES 2 = Some h" "pages_ready T k l c e msg s t"
    using build_pages [OF mem maps frames(2) msg] .
  note rd = b(13) [unfolded pages_ready_def] and pf = pages_ready_fields [OF b(13)] and pm = pages_ready_mem [OF mem(1) b(13)]
  have heap: "({w. \<not> in_window w} \<union> {T + 4 * k, T + 4 * l}) \<inter> {a..<block_end a bs} = {}" using pm(3) by blast
  have inv': "sched_inv t" "procs_allocated a bs t" using inv pf by (simp_all add: sched_inv_def procs_allocated_def live_procs_def)
  have slot': "find_slot t = Some i" "proc_list t ! i = 0"
    using find_slot_same [OF inv pm(2) heap pf(3)] slot pf(3) by simp_all
  have low: "frame_used t f = frame_used s f" if "f < LOW_FRAMES" for f
    using rd that by (auto simp: high_frame_def)
  have d: "first_fit t 0 LOW_FRAMES 2 = Some d"
    using frames(1) low by (auto simp: first_fit_Some free_run_def)
  have n: "stack_pages PAGE_SIZE = 2" "PAGE_SIZE \<le> 0xBFFFFFF0" by (simp_all add: stack_pages_def PAGE_SIZE_def)
  have h: "LOW_FRAMES \<le> h" "h + 2 \<le> ALL_FRAMES" "\<not> frame_used t h" "\<not> frame_used t (Suc h)"
    using b(12) by (auto simp: first_fit_Some free_run_def numeral_2_eq_2 less_Suc_eq)
  then have fr: "distinct [c, e, h, Suc h]" "\<forall>f\<in>{c, e, h, Suc h}. high_frame f \<and> \<not> frame_used s f"
    using rd by (auto simp: high_frame_def)
  have K: "word_at (kmem t) (D + 4 * j) = word_at (kmem s) (D + 4 * j)" if "j < 1024" for j
  proof (rule agree_word [OF pm(2)])
    have "D + 4 * j \<in> {D..<D + 8192}" using that by auto
    then show "D + 4 * j \<notin> {w. \<not> in_window w} \<union> {T + 4 * k, T + 4 * l}" using pm(3) by blast
  qed (use mem(1) that in \<open>auto simp: kernel_mem_def kernel_paging_def kernel_layout_def elim!: dvdE\<close>)
  have fl: "free_low t = free_low s" "stack_tables PAGE_SIZE = 1" using low n(1) by (auto simp: free_low_def stack_tables_def)
  obtain r u where u: "create_proc USER_TEST_CODE_VA 0 PAGE_SIZE 0 PROC_PRIORITY_NORMAL t = Some (r, u)"
    "if r = 0 then low_memory_full u \<and> card (free_low t) \<le> 2 + stack_tables PAGE_SIZE
     else r = of_nat q \<and> proc_list u = (proc_list t)[i := r] \<and>
       new_process r USER_TEST_CODE_VA PAGE_SIZE PROC_PRIORITY_NORMAL (pid_ctr t) ks d h (\<lambda>j. word_at (kmem t) (D + 4 * j)) u \<and>
       kernel_mem D T a bs2 u \<and> sched_inv u \<and> procs_allocated a bs2 u \<and> spaces_kept a bs t u \<and> kept a bs t u \<and>
       stack_space d h PAGE_SIZE t u \<and> cr3 u = cr3 t \<and>
       current_proc u = current_proc t \<and> pid_ctr u = pid_ctr t + 1 \<and> placed a bs bs2 q \<and>
       interrupt_handlers u = interrupt_handlers t \<and> procs.more u = procs.more t \<and>
       (\<forall>p\<in>live_procs t. \<forall>j<26. getf p (4 * of_nat j) u = getf p (4 * of_nat j) t)"
    using create_proc_ok [OF pm(1) inv' slot' struct kstack d n(2), unfolded n(1), OF b(12)] by blast
  have z: "frame_addr c \<noteq> 0" "frame_addr e \<noteq> 0" using high_frame_addr(1) rd by blast+
  show ?thesis
  proof (cases "r = 0")
    case True
    then have "\<exists>w. make_user_proc_with_message (Some msg) s = Some (0, w) \<and> low_memory_full w \<and> card (free_low s) \<le> 4"
      using b(1-7) u z fl by (simp add: make_user_proc_with_message_def low_memory_full_def frame_used_def)
    then show ?thesis by auto
  next
    case False
    then have "(r = 0) = False" by simp
    note u(2) [unfolded this if_False placed_def]
    then have u': "r = of_nat q" "proc_list u = (proc_list t)[i := r]" "kernel_mem D T a bs2 u" "sched_inv u" "procs_allocated a bs2 u"
      "kept a bs t u" "stack_space d h PAGE_SIZE t u" "cr3 u = cr3 t" "current_proc u = current_proc t" "pid_ctr u = pid_ctr t + 1"
      and new: "new_process r USER_TEST_CODE_VA PAGE_SIZE PROC_PRIORITY_NORMAL (pid_ctr t) ks d h (\<lambda>j. word_at (kmem t) (D + 4 * j)) u"
      and others: "\<forall>p\<in>live_procs t. \<forall>j<26. getf p (4 * of_nat j) u = getf p (4 * of_nat j) t"
      and rest: "interrupt_handlers u = interrupt_handlers t" "procs.more u = procs.more t"
      and fin: "block_end a bs2 = block_end a bs"
      by blast+
    have dir: "user_space d u" "getf r off_page_directory u = KP2V (frame_addr d)" using new by (simp_all add: new_process_def)
    have "i < length (proc_list t)" using find_slot_bound [OF slot(1)] inv'(1) by (simp add: sched_inv_def)
    then have live: "live_procs u = insert r (live_procs t)" "live_procs t = live_procs s"
      using live_update [OF u'(2) slot'(2) _ False] pf(3) by (simp_all add: live_procs_def)
    have r: "r \<in> live_procs u" by (simp add: live)
    have hf: "high_frame c" "high_frame e" using rd by simp_all
    have keep: "getf r off_page_directory v = getf r off_page_directory u" if "space_step d u v" for v
      by (rule space_step_live [OF pm(1) fin u'(6,7,4,5) r that]) (simp_all add: struct_offsets)
    obtain ok v where v: "map_user_pages r (frame_addr c) (frame_addr e) u = Some (ok, v)" "\<not> ok \<Longrightarrow> low_memory_full v"
      "\<not> ok \<Longrightarrow> tight_space (used_frames t \<union> {h..<h + 2}) d u \<Longrightarrow> tight_space (used_frames t \<union> {h..<h + 2}) d v"
      "\<not> ok \<Longrightarrow> \<forall>x. upage (kmem v) d x \<noteq> None \<longrightarrow> upage (kmem u) d x \<noteq> None \<or> x = 0x400"
      "ok \<Longrightarrow> space_maps d ((upage (kmem u) d)(0x400 \<mapsto> (c, True), 0x401 \<mapsto> (e, True))) u v \<and> mem_only u v"
      using map_user_pages_ok [OF dir(1) False dir(2) hf keep, where U = "used_frames t \<union> {h..<h + 2}"] by blast
    define w where "w = kunmap dp (kunmap cp v)"
    have run: "make_user_proc_with_message (Some msg) s = Some (if ok then r else 0, w)"
      using b(1-7) u(1) v(1) z False by (simp add: make_user_proc_with_message_def w_def)
    show ?thesis
    proof (cases ok)
      case False
      have st: "tight_space (used_frames t \<union> {h..<h + 2}) d u" "upage (kmem u) d = mapped 0xBFFFE h True 0 2 (\<lambda>_. None)"
        using u'(7) n(1) by (simp_all add: stack_space_def)
      have "x div 1024 \<in> {1, 767}" if "upage (kmem v) d x \<noteq> None" for x
      proof -
        have "upage (kmem u) d x \<noteq> None \<or> x = 0x400" using v(4) [OF False] that by blast
        then have "x = 0x400 \<or> x = 0xBFFFE \<or> x = 0xBFFFF" by (auto simp: st(2) mapped_def split: if_splits)
        then show ?thesis by auto
      qed
      from full_bound [OF v(3) [OF False st(1)] v(2) [OF False] _ this] have "card (free_low t) \<le> 4" using h(1) by simp
      then show ?thesis using run v(2) False fl by (simp add: w_def)
    next
      case True
      then have sm: "space_maps d ((upage (kmem u) d)(0x400 \<mapsto> (c, True), 0x401 \<mapsto> (e, True))) u v" "mem_only u v" using v(5) by blast+
      note bp = built_process [OF mem(1) b(13) msg u'(3-7) new r fin sm b(10,11,8,9) h(2), folded w_def]
      have "message_process msg r (pid_ctr s) ks d c e h (\<lambda>j. word_at (kmem s) (D + 4 * j)) w"
        using bp(1) K pf(5) by (simp add: message_process_def)
      moreover have "getf p (4 * of_nat j) w = getf p (4 * of_nat j) s" if "p \<in> live_procs s" "j < 26" for p j
      proof -
        have "unat (4 * of_nat j :: u32) = 4 * j" using that(2) unat_of_nat_u32 [of "4 * j"] by simp
        then have x: "4 dvd unat (4 * of_nat j :: u32)" "unat (4 * of_nat j :: u32) < 104" using that(2) by simp_all
        have "p \<in> live_procs u" "p \<in> live_procs t" using that(1) live by simp_all
        then show ?thesis using bp(10) [OF _ x, of p] others that getf_live [OF inv pm(2) heap that(1) x] by simp
      qed
      ultimately show ?thesis using run True False u'(1,2,8-10) pf bp(2-9,11-15) fr fin rest by auto
    qed
  qed
qed

section \<open>The process that prints a message\<close>

lemma sample_kernel_cr3: "cr3 sample_kernel = KV2P (of_nat 0xC0104000)"
  by (simp add: sample_kernel_def sample_procs_def KV2P_def)

lemma sample_kernel_slots: "two_slots 0xC0106000 (kmem sample_kernel)"
proof -
  have "word_at (kmem sample_kernel) (0xC0106000 + 4 * k) = 0" if "LOW_FRAMES \<le> k" "k < 0x40000" for k
    using that booted_slot_word [OF that] sample_kernel_word [of "0xC0106000 + 4 * k"] by simp
  from this [of LOW_FRAMES] this [of "Suc LOW_FRAMES"] show ?thesis
    unfolding two_slots_def by (intro exI [of _ LOW_FRAMES] exI [of _ "Suc LOW_FRAMES"]) simp
qed

text \<open>
  C13: On a kernel whose heap, page tables and process table are well formed, with an empty slot and
  room for the structure, the kernel stack, two adjacent low frames, four adjacent high frames and
  two slots of the window, \<^verbatim>\<open>make_user_proc_with_message\<close> returns. It returns a null pointer only
  when low memory is full when a page table is needed, and then at most four low frames were free at the
  start. Otherwise the result is a process in that slot with the next pid, ready to run in user mode
  at the code page, whose address space has exactly the code page, the data page and two stack pages, in four
  distinct high frames that were free, and the kernel's half of the kernel's directory; the bytes user code
  reads at the code page are the program that prints the message, and those at the data page are the message.
  All invariants hold again and the other processes' structures are as before.
\<close>

theorem make_user_proc_creates:
  fixes s :: "'a procs_scheme"
  assumes "kernel_mem D T a bs s" "cr3 s = KV2P (of_nat D)" and "sched_inv s" "procs_allocated a bs s"
    and "find_slot s = Some i" "proc_list s ! i = 0"
    and "length bs < 4096" "fit_ok 112 bs" "spec_alloc 112 a bs = Some (q, bs1)"
    and "length bs1 < 4096" "fit_ok 8192 bs1" "spec_alloc 8192 a bs1 = Some (ks, bs2)"
    and "first_fit s 0 LOW_FRAMES 2 = Some d" "first_fit s LOW_FRAMES ALL_FRAMES 4 = Some g"
    and "two_slots T (kmem s)" and "length msg < 4096"
  shows "\<exists>r t. make_user_proc_with_message (Some msg) s = Some (r, t) \<and>
    (if r = 0 then low_memory_full t \<and> card (free_low s) \<le> 4
     else r = of_nat q \<and> proc_list t = (proc_list s)[i := r] \<and>
       (\<exists>c e h. distinct [c, e, h, Suc h] \<and> (\<forall>f\<in>{c, e, h, Suc h}. high_frame f \<and> \<not> frame_used s f \<and> frame_used t f) \<and>
          message_process msg r (pid_ctr s) ks d c e h (\<lambda>j. word_at (kmem s) (D + 4 * j)) t) \<and>
       kernel_mem D T a bs2 t \<and> sched_inv t \<and> procs_allocated a bs2 t \<and>
       (\<forall>p\<in>live_procs s. \<forall>j<26. getf p (4 * of_nat j) t = getf p (4 * of_nat j) s))"
proof -
  obtain r t where "make_user_proc_with_message (Some msg) s = Some (r, t)"
    "if r = 0 then low_memory_full t \<and> card (free_low s) \<le> 4
     else r = of_nat q \<and> proc_list t = (proc_list s)[i := r] \<and> pid_ctr t = pid_ctr s + 1 \<and> current_proc t = current_proc s \<and>
       (\<exists>c e h. distinct [c, e, h, Suc h] \<and> (\<forall>f\<in>{c, e, h, Suc h}. high_frame f \<and> \<not> frame_used s f) \<and> (\<forall>f\<in>{c, e, h, Suc h}. frame_used t f) \<and>
          (\<forall>f\<in>space_frames (kmem t) d. \<not> frame_used s f) \<and>
          tight_space (used_frames s \<union> {c, e, h, Suc h}) d t \<and>
          message_process msg r (pid_ctr s) ks d c e h (\<lambda>j. word_at (kmem s) (D + 4 * j)) t) \<and>
       kernel_mem D T a bs2 t \<and> cr3 t = cr3 s \<and> sched_inv t \<and> procs_allocated a bs2 t \<and> used_kept a bs s t \<and> block_end a bs2 = block_end a bs \<and>
       interrupt_handlers t = interrupt_handlers s \<and> procs.more t = procs.more s \<and>
       (\<forall>p\<in>live_procs s. \<forall>j<26. getf p (4 * of_nat j) t = getf p (4 * of_nat j) s)"
    using make_user_proc_ok [OF assms] by blast
  note rt = this
  show ?thesis
  proof (cases "r = 0")
    case False
    then obtain c e h where "distinct [c, e, h, Suc h]" "\<forall>f\<in>{c, e, h, Suc h}. high_frame f \<and> \<not> frame_used s f" "\<forall>f\<in>{c, e, h, Suc h}. frame_used t f"
      "message_process msg r (pid_ctr s) ks d c e h (\<lambda>j. word_at (kmem s) (D + 4 * j)) t" using rt(2) by auto
    then have "\<exists>c e h. distinct [c, e, h, Suc h] \<and> (\<forall>f\<in>{c, e, h, Suc h}. high_frame f \<and> \<not> frame_used s f \<and> frame_used t f) \<and>
          message_process msg r (pid_ctr s) ks d c e h (\<lambda>j. word_at (kmem s) (D + 4 * j)) t"
      by (intro exI [of _ c] exI [of _ e] exI [of _ h]) simp
    then show ?thesis using False rt by (intro exI [of _ r] exI [of _ t]) simp
  qed (use rt in \<open>simp\<close>)
qed

theorem make_user_proc_creates_witness:
  "\<exists>r t. make_user_proc_with_message (Some ''hello'') sample_kernel = Some (r, t) \<and>
    r = 0xC04000A0 \<and> proc_list t = (proc_list sample_kernel)[1 := r] \<and>
       (\<exists>c e h. distinct [c, e, h, Suc h] \<and> (\<forall>f\<in>{c, e, h, Suc h}. high_frame f \<and> \<not> frame_used sample_kernel f \<and> frame_used t f) \<and>
          message_process ''hello'' r 1 0xC0400130 0x800 c e h (\<lambda>j. word_at (kmem sample_kernel) (0xC0104000 + 4 * j)) t) \<and>
       kernel_mem 0xC0104000 0xC0106000 0xC0400000 [(112, True), (112, True), (8192, True), (56912, False)] t \<and>
       sched_inv t \<and> procs_allocated 0xC0400000 [(112, True), (112, True), (8192, True), (56912, False)] t \<and>
       (\<forall>p\<in>live_procs sample_kernel. \<forall>j<26. getf p (4 * of_nat j) t = getf p (4 * of_nat j) sample_kernel)"
proof -
  let ?bs1 = "[(112, True), (112, True), (65136, False)] :: blocks"
  have frames: "first_fit sample_kernel 0 LOW_FRAMES 2 = Some 0x800" "first_fit sample_kernel LOW_FRAMES ALL_FRAMES 4 = Some LOW_FRAMES"
    by (auto simp: first_fit_Some free_run_def sample_kernel_used intro: exI [of _ 0])
  have struct: "length sample_heap < 4096" "fit_ok 112 sample_heap" "spec_alloc 112 0xC0400000 sample_heap = Some (0xC04000A0, ?bs1)"
    by (simp_all add: sample_heap_def)
  have kstack: "length ?bs1 < 4096" "fit_ok 8192 ?bs1"
    "spec_alloc 8192 0xC0400000 ?bs1 = Some (0xC0400130, [(112, True), (112, True), (8192, True), (56912, False)])"
    by simp_all
  have msg: "length ''hello'' < 4096" and pid: "pid_ctr sample_kernel = 1" by (simp_all add: sample_kernel_def)
  have "{0x800..<0x805} \<subseteq> free_low sample_kernel" "finite (free_low sample_kernel)"
    by (auto simp: free_low_def sample_kernel_used)
  then have "card {0x800..<0x805 :: nat} \<le> card (free_low sample_kernel)" by (intro card_mono)
  then have low: "\<not> card (free_low sample_kernel) \<le> 4" by simp
  from make_user_proc_creates [OF sample_kernel_mem sample_kernel_cr3 sample_kernel_table(4,5,2,3) struct kstack frames sample_kernel_slots msg]
  obtain r t where rt: "make_user_proc_with_message (Some ''hello'') sample_kernel = Some (r, t)" "r \<noteq> 0"
    "r = 0xC04000A0 \<and> proc_list t = (proc_list sample_kernel)[1 := r] \<and>
       (\<exists>c e h. distinct [c, e, h, Suc h] \<and> (\<forall>f\<in>{c, e, h, Suc h}. high_frame f \<and> \<not> frame_used sample_kernel f \<and> frame_used t f) \<and>
          message_process ''hello'' r 1 0xC0400130 0x800 c e h (\<lambda>j. word_at (kmem sample_kernel) (0xC0104000 + 4 * j)) t) \<and>
       kernel_mem 0xC0104000 0xC0106000 0xC0400000 [(112, True), (112, True), (8192, True), (56912, False)] t \<and>
       sched_inv t \<and> procs_allocated 0xC0400000 [(112, True), (112, True), (8192, True), (56912, False)] t \<and>
       (\<forall>p\<in>live_procs sample_kernel. \<forall>j<26. getf p (4 * of_nat j) t = getf p (4 * of_nat j) sample_kernel)"
    unfolding pid of_nat_numeral using low by (metis (no_types, lifting))
  show ?thesis by (rule exI [of _ r], rule exI [of _ t], rule conjI [OF rt(1,3)])
qed

end
