(* ===== verification/Demo.thy ===== *)
theory Demo
  imports User_Proc Interrupts
begin

text \<open>
  The demo with three processes, \<^verbatim>\<open>kernel_three_process_test\<close>, from the creation of the processes to the
  message that the first of them prints: how many processes memory has room for, that processes do
  not disturb one another, and the system call their code makes.
\<close>

section \<open>Several processes\<close>

text \<open>
  Memory for \<open>n\<close> processes: each takes at most four low frames, two of them adjacent, and four high
  frames, so it spoils at most four of the aligned pairs and four of the aligned groups that are free.
\<close>

definition free_pairs :: "'a pmm_scheme \<Rightarrow> nat set" where
  "free_pairs s = {x. 2 * x + 1 < LOW_FRAMES \<and> free_run s (2 * x) 2}"

definition free_quads :: "'a pmm_scheme \<Rightarrow> nat set" where
  "free_quads s = {x. LOW_FRAMES \<le> 4 * x \<and> 4 * x + 3 < ALL_FRAMES \<and> free_run s (4 * x) 4}"

definition frames_for :: "nat \<Rightarrow> 'a pmm_scheme \<Rightarrow> bool" where
  "frames_for n s \<longleftrightarrow> 4 * n \<le> card (free_pairs s) \<and> 4 * n \<le> card (free_quads s)"

lemma finite_free [simp]: "finite (free_pairs s)" "finite (free_quads s)" "finite (free_low s)"
proof -
  have "free_pairs s \<subseteq> {..<LOW_FRAMES}" "free_quads s \<subseteq> {..<ALL_FRAMES}" "free_low s \<subseteq> {..<LOW_FRAMES}"
    by (auto simp: free_pairs_def free_quads_def free_low_def)
  then show "finite (free_pairs s)" "finite (free_quads s)" "finite (free_low s)" by (auto intro: finite_subset)
qed

lemma frames_for_fits:
  assumes "frames_for (Suc n) s"
  shows "first_fit s 0 LOW_FRAMES 2 \<noteq> None" "first_fit s LOW_FRAMES ALL_FRAMES 4 \<noteq> None" "4 < card (free_low s)"
proof -
  have c: "4 \<le> card (free_pairs s)" "4 \<le> card (free_quads s)" using assms by (simp_all add: frames_for_def)
  then obtain x y where "x \<in> free_pairs s" "y \<in> free_quads s" by (metis all_not_in_conv card.empty not_numeral_le_zero)
  then have "free_run s (2 * x) 2" "2 * x + 2 \<le> LOW_FRAMES" "LOW_FRAMES \<le> 4 * y" "free_run s (4 * y) 4" "4 * y + 4 \<le> ALL_FRAMES"
    by (auto simp: free_pairs_def free_quads_def)
  then show "first_fit s 0 LOW_FRAMES 2 \<noteq> None" "first_fit s LOW_FRAMES ALL_FRAMES 4 \<noteq> None"
    unfolding first_fit_None by blast+
  have "(\<lambda>x. 2 * x) ` free_pairs s \<union> (\<lambda>x. 2 * x + 1) ` free_pairs s \<subseteq> free_low s"
    by (auto simp: free_pairs_def free_low_def free_run_def numeral_2_eq_2 less_Suc_eq)
  then have "card ((\<lambda>x. 2 * x) ` free_pairs s \<union> (\<lambda>x. 2 * x + 1) ` free_pairs s) \<le> card (free_low s)" by (intro card_mono) simp_all
  moreover have "card ((\<lambda>x. 2 * x) ` free_pairs s \<union> (\<lambda>x. 2 * x + 1) ` free_pairs s) = card (free_pairs s) + card (free_pairs s)"
    by (subst card_Un_disjoint) (auto simp: card_image inj_on_def, presburger)
  ultimately show "4 < card (free_low s)" using c(1) by simp
qed

lemma card_spoiled:
  assumes "A \<subseteq> B \<union> f ` Z" "finite B" "finite Z" "card Z \<le> 4" "n + 4 \<le> card A"
  shows "n \<le> card B"
proof -
  have "card A \<le> card (B \<union> f ` Z)" using assms(1-3) by (intro card_mono) simp_all
  also have "\<dots> \<le> card B + card (f ` Z)" by (rule card_Un_le)
  also have "\<dots> \<le> card B + 4" using card_image_le [OF assms(3), of f] assms(4) by simp
  finally show ?thesis using assms(5) by simp
qed

lemma frames_for_step:
  assumes "frames_for (Suc n) s" "used_frames t \<subseteq> used_frames s \<union> H \<union> L" "finite H" "finite L" "card H \<le> 4" "card L \<le> 4"
    and "\<And>g. g \<in> H \<Longrightarrow> LOW_FRAMES \<le> g" "\<And>g. g \<in> L \<Longrightarrow> g < LOW_FRAMES"
  shows "frames_for n t"
proof -
  have u: "frame_used s g \<or> g \<in> H \<or> g \<in> L" if "frame_used t g" "g < ALL_FRAMES" for g
    using assms(2) that by (auto simp: used_frames_def)
  have "free_pairs s \<subseteq> free_pairs t \<union> (\<lambda>g. g div 2) ` L"
  proof
    fix x assume x: "x \<in> free_pairs s"
    show "x \<in> free_pairs t \<union> (\<lambda>g. g div 2) ` L"
    proof (cases "free_run t (2 * x) 2")
      case False
      then obtain i where i: "i < 2" "frame_used t (2 * x + i)" by (auto simp: free_run_def)
      moreover have "2 * x + i < LOW_FRAMES" "\<not> frame_used s (2 * x + i)" using x i(1) by (auto simp: free_pairs_def free_run_def)
      ultimately have "2 * x + i \<in> L" using u [of "2 * x + i"] assms(7) [of "2 * x + i"] by auto
      moreover have "x = (2 * x + i) div 2" using i(1) by simp
      ultimately show ?thesis by blast
    qed (use x in \<open>simp add: free_pairs_def\<close>)
  qed
  from card_spoiled [OF this _ assms(4,6), of "4 * n"] have "4 * n \<le> card (free_pairs t)" using assms(1) by (simp add: frames_for_def)
  moreover have "free_quads s \<subseteq> free_quads t \<union> (\<lambda>g. g div 4) ` H"
  proof
    fix x assume x: "x \<in> free_quads s"
    show "x \<in> free_quads t \<union> (\<lambda>g. g div 4) ` H"
    proof (cases "free_run t (4 * x) 4")
      case False
      then obtain i where i: "i < 4" "frame_used t (4 * x + i)" by (auto simp: free_run_def)
      moreover have "LOW_FRAMES \<le> 4 * x + i" "4 * x + i < ALL_FRAMES" "\<not> frame_used s (4 * x + i)"
        using x i(1) by (auto simp: free_quads_def free_run_def)
      ultimately have "4 * x + i \<in> H" using u [of "4 * x + i"] assms(8) [of "4 * x + i"] by auto
      moreover have "x = (4 * x + i) div 4" using i(1) by simp
      ultimately show ?thesis by blast
    qed (use x in \<open>simp add: free_quads_def\<close>)
  qed
  from card_spoiled [OF this _ assms(3,5), of "4 * n"] have "4 * n \<le> card (free_quads t)" using assms(1) by (simp add: frames_for_def)
  ultimately show ?thesis by (simp add: frames_for_def)
qed

lemma message_frames:
  assumes "user_space d t" "upage (kmem t) d = user_pages c e h" "tight_space U d t"
  shows "\<And>g. g \<in> space_frames (kmem t) d \<Longrightarrow> g < LOW_FRAMES" "finite (space_frames (kmem t) d)" "card (space_frames (kmem t) d) \<le> 4"
proof -
  show "g < LOW_FRAMES" if "g \<in> space_frames (kmem t) d" for g
    using that user_space_bounds [OF assms(1)] user_space_table(3) [OF assms(1)] by (auto simp: space_frames_def)
  have "i = 1 \<or> i = 767" if t: "has_table (kmem t) d i" for i
  proof -
    obtain v where "v div 1024 = i" "user_pages c e h v \<noteq> None" using assms(2,3) t by (auto simp: tight_space_def)
    moreover from this(2) have "v = 0x400 \<or> v = 0x401 \<or> v = 0xBFFFE \<or> v = 0xBFFFF" by (auto simp: user_pages_def split: if_splits)
    ultimately show ?thesis by auto
  qed
  then have sub: "space_frames (kmem t) d \<subseteq> set [d, Suc d, table_frame (kmem t) d 1, table_frame (kmem t) d 767]"
    by (auto simp: space_frames_def)
  from sub show "finite (space_frames (kmem t) d)" "card (space_frames (kmem t) d) \<le> 4"
    using card_mono [OF _ sub] card_length [of "[d, Suc d, table_frame (kmem t) d 1, table_frame (kmem t) d 767]"]
    by (auto intro: finite_subset order_trans)
qed

text \<open>The blocks of \<open>n\<close> processes, structure and kernel stack each, and the heap that is left.\<close>

fun process_blocks :: "nat \<Rightarrow> nat \<Rightarrow> blocks \<Rightarrow> ((nat \<times> nat) list \<times> blocks) option" where
  "process_blocks 0 a bs = Some ([], bs)"
| "process_blocks (Suc n) a bs =
     (if length bs < 4096 \<and> fit_ok 112 bs
      then do {
        (q, bs) \<leftarrow> spec_alloc 112 a bs;
        if length bs < 4096 \<and> fit_ok 8192 bs
        then do {
          (ks, bs) \<leftarrow> spec_alloc 8192 a bs;
          (ps, bs) \<leftarrow> process_blocks n a bs;
          Some ((q, ks) # ps, bs)
        }
        else None
      }
      else None)"

lemma frame_of_byte:
  assumes "w < 2 ^ 32" "4 dvd w" "j < 4" "f < ALL_FRAMES" "i < 4096" "of_nat (w + j) = fptr f 0 + of_nat i"
  shows "phys_addr w div 4096 = f"
proof -
  define g k where "g = phys_addr w div 4096" and "k = phys_addr w mod 4096 + j"
  note b = phys_addr_byte [OF assms(1-3), folded g_def k_def]
  have "of_nat (4096 * g + k) = (of_nat (4096 * f + i) :: u32)"
    using b(3) assms(6) by (simp add: fptr_def)
  moreover have "unat (of_nat (4096 * g + k) :: u32) = 4096 * g + k" "unat (of_nat (4096 * f + i) :: u32) = 4096 * f + i"
    using b(1,2) assms(4,5) by (intro unat_of_nat_u32; simp)+
  ultimately have "4096 * g + k = 4096 * f + i" by simp
  then have "(4096 * g + k) div 4096 = (4096 * f + i) div 4096" by simp
  then show ?thesis using b(2) assms(5) by (simp add: g_def)
qed

lemma used_kept_byte:
  assumes "used_kept a bs s t" "kernel_mem D T a bs s" "high_frame f" "frame_used s f" "i < 4096"
  shows "kmem t (fptr f 0 + of_nat i) = kmem s (fptr f 0 + of_nat i)"
proof -
  define x where "x = unat (fptr f 0 + of_nat i)"
  define w where "w = x - x mod 4"
  have x: "w + x mod 4 = x" "4 dvd w" "x < 2 ^ 32" "x mod 4 < 4" using unat_u32_less by (auto simp: w_def x_def minus_mod_eq_mult_div)
  have b: "of_nat (w + x mod 4) = fptr f 0 + of_nat i" unfolding x(1) by (simp add: x_def)
  have f: "f < ALL_FRAMES" using assms(3) by (simp add: high_frame_def)
  have p: "phys_addr w div 4096 = f" using x by (intro frame_of_byte [OF _ x(2,4) f assms(5) b]) simp
  have "\<not> in_window w" using p assms(3) phys_addr_window [of w] by (auto simp: high_frame_def in_window_def word_frame_def)
  then have "w \<notin> heap_gaps a bs" using kernel_mem_frames(1) [OF assms(2)] heap_gaps_sub by blast
  then have "word_at (kmem t) w = word_at (kmem s) w" using assms(1,4) x p by (simp add: used_kept_def)
  from word_at_bytes [OF this x(4)] show ?thesis unfolding b .
qed

text \<open>A process whose frames are marked and lie apart from the heap.\<close>

definition settled ::
    "nat \<Rightarrow> nat \<Rightarrow> string \<Rightarrow> u32 \<Rightarrow> u32 \<Rightarrow> nat \<Rightarrow> nat \<Rightarrow> nat \<Rightarrow> nat \<Rightarrow> nat \<Rightarrow> (nat \<Rightarrow> u32) \<Rightarrow> 'a procs_scheme \<Rightarrow> bool" where
  "settled a b msg r pid ks d c e h K t \<longleftrightarrow> message_process msg r pid ks d c e h K t \<and> r \<in> live_procs t \<and>
     (\<forall>f\<in>{c, e, h, Suc h}. high_frame f \<and> frame_used t f) \<and> space_frames (kmem t) d \<inter> word_frame ` {a..<b} = {}"

text \<open>The frames a process has.\<close>

definition owned :: "nat \<Rightarrow> nat \<Rightarrow> nat \<Rightarrow> nat \<Rightarrow> mem \<Rightarrow> nat set" where
  "owned d c e h m = {c, e, h, Suc h} \<union> space_frames m d"

lemma settled_used:
  assumes "settled a b msg r pid ks d c e h K t" "f \<in> owned d c e h (kmem t)"
  shows "frame_used t f"
  using assms user_space_used by (auto simp: settled_def message_process_def owned_def)

lemma message_byte_kept:
  assumes "user_space d s" "user_space d t" "upage (kmem s) d = user_pages c e h" "upage (kmem t) d = user_pages c e h"
    and "\<And>f i. f \<in> {c, e, h, Suc h} \<Longrightarrow> i < 4096 \<Longrightarrow> kmem t (fptr f 0 + of_nat i) = kmem s (fptr f 0 + of_nat i)"
  shows "user_byte (kmem t) (KP2V (frame_addr d)) va = user_byte (kmem s) (KP2V (frame_addr d)) va"
proof (cases "va < 0xC0000000")
  case True
  have "f \<in> {c, e, h, Suc h}" if "user_pages c e h v = Some (f, w)" for f w v
  proof -
    have "v = 0x400 \<or> v = 0x401 \<or> v = 0xBFFFE \<or> v = 0xBFFFF" using that by (auto simp: user_pages_def split: if_splits)
    then show ?thesis using that by (auto simp: user_pages_def)
  qed
  then show ?thesis unfolding user_byte_upage [OF assms(1) True] user_byte_upage [OF assms(2) True] assms(3,4)
    using assms(5) by (auto simp: option.map_comp split: option.splits intro!: option.map_cong)
qed (simp add: user_byte_def)

lemma settled_kept:
  fixes s t :: "'a procs_scheme"
  assumes st: "settled a b msg r pid ks d c e h K s" and mem: "kernel_mem D T a bs s" and kept: "used_kept a bs s t"
    and b: "b = block_end a bs" and live: "live_procs s \<subseteq> live_procs t"
    and fields: "\<forall>p\<in>live_procs s. \<forall>j<26. getf p (4 * of_nat j) t = getf p (4 * of_nat j) s"
  shows "settled a b msg r pid ks d c e h K t" "space_frames (kmem t) d = space_frames (kmem s) d"
proof -
  have mp: "message_process msg r pid ks d c e h K s" "r \<in> live_procs s" "\<forall>f\<in>{c, e, h, Suc h}. high_frame f \<and> frame_used s f"
    "space_frames (kmem s) d \<inter> word_frame ` {a..<block_end a bs} = {}" using st by (simp_all add: settled_def b)
  have us: "user_space d s" "upage (kmem s) d = user_pages c e h" using mp(1) by (simp_all add: message_process_def)
  have ut: "user_space d t" "upage (kmem t) d = user_pages c e h" "space_frames (kmem t) d = space_frames (kmem s) d"
    using used_kept_spaces [OF kept] us mp(4) by (auto simp: spaces_kept_def)
  show "space_frames (kmem t) d = space_frames (kmem s) d" by (fact ut(3))
  have g: "getf r x t = getf r x s" if x: "4 dvd unat x" "unat x < 104" for x
  proof -
    obtain j where j: "unat x = 4 * j" using x(1) by (elim dvdE)
    then have "x = 4 * of_nat j" by (metis of_nat_mult of_nat_numeral of_nat_unat_u32)
    then show ?thesis using fields mp(2) j x(2) by simp
  qed
  have K: "fword (kmem t) d j = fword (kmem s) d j" if "j < 1024" for j
  proof -
    let ?w = "0xC0000000 + 4096 * d + 4 * j"
    have d: "d < LOW_FRAMES" using us(1) user_space_bounds by blast
    have w: "in_window ?w" "word_frame ?w = d" using d that by (simp_all add: in_window_def word_frame_def)
    then have "?w \<notin> {a..<block_end a bs}" using mp(4) by (force simp: space_frames_def)
    then have "?w \<notin> heap_gaps a bs" using heap_gaps_sub by blast
    then have "word_at (kmem t) ?w = word_at (kmem s) ?w"
      using kept w phys_addr_window [OF w(1)] user_space_bounds(3) [OF us(1)] fptr_word [OF d that] by (simp add: used_kept_def)
    then show ?thesis by (simp add: fword_word_at)
  qed
  have "kmem t (fptr f 0 + of_nat i) = kmem s (fptr f 0 + of_nat i)" if "f \<in> {c, e, h, Suc h}" "i < 4096" for f i
    using used_kept_byte [OF kept mem] mp(3) that by blast
  note bytes = message_byte_kept [OF us(1) ut(1) us(2) ut(2) this]
  have "iret_jump_user (r + off_context) t = iret_jump_user (r + off_context) s"
    by (simp add: iret_jump_user_def getf_off g ctx_offsets)
  then have "message_process msg r pid ks d c e h K t" using mp(1) ut bytes K
    unfolding message_process_def by (simp add: g struct_offsets)
  moreover have "\<forall>f\<in>{c, e, h, Suc h}. high_frame f \<and> frame_used t f" using mp(3) kept by (simp add: used_kept_def high_frame_def)
  ultimately show "settled a b msg r pid ks d c e h K t" using mp(2,4) live ut(3) b by (auto simp: settled_def)
qed

text \<open>The kernel between two demo processes.\<close>

definition demo_kernel :: "nat \<Rightarrow> nat \<Rightarrow> nat \<Rightarrow> blocks \<Rightarrow> 'a procs_scheme \<Rightarrow> bool" where
  "demo_kernel D T a bs s \<longleftrightarrow> kernel_mem D T a bs s \<and> cr3 s = KV2P (of_nat D) \<and> sched_inv s \<and> procs_allocated a bs s \<and>
     two_slots T (kmem s)"

text \<open>\<open>t\<close> has one process more than \<open>s\<close>, in slot \<open>i\<close>; all that was in use in \<open>s\<close> is as before.\<close>

definition process_added :: "nat \<Rightarrow> blocks \<Rightarrow> nat \<Rightarrow> u32 \<Rightarrow> 'a procs_scheme \<Rightarrow> 'a procs_scheme \<Rightarrow> bool" where
  "process_added a bs i r s t \<longleftrightarrow> r \<noteq> 0 \<and> proc_list t = (proc_list s)[i := r] \<and> live_procs t = insert r (live_procs s) \<and>
     pid_ctr t = pid_ctr s + 1 \<and> current_proc t = current_proc s \<and> used_kept a bs s t \<and>
     interrupt_handlers t = interrupt_handlers s \<and> procs.more t = procs.more s \<and>
     (\<forall>p\<in>live_procs s. \<forall>j<26. getf p (4 * of_nat j) t = getf p (4 * of_nat j) s)"

lemma process_blocks_Suc:
  assumes "process_blocks (Suc n) a bs = Some ((q, ks) # ps, bs')"
  obtains bs1 bs2 where "length bs < 4096" "fit_ok 112 bs" "spec_alloc 112 a bs = Some (q, bs1)"
    "length bs1 < 4096" "fit_ok 8192 bs1" "spec_alloc 8192 a bs1 = Some (ks, bs2)" "process_blocks n a bs2 = Some (ps, bs')"
  using assms that by (auto split: if_splits bind_splits)

lemma make_step:
  fixes s :: "'a procs_scheme"
  assumes dk: "demo_kernel D T a bs s" and fr: "frames_for (Suc n) s" and pb: "process_blocks (Suc m) a bs = Some ((q, ks) # ps, bs')"
    and slot: "find_slot s = Some i" "proc_list s ! i = 0" and msg: "length msg < 4096"
  obtains t bs2 d c e h where "make_user_proc_with_message (Some msg) s = Some (of_nat q, t)" "process_added a bs i (of_nat q) s t"
    "demo_kernel D T a bs2 t" "frames_for n t" "process_blocks m a bs2 = Some (ps, bs')" "block_end a bs2 = block_end a bs"
    "settled a (block_end a bs) msg (of_nat q) (pid_ctr s) ks d c e h (\<lambda>j. word_at (kmem s) (D + 4 * j)) t"
    "distinct [c, e, h, Suc h]" "\<forall>f\<in>owned d c e h (kmem t). \<not> frame_used s f"
proof -
  have inv: "kernel_mem D T a bs s" "cr3 s = KV2P (of_nat D)" "sched_inv s" "procs_allocated a bs s" "two_slots T (kmem s)"
    using dk by (simp_all add: demo_kernel_def)
  obtain bs1 bs2 where b: "length bs < 4096" "fit_ok 112 bs" "spec_alloc 112 a bs = Some (q, bs1)"
    "length bs1 < 4096" "fit_ok 8192 bs1" "spec_alloc 8192 a bs1 = Some (ks, bs2)" "process_blocks m a bs2 = Some (ps, bs')"
    using process_blocks_Suc [OF pb] .
  note ff = frames_for_fits [OF fr]
  then obtain d g where dg: "first_fit s 0 LOW_FRAMES 2 = Some d" "first_fit s LOW_FRAMES ALL_FRAMES 4 = Some g" by blast
  obtain r t where rt: "make_user_proc_with_message (Some msg) s = Some (r, t)"
    "if r = 0 then low_memory_full t \<and> card (free_low s) \<le> 4
     else r = of_nat q \<and> proc_list t = (proc_list s)[i := r] \<and> pid_ctr t = pid_ctr s + 1 \<and> current_proc t = current_proc s \<and>
       (\<exists>c e h. distinct [c, e, h, Suc h] \<and> (\<forall>f\<in>{c, e, h, Suc h}. high_frame f \<and> \<not> frame_used s f) \<and>
          (\<forall>f\<in>{c, e, h, Suc h}. frame_used t f) \<and> (\<forall>f\<in>space_frames (kmem t) d. \<not> frame_used s f) \<and>
          tight_space (used_frames s \<union> {c, e, h, Suc h}) d t \<and>
          message_process msg r (pid_ctr s) ks d c e h (\<lambda>j. word_at (kmem s) (D + 4 * j)) t) \<and>
       kernel_mem D T a bs2 t \<and> cr3 t = cr3 s \<and> sched_inv t \<and> procs_allocated a bs2 t \<and> used_kept a bs s t \<and>
       block_end a bs2 = block_end a bs \<and> interrupt_handlers t = interrupt_handlers s \<and> procs.more t = procs.more s \<and>
       (\<forall>p\<in>live_procs s. \<forall>j<26. getf p (4 * of_nat j) t = getf p (4 * of_nat j) s)"
    using make_user_proc_ok [OF inv(1-4) slot b(1-6) dg inv(5) msg] by blast
  have "r \<noteq> 0" using rt(2) ff(3) by auto
  note u = rt(2) [unfolded if_not_P [OF this]]
  then obtain c e h where ce: "distinct [c, e, h, Suc h]" "\<forall>f\<in>{c, e, h, Suc h}. high_frame f \<and> \<not> frame_used s f"
    "\<forall>f\<in>{c, e, h, Suc h}. frame_used t f" "\<forall>f\<in>space_frames (kmem t) d. \<not> frame_used s f"
    "tight_space (used_frames s \<union> {c, e, h, Suc h}) d t"
    "message_process msg r (pid_ctr s) ks d c e h (\<lambda>j. word_at (kmem s) (D + 4 * j)) t" by blast
  from u have t: "r = of_nat q" "proc_list t = (proc_list s)[i := r]" "pid_ctr t = pid_ctr s + 1" "current_proc t = current_proc s"
    "kernel_mem D T a bs2 t" "cr3 t = cr3 s" "sched_inv t" "procs_allocated a bs2 t" "used_kept a bs s t" "block_end a bs2 = block_end a bs"
    "\<forall>p\<in>live_procs s. \<forall>j<26. getf p (4 * of_nat j) t = getf p (4 * of_nat j) s"
    "interrupt_handlers t = interrupt_handlers s" "procs.more t = procs.more s" by blast+
  have "i < length (proc_list s)" using find_slot_bound [OF slot(1)] inv(3) by (simp add: sched_inv_def)
  note live = live_update [OF t(2) slot(2) this \<open>r \<noteq> 0\<close>]
  have us: "user_space d t" "upage (kmem t) d = user_pages c e h" using ce(6) by (simp_all add: message_process_def)
  note mf = message_frames [OF us ce(5)]
  have uf: "used_frames t \<subseteq> used_frames s \<union> {c, e, h, Suc h} \<union> space_frames (kmem t) d" using ce(5) unfolding tight_space_def by blast
  have cf: "card {c, e, h, Suc h} \<le> 4" using card_length [of "[c, e, h, Suc h]"] by simp
  have hf: "LOW_FRAMES \<le> f" if "f \<in> {c, e, h, Suc h}" for f using ce(2) that unfolding high_frame_def by blast
  have sf: "frames_for n t" by (rule frames_for_step [OF fr uf _ mf(2) cf mf(3) hf mf(1)]) simp_all
  have apart: "space_frames (kmem t) d \<inter> word_frame ` {a..<block_end a bs} = {}" using ce(4) kernel_mem_frames(1) [OF inv(1)] by blast
  have "two_slots T (kmem t)"
  proof -
    obtain k l where kl: "LOW_FRAMES \<le> k" "k < l" "l < 0x40000" "word_at (kmem s) (T + 4 * k) = 0" "word_at (kmem s) (T + 4 * l) = 0"
      using inv(5) unfolding two_slots_def by blast
    then show ?thesis unfolding two_slots_def using used_kept_kernel(2) [OF inv(1) t(9), of k] used_kept_kernel(2) [OF inv(1) t(9), of l]
      by (intro exI [of _ k] exI [of _ l]) simp
  qed
  then have "demo_kernel D T a bs2 t" using t inv by (simp add: demo_kernel_def)
  moreover have "settled a (block_end a bs) msg r (pid_ctr s) ks d c e h (\<lambda>j. word_at (kmem s) (D + 4 * j)) t"
    using ce live apart by (simp add: settled_def)
  moreover have "process_added a bs i r s t" using \<open>r \<noteq> 0\<close> t live by (simp add: process_added_def)
  ultimately show ?thesis using that [of t bs2 d c e h] rt(1) sf b(7) t(1,10) ce(1,2,4) by (simp add: owned_def)
qed

lemma settled_enter:
  fixes s t :: "'a procs_scheme"
  assumes st: "settled a b msg r pid ks d c e h K s" and mem: "kernel_mem D T a bs s" and b: "b = block_end a bs"
    and inv: "sched_inv s" "procs_allocated a bs s" and p: "p \<in> live_procs s" and v: "bit v 9"
    and t: "kmem t = kmem (setf p (off_context + ctx_eflags) v s)" "framemap t = framemap s" "proc_list t = proc_list s"
  shows "settled a b msg r pid ks d c e h K t" "space_frames (kmem t) d = space_frames (kmem s) d"
proof -
  let ?q = "unat p + 48"
  have mp: "message_process msg r pid ks d c e h K s" "r \<in> live_procs s" "\<forall>f\<in>{c, e, h, Suc h}. high_frame f \<and> frame_used s f"
    "space_frames (kmem s) d \<inter> word_frame ` {a..<block_end a bs} = {}" using st by (simp_all add: settled_def b)
  have us: "user_space d s" "upage (kmem s) d = user_pages c e h" using mp(1) by (simp_all add: message_process_def)
  have ok: "proc_ok p" "proc_ok r" "r \<noteq> p \<longrightarrow> procs_apart p r" "struct_words (unat p) \<subseteq> used_payload a bs"
    using inv p mp(2) by (auto simp: sched_inv_def procs_allocated_def)
  have x48: "off_context + ctx_eflags = 4 * of_nat 12" by (simp add: off_context_def ctx_eflags_def)
  have g: "getf r x t = (if r = p \<and> x = 48 then v else getf r x s)" if x: "4 dvd unat x" "unat x < 104" for x
  proof -
    obtain j where j: "unat x = 4 * j" using x(1) by (elim dvdE)
    then have xj: "x = 4 * of_nat j" by (metis of_nat_mult of_nat_numeral of_nat_unat_u32)
    have "j = 12 \<longleftrightarrow> x = 48" using j by (auto simp: xj)
    then show ?thesis using getf_setf [OF ok(1,2), of 12 j v s] ok(3) j x(2) unfolding same_mem_getf [OF t(1)] x48 xj by auto
  qed
  have q: "?q \<in> used_payload a bs" using ok(4) by (auto simp: struct_words_def)
  then have win: "in_window ?q" "word_frame ?q \<notin> space_frames (kmem s) d"
    using kernel_mem_frames(1) [OF mem, of ?q] used_payload_bounds [of ?q a bs] mp(4) by auto
  have ag: "agree {?q} (kmem s) (kmem t)"
  proof -
    have "p + (off_context + ctx_eflags) = of_nat ?q" by (simp add: off_context_def ctx_eflags_def)
    moreover have "4 dvd ?q" "?q < 2 ^ 32" using ok(1) by (auto simp: proc_ok_def)
    ultimately show ?thesis using agree_store [of ?q "kmem s" v] unfolding t(1) by (simp add: setf_def)
  qed
  note sp = space_agree [OF us(1) ag t(2)]
  have ut: "user_space d t" "upage (kmem t) d = user_pages c e h" "space_frames (kmem t) d = space_frames (kmem s) d"
    "\<And>j. j < 1024 \<Longrightarrow> fword (kmem t) d j = fword (kmem s) d j" using sp win us(2) by simp_all
  show "space_frames (kmem t) d = space_frames (kmem s) d" by (fact ut(3))
  have "kmem t (fptr f 0 + of_nat i) = kmem s (fptr f 0 + of_nat i)" if "f \<in> {c, e, h, Suc h}" "i < 4096" for f i
  proof (rule high_byte_same [OF _ that(2)])
    show "high_frame f" using mp(3) that(1) by blast
    show "word_at (kmem t) w = word_at (kmem s) w" if "w < 2 ^ 32" "4 dvd w" "\<not> in_window w" for w
      using win(1) that by (intro agree_word [OF ag]) auto
  qed
  note bytes = message_byte_kept [OF us(1) ut(1) us(2) ut(2) this]
  obtain fl where fl: "iret_jump_user (r + off_context) s =
      \<lparr>u_eip = USER_TEST_CODE_VA, u_cs = 0x1B, u_eflags = fl, u_esp = 0xBFFFFFE0, u_ss = 0x23\<rparr>" "bit fl 9"
    using mp(1) unfolding message_process_def by blast
  have "iret_jump_user (r + off_context) t =
      \<lparr>u_eip = USER_TEST_CODE_VA, u_cs = 0x1B, u_eflags = if r = p then v else fl, u_esp = 0xBFFFFFE0, u_ss = 0x23\<rparr>"
    using fl(1) by (simp add: iret_jump_user_def getf_off g ctx_offsets)
  then have "message_process msg r pid ks d c e h K t" using mp(1) ut bytes v fl(2)
    unfolding message_process_def by (simp add: g struct_offsets)
  then show "settled a b msg r pid ks d c e h K t" using mp(2-4) ut(3) t(2,3) b
    by (simp add: settled_def live_procs_def frame_used_def)
qed

lemma settled_cong:
  fixes s t :: "'a procs_scheme"
  assumes "kmem t = kmem s" "framemap t = framemap s" "proc_list t = proc_list s"
  shows "settled a b msg r pid ks d c e h K t = settled a b msg r pid ks d c e h K s"
  using assms user_space_cong [of t s d]
  by (simp add: settled_def message_process_def getf_def iret_jump_user_def live_procs_def frame_used_def)

lemma proc_enter_fields:
  fixes s :: "'a procs_scheme"
  assumes "proc_ok p" "proc_enter flags p s = (frame, t)"
  shows "current_proc t = p" "cr3 t = KV2P (getf p off_page_directory s)" "esp0 (tss t) = getf p off_kstack_top s"
    "kmem t = kmem (setf p (off_context + ctx_eflags) (flags OR 0x200) s)" "framemap t = framemap s" "proc_list t = proc_list s"
    "frame = (iret_jump_user (p + off_context) s)\<lparr>u_eflags := flags OR 0x200\<rparr>"
    "interrupt_handlers t = interrupt_handlers s" "procs.more t = procs.more s"
proof -
  have f: "getf p x t = getf p x (setf p (off_context + ctx_eflags) (flags OR 0x200) s)" for x
    using assms(2) by (auto simp: proc_enter_def Let_def tss_set_kernel_stack_def swap_dir_def setf_def getf_def)
  show "current_proc t = p" "cr3 t = KV2P (getf p off_page_directory s)" "esp0 (tss t) = getf p off_kstack_top s"
    "kmem t = kmem (setf p (off_context + ctx_eflags) (flags OR 0x200) s)" "framemap t = framemap s" "proc_list t = proc_list s"
    "interrupt_handlers t = interrupt_handlers s" "procs.more t = procs.more s"
    using assms(2) by (auto simp: proc_enter_def Let_def tss_set_kernel_stack_def swap_dir_def setf_def getf_def)
  have "frame = iret_jump_user (p + off_context) t" using assms(2) by (simp add: proc_enter_def Let_def) auto
  then show "frame = (iret_jump_user (p + off_context) s)\<lparr>u_eflags := flags OR 0x200\<rparr>"
    by (simp add: iret_jump_user_def getf_off f ctx_offsets getf_setf_off [OF assms(1)])
qed

text \<open>Processes for several messages, one after the other.\<close>

fun make_all :: "string list \<Rightarrow> 'a procs_scheme \<Rightarrow> (u32 list \<times> 'a procs_scheme) option" where
  "make_all [] s = Some ([], s)"
| "make_all (msg # msgs) s =
     do {
       (r, s) \<leftarrow> make_user_proc_with_message (Some msg) s;
       (rs, s) \<leftarrow> make_all msgs s;
       Some (r # rs, s)
     }"

lemma settled_K:
  assumes "settled a b msg r pid ks d c e h K t" "\<forall>j<1024. K' j = K j"
  shows "settled a b msg r pid ks d c e h K' t"
  using assms by (simp add: settled_def message_process_def)

lemma find_slot_at:
  assumes "1 \<le> i" "i < MAXPROC" "proc_list s ! i = 0" "\<And>j. 1 \<le> j \<Longrightarrow> j < i \<Longrightarrow> \<not> slot_free j s"
  shows "find_slot s = Some i"
  unfolding find_slot_def find_Some_iff
proof (intro exI [of _ "i - 1"] conjI allI impI)
  fix j assume "j < i - 1"
  then show "\<not> slot_free ([1..<MAXPROC] ! j) s" using assms(2,4) by simp
qed (use assms(1-3) in \<open>auto simp: slot_free_def\<close>)

lemma settled_slot:
  assumes "settled a b msg r pid ks d c e h K t" "proc_list t ! i = r" "r \<noteq> 0"
  shows "\<not> slot_free i t"
  using assms by (simp add: settled_def message_process_def slot_free_def)

lemma added_slots:
  assumes "process_added a bs i r s t" "sched_inv s" "j < MAXPROC" "j \<noteq> i"
  shows "slot_free j t = slot_free j s" "proc_list t ! j = proc_list s ! j"
proof -
  show pj: "proc_list t ! j = proc_list s ! j" using assms by (simp add: process_added_def)
  have x: "off_procstate = 4 * of_nat 15" by (simp add: off_procstate_def)
  show "slot_free j t = slot_free j s"
  proof (cases "proc_list s ! j = 0")
    case False
    then have "proc_list s ! j \<in> live_procs s" using assms(2,3) by (simp add: live_procs_def sched_inv_def)
    then have "getf (proc_list s ! j) off_procstate t = getf (proc_list s ! j) off_procstate s"
      using assms(1) unfolding process_added_def x by (simp del: of_nat_numeral)
    then show ?thesis by (simp add: slot_free_def pj)
  qed (simp add: slot_free_def pj)
qed

text \<open>From \<open>s\<close> to \<open>t\<close> whatever is in use stays in use, and processes that are settled stay so.\<close>

definition all_kept :: "nat \<Rightarrow> nat \<Rightarrow> 'a procs_scheme \<Rightarrow> 'a procs_scheme \<Rightarrow> bool" where
  "all_kept a b s t \<longleftrightarrow> (interrupt_handlers t = interrupt_handlers s \<and> procs.more t = procs.more s) \<and> (\<forall>f<ALL_FRAMES. frame_used s f \<longrightarrow> frame_used t f) \<and>
     (\<forall>msg r pid ks d c e h K. settled a b msg r pid ks d c e h K s \<longrightarrow>
        settled a b msg r pid ks d c e h K t \<and> space_frames (kmem t) d = space_frames (kmem s) d)"

lemma all_keptD:
  assumes "all_kept a b s t"
  shows "interrupt_handlers t = interrupt_handlers s \<and> procs.more t = procs.more s" "f < ALL_FRAMES \<Longrightarrow> frame_used s f \<Longrightarrow> frame_used t f"
    "settled a b msg r pid ks d c e h K s \<Longrightarrow> settled a b msg r pid ks d c e h K t"
    "settled a b msg r pid ks d c e h K s \<Longrightarrow> space_frames (kmem t) d = space_frames (kmem s) d"
proof -
  note k = assms [unfolded all_kept_def]
  show "interrupt_handlers t = interrupt_handlers s \<and> procs.more t = procs.more s" "f < ALL_FRAMES \<Longrightarrow> frame_used s f \<Longrightarrow> frame_used t f"
    by (rule k [THEN conjunct1], rule k [THEN conjunct2, THEN conjunct1, rule_format])
  note st = k [THEN conjunct2, THEN conjunct2, rule_format]
  show "settled a b msg r pid ks d c e h K s \<Longrightarrow> settled a b msg r pid ks d c e h K t" by (rule st [THEN conjunct1])
  show "settled a b msg r pid ks d c e h K s \<Longrightarrow> space_frames (kmem t) d = space_frames (kmem s) d" by (rule st [THEN conjunct2])
qed

lemma all_kept_trans:
  assumes "all_kept a b s t" "all_kept a b t u"
  shows "all_kept a b s u"
  unfolding all_kept_def
proof (intro conjI allI impI)
  fix msg r pid ks d c e h K assume st: "settled a b msg r pid ks d c e h K s"
  note t = all_keptD(3) [OF assms(1) st]
  show "settled a b msg r pid ks d c e h K u" by (rule all_keptD(3) [OF assms(2) t])
  show "space_frames (kmem u) d = space_frames (kmem s) d" by (simp only: all_keptD(4) [OF assms(2) t] all_keptD(4) [OF assms(1) st])
qed (use all_keptD(1,2) [OF assms(1)] all_keptD(1,2) [OF assms(2)] in simp_all)

text \<open>
  A process for \<open>msg\<close>, with the blocks \<open>p\<close>, in slot \<open>i\<close> of \<open>t\<close>: its frames were free in \<open>s\<close>.
\<close>

definition process_in :: "nat \<Rightarrow> nat \<Rightarrow> string \<Rightarrow> nat \<times> nat \<Rightarrow> u32 \<Rightarrow> nat \<Rightarrow> nat \<Rightarrow> nat \<Rightarrow> nat \<Rightarrow> (nat \<Rightarrow> u32) \<Rightarrow> nat \<Rightarrow>
    'a procs_scheme \<Rightarrow> 'a procs_scheme \<Rightarrow> bool" where
  "process_in a b msg p pid d c e h K i s t \<longleftrightarrow> of_nat (fst p) \<noteq> (0 :: u32) \<and> proc_list t ! i = of_nat (fst p) \<and>
     settled a b msg (of_nat (fst p)) pid (snd p) d c e h K t \<and> distinct [c, e, h, Suc h] \<and>
     (\<forall>f\<in>owned d c e h (kmem t). \<not> frame_used s f)"

lemma settled_bound:
  assumes "settled a b msg r pid ks d c e h K t" "f \<in> owned d c e h (kmem t)"
  shows "f < ALL_FRAMES"
proof -
  have us: "user_space d t" "\<forall>f\<in>{c, e, h, Suc h}. high_frame f" using assms(1) by (simp_all add: settled_def message_process_def)
  have "f < ALL_FRAMES" if "f \<in> space_frames (kmem t) d"
    using that user_space_bounds [OF us(1)] user_space_table(3) [OF us(1)] by (force simp: space_frames_def)
  moreover have "f < ALL_FRAMES" if "f \<in> {c, e, h, Suc h}" using that us(2) unfolding high_frame_def by blast
  ultimately show ?thesis using assms(2) unfolding owned_def by blast
qed

lemma process_in_earlier:
  assumes "process_in a b msg p pid d c e h K i t u" "\<And>f. f < ALL_FRAMES \<Longrightarrow> frame_used s f \<Longrightarrow> frame_used t f"
  shows "process_in a b msg p pid d c e h K i s u"
proof -
  have st: "settled a b msg (of_nat (fst p)) pid (snd p) d c e h K u" using assms(1) by (simp add: process_in_def)
  have "\<not> frame_used s f" if f: "f \<in> owned d c e h (kmem u)" for f
    using assms(1) assms(2) [OF settled_bound [OF st f]] f unfolding process_in_def by blast
  then show ?thesis using assms(1) unfolding process_in_def by blast
qed

lemma process_in_later:
  assumes "process_in a b msg p pid d c e h K i s t" "all_kept a b t u" "proc_list u ! i = proc_list t ! i"
  shows "process_in a b msg p pid d c e h K i s u" "owned d c e h (kmem u) = owned d c e h (kmem t)"
proof -
  have st: "settled a b msg (of_nat (fst p)) pid (snd p) d c e h K t" using assms(1) by (simp add: process_in_def)
  show ow: "owned d c e h (kmem u) = owned d c e h (kmem t)" using all_keptD(4) [OF assms(2) st] by (simp add: owned_def)
  show "process_in a b msg p pid d c e h K i s u" using assms(1,3) all_keptD(3) [OF assms(2) st] by (simp add: process_in_def ow)
qed

text \<open>
  From \<open>s\<close> to \<open>t\<close> processes with the blocks \<open>ps\<close> were added from slot \<open>i\<close> on, which share no frame.
\<close>

definition processes_added ::
    "nat \<Rightarrow> nat \<Rightarrow> (nat \<Rightarrow> u32) \<Rightarrow> nat \<Rightarrow> string list \<Rightarrow> (nat \<times> nat) list \<Rightarrow> (nat \<Rightarrow> nat) \<Rightarrow> (nat \<Rightarrow> nat) \<Rightarrow> (nat \<Rightarrow> nat) \<Rightarrow> (nat \<Rightarrow> nat) \<Rightarrow>
     'a procs_scheme \<Rightarrow> 'a procs_scheme \<Rightarrow> bool" where
  "processes_added a b K i msgs ps d c e h s t \<longleftrightarrow> length ps = length msgs \<and> (\<forall>j<i. proc_list t ! j = proc_list s ! j) \<and>
     (\<forall>j<length msgs. process_in a b (msgs ! j) (ps ! j) (pid_ctr s + of_nat j) (d j) (c j) (e j) (h j) K (i + j) s t \<and>
        (\<forall>k<j. owned (d j) (c j) (e j) (h j) (kmem t) \<inter> owned (d k) (c k) (e k) (h k) (kmem t) = {}))"

lemma make_all_ok:
  fixes s :: "'a procs_scheme"
  assumes "demo_kernel D T a bs s" "frames_for (length msgs) s" "process_blocks (length msgs) a bs = Some (ps, bs')"
    and "\<forall>j<length msgs. proc_list s ! (i + j) = 0" "\<forall>j. 1 \<le> j \<and> j < i \<longrightarrow> \<not> slot_free j s" "1 \<le> i" "i + length msgs \<le> MAXPROC"
    and "\<forall>m\<in>set msgs. length m < 4096" "\<forall>j<1024. K j = word_at (kmem s) (D + 4 * j)" "b = block_end a bs"
  shows "\<exists>t d c e h. make_all msgs s = Some (map (of_nat \<circ> fst) ps, t) \<and> demo_kernel D T a bs' t \<and> b = block_end a bs' \<and>
    all_kept a b s t \<and> processes_added a b K i msgs ps d c e h s t"
  using assms
proof (induction msgs arbitrary: s bs ps i)
  case Nil
  then show ?case by (auto simp: processes_added_def all_kept_def)
next
  case (Cons msg msgs)
  from Cons.prems(3) obtain q ks ps1 where ps: "ps = (q, ks) # ps1" by (auto split: if_splits bind_splits)
  have i: "find_slot s = Some i" "proc_list s ! i = 0" "i < MAXPROC"
    using Cons.prems(4-7) by (auto intro!: find_slot_at)
  have fr: "frames_for (Suc (length msgs)) s" and pb: "process_blocks (Suc (length msgs)) a bs = Some ((q, ks) # ps1, bs')"
    and m: "length msg < 4096" using Cons.prems(2,3,8) unfolding ps by simp_all
  obtain t bs2 d c e h where t: "make_user_proc_with_message (Some msg) s = Some (of_nat q, t)" "process_added a bs i (of_nat q) s t"
    "demo_kernel D T a bs2 t" "frames_for (length msgs) t" "process_blocks (length msgs) a bs2 = Some (ps1, bs')" "block_end a bs2 = block_end a bs"
    "settled a (block_end a bs) msg (of_nat q) (pid_ctr s) ks d c e h (\<lambda>j. word_at (kmem s) (D + 4 * j)) t"
    "distinct [c, e, h, Suc h]" "\<forall>f\<in>owned d c e h (kmem t). \<not> frame_used s f"
    using make_step [OF Cons.prems(1) fr pb i(1,2) m] .
  have mem: "kernel_mem D T a bs s" "sched_inv s" using Cons.prems(1) by (simp_all add: demo_kernel_def)
  note add = t(2) [unfolded process_added_def]
  have old: "settled a b msg r pid ks d c e h K t \<and> space_frames (kmem t) d = space_frames (kmem s) d"
    if "settled a b msg r pid ks d c e h K s" for msg r pid ks d c e h K
    using settled_kept [OF that mem(1) _ Cons.prems(10)] add by blast
  have K: "\<forall>j<1024. K j = word_at (kmem t) (D + 4 * j)"
    using Cons.prems(9) used_kept_kernel(1) [OF mem(1)] add by auto
  have new: "settled a b msg (of_nat q) (pid_ctr s) ks d c e h K t"
    using settled_K [OF t(7)] Cons.prems(9,10) by blast
  have pl: "proc_list t ! i = of_nat q" using add mem(2) i(3) by (simp add: sched_inv_def)
  have sl: "proc_list t ! j = proc_list s ! j" "slot_free j t = slot_free j s" if "j < MAXPROC" "j \<noteq> i" for j
    using added_slots [OF t(2) mem(2) that] by simp_all
  have free: "\<not> slot_free j t" if "1 \<le> j" "j < Suc i" for j
    using that settled_slot [OF new pl] add sl(2) [of j] i(3) Cons.prems(5) by (cases "j = i") auto
  have empty: "\<forall>j<length msgs. proc_list t ! (Suc i + j) = 0"
  proof (intro allI impI)
    fix j assume "j < length msgs"
    then show "proc_list t ! (Suc i + j) = 0" using sl(1) [of "Suc i + j"] Cons.prems(4,7) by (auto dest: spec [of _ "Suc j"])
  qed
  have side: "\<forall>j. 1 \<le> j \<and> j < Suc i \<longrightarrow> \<not> slot_free j t" "1 \<le> Suc i" "Suc i + length msgs \<le> MAXPROC" "\<forall>m\<in>set msgs. length m < 4096"
    "b = block_end a bs2" using free Cons.prems(7,8,10) t(6) by simp_all
  obtain u d' c' e' h' where u: "make_all msgs t = Some (map (of_nat \<circ> fst) ps1, u)" "demo_kernel D T a bs' u" "b = block_end a bs'"
      "all_kept a b t u" and added: "processes_added a b K (Suc i) msgs ps1 d' c' e' h' t u"
    using Cons.IH [OF t(3-5) empty side(1-4) K side(5)] by blast
  have kt: "all_kept a b s t" unfolding all_kept_def using add old by (simp add: used_kept_def)
  have first: "process_in a b msg (q, ks) (pid_ctr s) d c e h K i s t" using new pl add t(8,9) by (simp add: process_in_def)
  note later = process_in_later [OF first u(4)]
  have su: "length ps1 = length msgs" "\<And>j. j < Suc i \<Longrightarrow> proc_list u ! j = proc_list t ! j"
    "\<And>j. j < length msgs \<Longrightarrow> process_in a b (msgs ! j) (ps1 ! j) (pid_ctr t + of_nat j) (d' j) (c' j) (e' j) (h' j) K (Suc i + j) t u"
    "\<And>j k. j < length msgs \<Longrightarrow> k < j \<Longrightarrow> owned (d' j) (c' j) (e' j) (h' j) (kmem u) \<inter> owned (d' k) (c' k) (e' k) (h' k) (kmem u) = {}"
    using added by (simp_all add: processes_added_def)
  have "processes_added a b K i (msg # msgs) ps (case_nat d d') (case_nat c c') (case_nat e e') (case_nat h h') s u"
    unfolding processes_added_def
  proof (intro conjI allI impI)
    show "length ps = length (msg # msgs)" using su(1) by (simp add: ps)
    show "proc_list u ! j = proc_list s ! j" if "j < i" for j using that su(2) [of j] sl(1) [of j] i(3) by simp
  next
    fix j assume j: "j < length (msg # msgs)"
    show "process_in a b ((msg # msgs) ! j) (ps ! j) (pid_ctr s + of_nat j) (case j of 0 \<Rightarrow> d | Suc x \<Rightarrow> d' x) (case j of 0 \<Rightarrow> c | Suc x \<Rightarrow> c' x)
        (case j of 0 \<Rightarrow> e | Suc x \<Rightarrow> e' x) (case j of 0 \<Rightarrow> h | Suc x \<Rightarrow> h' x) K (i + j) s u"
    proof (cases j)
      case 0
      then show ?thesis using later(1) su(2) [of i] by (simp add: ps)
    next
      case (Suc k)
      then have "process_in a b (msgs ! k) (ps1 ! k) (pid_ctr s + of_nat (Suc k)) (d' k) (c' k) (e' k) (h' k) K (Suc i + k) t u"
        using su(3) [of k] j add by (simp add: add.assoc)
      from process_in_earlier [OF this all_keptD(2) [OF kt]] show ?thesis using Suc by (simp add: ps)
    qed
  next
    fix j k assume jk: "j < length (msg # msgs)" "k < j"
    then obtain j' where j': "j = Suc j'" "j' < length msgs" by (cases j) auto
    have "owned (d' j') (c' j') (e' j') (h' j') (kmem u) \<inter> owned d c e h (kmem u) = {}"
    proof -
      have "\<not> frame_used t f" if "f \<in> owned (d' j') (c' j') (e' j') (h' j') (kmem u)" for f
        using su(3) [OF j'(2)] that unfolding process_in_def by blast
      then show ?thesis using settled_used [OF new] later(2) su(2) [of i] by auto
    qed
    moreover have "owned (d' j') (c' j') (e' j') (h' j') (kmem u) \<inter> owned (d' k') (c' k') (e' k') (h' k') (kmem u) = {}" if "k = Suc k'" for k'
      using su(4) [OF j'(2)] jk that j'(1) by simp
    ultimately
    show "owned (case j of 0 \<Rightarrow> d | Suc x \<Rightarrow> d' x) (case j of 0 \<Rightarrow> c | Suc x \<Rightarrow> c' x) (case j of 0 \<Rightarrow> e | Suc x \<Rightarrow> e' x)
        (case j of 0 \<Rightarrow> h | Suc x \<Rightarrow> h' x) (kmem u) \<inter>
      owned (case k of 0 \<Rightarrow> d | Suc x \<Rightarrow> d' x) (case k of 0 \<Rightarrow> c | Suc x \<Rightarrow> c' x) (case k of 0 \<Rightarrow> e | Suc x \<Rightarrow> e' x)
        (case k of 0 \<Rightarrow> h | Suc x \<Rightarrow> h' x) (kmem u) = {}" using j'(1) by (cases k) simp_all
  qed
  then show ?case using t(1) u(1-3) all_kept_trans [OF kt u(4)]
    by (intro exI [of _ u] exI [of _ "case_nat d d'"] exI [of _ "case_nat c c'"] exI [of _ "case_nat e e'"] exI [of _ "case_nat h h'"]) (simp add: ps)
qed

section \<open>The demo with three processes\<close>

definition demo_messages :: "string list" where
  "demo_messages = [''[1] hello world from a process'', ''[2] hello world from another process'', ''[3] hello world from yet another process'']"

lemma three_test_make_all:
  assumes "make_all demo_messages s = Some ([p1, p2, p3], t)" "p1 \<noteq> 0" "p2 \<noteq> 0" "p3 \<noteq> 0"
  obtains u where "kernel_three_process_test flags s = Some (User_mode (fst (proc_enter flags p1 u)) (snd (proc_enter flags p1 u)))"
    "kmem u = kmem t" "framemap u = framemap t" "proc_list u = proc_list t"
    "interrupt_handlers u = interrupt_handlers t" "procs.more u = procs.more t"
proof -
  obtain s1 s2 where "make_user_proc_with_message (Some ''[1] hello world from a process'') s = Some (p1, s1)"
    "make_user_proc_with_message (Some ''[2] hello world from another process'') s1 = Some (p2, s2)"
    "make_user_proc_with_message (Some ''[3] hello world from yet another process'') s2 = Some (p3, t)"
    using assms(1) by (auto simp: demo_messages_def split: bind_splits)
  note m = this
  define u where "u = kprint (''Jumping to first process, entering user mode for the first time via iret'' @ nl) []
    (kprint (''Launching three user processes; scheduler should alternate prints...'' @ nl) [] t)"
  have "kernel_three_process_test flags s = Some (User_mode (fst (proc_enter flags p1 u)) (snd (proc_enter flags p1 u)))"
    using assms(2-4) by (simp add: kernel_three_process_test_def u_def m case_prod_beta Let_def)
  moreover have "kmem u = kmem t" "framemap u = framemap t" "proc_list u = proc_list t"
    "interrupt_handlers u = interrupt_handlers t" "procs.more u = procs.more t"
    by (simp_all add: u_def procs_fields_of_kmm_more [OF kmm_fields_of_more(6) [OF kprint_more]])
  ultimately show ?thesis by (rule that)
qed

lemma enter_processes:
  fixes s t u :: "'a procs_scheme"
  assumes add: "processes_added a b K i msgs ps d c e h s t" and dk: "demo_kernel D T a bs t" and b: "b = block_end a bs"
    and j: "0 < length msgs" and u: "kmem u = kmem t" "framemap u = framemap t" "proc_list u = proc_list t"
    and v: "proc_enter flags (of_nat (fst (ps ! 0))) u = (frame, v)"
  shows "frame = \<lparr>u_eip = USER_TEST_CODE_VA, u_cs = 0x1B, u_eflags = flags OR 0x200, u_esp = 0xBFFFFFE0, u_ss = 0x23\<rparr>"
    "current_proc v = of_nat (fst (ps ! 0))" "cr3 v = frame_addr (d 0)" "esp0 (tss v) = of_nat (snd (ps ! 0)) + 8192" "sched_inv v"
    "processes_added a b K i msgs ps d c e h s v"
proof -
  let ?p = "of_nat (fst (ps ! 0)) :: u32"
  have inv: "kernel_mem D T a bs t" "sched_inv t" "procs_allocated a bs t" using dk by (simp_all add: demo_kernel_def)
  have st: "settled a b (msgs ! 0) ?p (pid_ctr s) (snd (ps ! 0)) (d 0) (c 0) (e 0) (h 0) K t" and p0: "?p \<noteq> 0"
    using add j by (auto simp: processes_added_def process_in_def dest: spec [of _ 0])
  have p: "?p \<in> live_procs t" using st by (simp add: settled_def)
  then have ok: "proc_ok ?p" using inv(2) by (simp add: sched_inv_def)
  have g: "getf ?p x u = getf ?p x t" for x by (rule same_mem_getf [OF u(1)])
  note f = proc_enter_fields [OF ok v]
  have mp: "getf ?p off_page_directory t = KP2V (frame_addr (d 0))" "getf ?p off_kstack_top t = of_nat (snd (ps ! 0)) + 8192"
    using st by (simp_all add: settled_def message_process_def)
  show "current_proc v = ?p" by (rule f(1))
  show "cr3 v = frame_addr (d 0)" using f(2) mp(1) g by (simp add: KV2P_def KP2V_def)
  show "esp0 (tss v) = of_nat (snd (ps ! 0)) + 8192" using f(3) mp(2) g by simp
  have pl: "proc_list v = proc_list t" "framemap v = framemap t" using f(5,6) u by simp_all
  show "sched_inv v" using inv(2) p pl(1) f(1) by (simp add: sched_inv_def live_procs_def)
  have "iret_jump_user (?p + off_context) u = iret_jump_user (?p + off_context) t" by (simp add: iret_jump_user_def getf_off g)
  then show "frame = \<lparr>u_eip = USER_TEST_CODE_VA, u_cs = 0x1B, u_eflags = flags OR 0x200, u_esp = 0xBFFFFFE0, u_ss = 0x23\<rparr>"
    using f(7) st by (auto simp: settled_def message_process_def)
  have bit9: "bit (flags OR 0x200) 9" by (simp add: bit_or_iff)
  have km: "kmem v = kmem (setf ?p (off_context + ctx_eflags) (flags OR 0x200) t)" using f(4) u(1) by (simp add: setf_def)
  note se = settled_enter [OF _ inv(1) b inv(2,3) p bit9 km pl(2,1)]
  have P: "process_in a b (msgs ! k) (ps ! k) (pid_ctr s + of_nat k) (d k) (c k) (e k) (h k) K (i + k) s v"
    "owned (d k) (c k) (e k) (h k) (kmem v) = owned (d k) (c k) (e k) (h k) (kmem t)" if "k < length msgs" for k
  proof -
    have pi: "process_in a b (msgs ! k) (ps ! k) (pid_ctr s + of_nat k) (d k) (c k) (e k) (h k) K (i + k) s t"
      using add that by (simp add: processes_added_def)
    then have sk: "settled a b (msgs ! k) (of_nat (fst (ps ! k))) (pid_ctr s + of_nat k) (snd (ps ! k)) (d k) (c k) (e k) (h k) K t"
      by (simp add: process_in_def)
    show ow: "owned (d k) (c k) (e k) (h k) (kmem v) = owned (d k) (c k) (e k) (h k) (kmem t)" using se(2) [OF sk] by (simp add: owned_def)
    show "process_in a b (msgs ! k) (ps ! k) (pid_ctr s + of_nat k) (d k) (c k) (e k) (h k) K (i + k) s v"
      using pi se(1) [OF sk] pl(1) by (simp add: process_in_def ow)
  qed
  show "processes_added a b K i msgs ps d c e h s v" using add P pl(1) by (simp add: processes_added_def)
qed

lemma three_demo_ok:
  fixes s :: "'a procs_scheme"
  assumes dk: "demo_kernel D T a bs s" and fr: "frames_for 3 s" and pb: "process_blocks 3 a bs = Some (ps, bs')"
    and slots: "\<forall>j\<in>{1, 2, 3}. proc_list s ! j = 0"
  shows "\<exists>t d c e h. kernel_three_process_test flags s = Some (User_mode
      \<lparr>u_eip = USER_TEST_CODE_VA, u_cs = 0x1B, u_eflags = flags OR 0x200, u_esp = 0xBFFFFFE0, u_ss = 0x23\<rparr> t) \<and>
    current_proc t = of_nat (fst (ps ! 0)) \<and> cr3 t = frame_addr (d 0) \<and> esp0 (tss t) = of_nat (snd (ps ! 0)) + 8192 \<and> sched_inv t \<and>
    processes_added a (block_end a bs) (\<lambda>j. word_at (kmem s) (D + 4 * j)) 1 demo_messages ps d c e h s t \<and>
    interrupt_handlers t = interrupt_handlers s \<and> procs.more t = procs.more s"
proof -
  let ?K = "\<lambda>j. word_at (kmem s) (D + 4 * j)"
  have n: "length demo_messages = 3" "\<forall>m\<in>set demo_messages. length m < 4096" by (simp_all add: demo_messages_def)
  have "\<forall>j<3. proc_list s ! (1 + j) = 0" using slots by (auto simp: numeral_2_eq_2 numeral_3_eq_3 less_Suc_eq)
  then obtain t d c e h where t: "make_all demo_messages s = Some (map (of_nat \<circ> fst) ps, t)" "demo_kernel D T a bs' t"
      "block_end a bs = block_end a bs'" "all_kept a (block_end a bs) s t" and added: "processes_added a (block_end a bs) ?K 1 demo_messages ps d c e h s t"
    using make_all_ok [OF dk, of demo_messages ps bs' 1 ?K "block_end a bs"] fr pb n by (auto simp: MAXPROC_def)
  have "length ps = 3" using added n(1) by (simp add: processes_added_def)
  then obtain x y z where ps: "ps = [x, y, z]" by (auto simp: numeral_3_eq_3 length_Suc_conv)
  have nz: "of_nat (fst (ps ! j)) \<noteq> (0 :: u32)" if "j < 3" for j using added that n(1) by (simp add: processes_added_def process_in_def)
  obtain u where u: "kernel_three_process_test flags s = Some (User_mode (fst (proc_enter flags (of_nat (fst x)) u)) (snd (proc_enter flags (of_nat (fst x)) u)))"
    "kmem u = kmem t" "framemap u = framemap t" "proc_list u = proc_list t"
    "interrupt_handlers u = interrupt_handlers t" "procs.more u = procs.more t"
    using three_test_make_all [of s "of_nat (fst x)" "of_nat (fst y)" "of_nat (fst z)" t flags] t(1) nz [of 0] nz [of 1] nz [of 2] by (auto simp: ps)
  obtain frame v where v: "proc_enter flags (of_nat (fst (ps ! 0))) u = (frame, v)" by (cases "proc_enter flags (of_nat (fst (ps ! 0))) u")
  have fst0: "proc_ok (of_nat (fst (ps ! 0)))"
    using added n(1) t(2) by (auto simp: processes_added_def process_in_def settled_def demo_kernel_def sched_inv_def live_procs_def in_set_conv_nth dest: spec [of _ 0])
  from enter_processes [OF added t(2,3) _ u(2-4) v] n(1) u(1,5,6) v proc_enter_fields(8,9) [OF fst0 v] all_keptD(1) [OF t(4)] show ?thesis
    by (intro exI [of _ v] exI [of _ d] exI [of _ c] exI [of _ e] exI [of _ h]) (simp add: ps)
qed

section \<open>The system call\<close>

lemma message_user_dir:
  assumes "user_space d t"
  shows "user_dir (kmem t) (KP2V (frame_addr d))"
proof -
  have "KP2V (frame_addr d) \<noteq> 0" using fptr_nonzero [OF user_space_bounds(1) [OF assms]] by simp
  moreover have "fword (kmem t) (Suc d) i = KP2V (entry_frame (fword (kmem t) d i) * 0x1000)"
    "KP2V (entry_frame (fword (kmem t) d i) * 0x1000) \<noteq> 0" if "i < 768" "entry_present (fword (kmem t) d i)" for i
  proof -
    have ht: "has_table (kmem t) d i" using that by (simp add: has_table_def)
    have e: "entry_frame (fword (kmem t) d i) * 0x1000 = frame_addr (table_frame (kmem t) d i)" by (simp add: table_frame_def frame_addr_def)
    show "fword (kmem t) (Suc d) i = KP2V (entry_frame (fword (kmem t) d i) * 0x1000)"
      "KP2V (entry_frame (fword (kmem t) d i) * 0x1000) \<noteq> 0"
      using user_space_table(3,4) [OF assms ht] fptr_nonzero by (simp_all add: e)
  qed
  ultimately show ?thesis by (simp add: user_dir_def Let_def load_fptr)
qed

lemma char_byte: "char_of (unat (of_char x :: u8)) = x"
proof -
  have "unat (of_char x :: u8) = nat (uint (of_char x :: u8))" by simp
  then show ?thesis unfolding uint_of_char by simp
qed

lemma char_of_zero: "char_of (0 :: nat) = CHR 0x00"
  by (simp add: char_of_def)

lemma message_string:
  assumes mp: "message_process msg r pid ks d c e h K t" and msg: "CHR 0x00 \<notin> set msg" "length msg < 4096"
    and n: "n = min (length msg) 255"
  shows "reads_string (kmem t) (KP2V (frame_addr d)) USER_TEST_DATA_VA n bs \<Longrightarrow> map (\<lambda>b. char_of (unat b)) bs = take n msg"
    "\<not> string_faults (kmem t) (KP2V (frame_addr d)) USER_TEST_DATA_VA n"
proof -
  have byte: "user_byte (kmem t) (KP2V (frame_addr d)) (USER_TEST_DATA_VA + of_nat k) = Some (of_char (msg ! k))" "of_char (msg ! k) \<noteq> (0 :: u8)"
    if k: "k < n" for k
  proof -
    have "data_page msg ! k = of_char (msg ! k)" using k n by (simp add: data_page_def nth_append)
    then show "user_byte (kmem t) (KP2V (frame_addr d)) (USER_TEST_DATA_VA + of_nat k) = Some (of_char (msg ! k))"
      using mp k n msg(2) by (simp add: message_process_def)
    have "k < length msg" using k n by simp
    then have "msg ! k \<noteq> CHR 0x00" using msg(1) nth_mem [of k msg] by metis
    then show "of_char (msg ! k) \<noteq> (0 :: u8)" using char_byte [of "msg ! k"] char_of_zero by (metis unsigned_0)
  qed
  show "\<not> string_faults (kmem t) (KP2V (frame_addr d)) USER_TEST_DATA_VA n" using byte by (auto simp: string_faults_def)
  assume r: "reads_string (kmem t) (KP2V (frame_addr d)) USER_TEST_DATA_VA n bs"
  then have len: "length bs \<le> n" "length bs = n \<or> user_byte (kmem t) (KP2V (frame_addr d)) (USER_TEST_DATA_VA + of_nat (length bs)) = Some 0"
    and at: "\<And>k. k < length bs \<Longrightarrow> user_byte (kmem t) (KP2V (frame_addr d)) (USER_TEST_DATA_VA + of_nat k) = Some (bs ! k)"
    by (simp_all add: reads_string_def)
  have l: "length bs = n" using len byte [of "length bs"] by fastforce
  show "map (\<lambda>b. char_of (unat b)) bs = take n msg"
  proof (rule nth_equalityI)
    show "length (map (\<lambda>b. char_of (unat b)) bs) = length (take n msg)" using l n by simp
    fix k assume "k < length (map (\<lambda>b. char_of (unat b)) bs)"
    then have k: "k < n" "bs ! k = of_char (msg ! k)" using at [of k] byte(1) [of k] l by auto
    then show "map (\<lambda>b. char_of (unat b)) bs ! k = take n msg ! k" using l by (simp add: char_byte)
  qed
qed

lemma message_interrupt:
  fixes t :: "'a intr_scheme"
  assumes mp: "message_process msg r pid ks d c e h K t" and msg: "CHR 0x00 \<notin> set msg" "msg \<noteq> []" "length msg < 4096"
    and run: "current_proc t = r" "r \<noteq> 0" "cr3 t = frame_addr d"
    and handlers: "interrupt_handlers t SYSCALL_VECTOR = Some Syscall_dispatch" "syscall_table t SYS_PRINT_STRING = Some Sys_print_string"
    and regs: "r_int_no regs = 0x80" "r_eax regs = SYS_PRINT_STRING" "r_ebx regs = USER_TEST_DATA_VA" "r_ecx regs = of_nat (length msg)"
  shows "isr_handler addr regs t = Some (Running (regs\<lparr>r_eax := SYSCALL_SUCCESS\<rparr>,
    kprint (''%s'' @ nl) [ArgS (take 255 msg)] (kprint (''printf syscall called from process %u'' @ nl) [ArgW pid] t)))"
proof -
  let ?dir = "KP2V (frame_addr d)" and ?n = "min (length msg) 255"
  define t1 where "t1 = kprint (''printf syscall called from process %u'' @ nl) [ArgW (getf (current_proc t) off_pid t)] t"
  have us: "user_space d t" "getf r off_page_directory t = ?dir" "getf r off_pid t = pid" using mp by (simp_all add: message_process_def)
  have len: "unat (of_nat (length msg) :: u32) = length msg" using msg(3) by (intro unat_of_nat_u32) simp
  then have nz: "r_ecx regs \<noteq> 0" using msg(2) regs(4) by auto
  have n: "?n = min (unat (r_ecx regs)) 255" using regs(4) len by simp
  have c3: "cr3 t = KV2P ?dir" using run(3) by (simp add: KV2P_def KP2V_def)
  have bz: "r_ebx regs \<noteq> 0" by (simp add: regs(3) USER_TEST_DATA_VA_def)
  have cur: "current_proc t \<noteq> 0" "?dir = getf (current_proc t) off_page_directory t" using run us(2) by simp_all
  from sys_print_string_cases [OF cur message_user_dir [OF us(1)] c3 bz nz t1_def n]
  consider bs where "reads_string (kmem t) ?dir (r_ebx regs) ?n bs" "sys_print_string regs t =
      Some (regs\<lparr>r_eax := SYSCALL_SUCCESS\<rparr>, kprint (''%s'' @ nl) [ArgS (map (\<lambda>b. char_of (unat b)) bs)] t1)"
    | "string_faults (kmem t) ?dir (r_ebx regs) ?n"
    by blast
  then have "sys_print_string regs t = Some (regs\<lparr>r_eax := SYSCALL_SUCCESS\<rparr>, kprint (''%s'' @ nl) [ArgS (take 255 msg)] t1)"
  proof cases
    case 1
    then show ?thesis using message_string(1) [OF mp msg(1,3) refl] regs(3) by (simp add: min_def) 
  next
    case 2
    then show ?thesis using message_string(2) [OF mp msg(1,3) refl] regs(3) by simp
  qed
  moreover have "ucast (r_int_no regs) = SYSCALL_VECTOR" by (simp add: regs(1) SYSCALL_VECTOR_def)
  ultimately show ?thesis using handlers regs(1,2) run(1) us(3)
    by (simp add: isr_handler_def call_handler_def syscall_dispatch_def SYS_PRINT_STRING_def SYSCALL_MAX_def t1_def)
qed

text \<open>
  C14: On a well-formed kernel with three empty slots and memory for three processes,
  \<^verbatim>\<open>kernel_three_process_test\<close> creates the three processes, in slots 1 to 3 with consecutive pids, and enters
  user mode at the first one's code page, on its stack, in its address space and with its kernel stack in
  the task state. Each process reads its own program and message, the frames it has were free
  before and no two processes share one, and the process table is well formed.
\<close>

theorem three_process_demo:
  fixes s :: "'a procs_scheme"
  assumes "demo_kernel D T a bs s" and "frames_for 3 s" and "process_blocks 3 a bs = Some (ps, bs')"
    and "\<forall>j\<in>{1, 2, 3}. proc_list s ! j = 0"
  shows "\<exists>t d c e h. kernel_three_process_test flags s = Some (User_mode
      \<lparr>u_eip = USER_TEST_CODE_VA, u_cs = 0x1B, u_eflags = flags OR 0x200, u_esp = 0xBFFFFFE0, u_ss = 0x23\<rparr> t) \<and>
    current_proc t = of_nat (fst (ps ! 0)) \<and> cr3 t = frame_addr (d 0) \<and> esp0 (tss t) = of_nat (snd (ps ! 0)) + 8192 \<and> sched_inv t \<and>
    processes_added a (block_end a bs) (\<lambda>j. word_at (kmem s) (D + 4 * j)) 1 demo_messages ps d c e h s t \<and>
    interrupt_handlers t = interrupt_handlers s \<and> procs.more t = procs.more s"
  using assms by (rule three_demo_ok)

definition sample_stacks :: "(nat \<times> nat) list" where
  "sample_stacks = [(0xC04000A0, 0xC0400130), (0xC0402150, 0xC04021E0), (0xC0404200, 0xC0404290)]"

lemma sample_kernel_demo:
  "demo_kernel 0xC0104000 0xC0106000 0xC0400000 sample_heap sample_kernel" "frames_for 3 sample_kernel"
  "process_blocks 3 0xC0400000 sample_heap = Some (sample_stacks,
     [(112, True), (112, True), (8192, True), (112, True), (8192, True), (112, True), (8192, True), (40176, False)])"
  "\<forall>j\<in>{1, 2, 3}. proc_list sample_kernel ! j = 0"
proof -
  show "demo_kernel 0xC0104000 0xC0106000 0xC0400000 sample_heap sample_kernel"
    unfolding demo_kernel_def using sample_kernel_mem sample_kernel_cr3 sample_kernel_table(4,5) sample_kernel_slots by blast
  have "{0x400..<0x40C} \<subseteq> free_pairs sample_kernel" "{0xE000..<0xE00C} \<subseteq> free_quads sample_kernel"
    by (auto simp: free_pairs_def free_quads_def free_run_def sample_kernel_used)
  then have "card {0x400..<0x40C :: nat} \<le> card (free_pairs sample_kernel)" "card {0xE000..<0xE00C :: nat} \<le> card (free_quads sample_kernel)"
    by (intro card_mono finite_free; simp)+
  then show "frames_for 3 sample_kernel" by (simp add: frames_for_def)
  show "process_blocks 3 0xC0400000 sample_heap = Some (sample_stacks,
     [(112, True), (112, True), (8192, True), (112, True), (8192, True), (112, True), (8192, True), (40176, False)])"
    by (simp add: sample_heap_def numeral_3_eq_3 sample_stacks_def)
  show "\<forall>j\<in>{1, 2, 3}. proc_list sample_kernel ! j = 0" by (simp add: sample_kernel_def numeral_2_eq_2 numeral_3_eq_3)
qed

theorem three_process_demo_witness:
  "\<exists>t d c e h. kernel_three_process_test 2 sample_kernel = Some (User_mode
      \<lparr>u_eip = USER_TEST_CODE_VA, u_cs = 0x1B, u_eflags = 0x202, u_esp = 0xBFFFFFE0, u_ss = 0x23\<rparr> t) \<and>
    current_proc t = 0xC04000A0 \<and> cr3 t = frame_addr (d 0) \<and> esp0 (tss t) = 0xC0402130 \<and> sched_inv t \<and>
    processes_added 0xC0400000 0xC040FFB0 (\<lambda>j. word_at (kmem sample_kernel) (0xC0104000 + 4 * j)) 1 demo_messages sample_stacks d c e h sample_kernel t \<and>
    interrupt_handlers t = interrupt_handlers sample_kernel \<and> procs.more t = procs.more sample_kernel"
proof -
  have e: "block_end 0xC0400000 sample_heap = 0xC040FFB0" by (simp add: sample_heap_def)
  have f: "2 OR 0x200 = (0x202 :: u32)" by simp
  have k: "of_nat (fst (sample_stacks ! 0)) = (0xC04000A0 :: u32)" "of_nat (snd (sample_stacks ! 0)) + 8192 = (0xC0402130 :: u32)"
    by (simp_all add: sample_stacks_def)
  show ?thesis using three_process_demo [OF sample_kernel_demo, of 2] unfolding e f k .
qed

lemma demo_kernel_same:
  fixes s :: "'a procs_scheme" and t :: "'b procs_scheme"
  assumes "kmem t = kmem s" "framemap t = framemap s" "kheap t = kheap s" "kheap_header_array t = kheap_header_array s"
    "kheap_footer_array t = kheap_footer_array s" "kernel_directory t = kernel_directory s" "cr3 t = cr3 s"
    "proc_list t = proc_list s" "current_proc t = current_proc s"
  shows "demo_kernel D T a bs t = demo_kernel D T a bs s" "frames_for n t = frames_for n s"
proof -
  have u: "frame_used t = frame_used s" using assms(2) by (simp add: fun_eq_iff frame_used_def)
  have h: "heap_inv t a bs = heap_inv s a bs" using assms by (simp add: heap_inv_arrays)
  have k: "kernel_mem D T a bs t = kernel_mem D T a bs s"
    using assms u h by (simp add: kernel_mem_def kernel_paging_def null_reserved_def)
  moreover have "live_procs t = live_procs s" using assms by (simp add: live_procs_def)
  ultimately show "demo_kernel D T a bs t = demo_kernel D T a bs s"
    using assms by (simp add: demo_kernel_def sched_inv_def procs_allocated_def)
  have "free_run t = free_run s" using u by (simp add: fun_eq_iff free_run_def)
  then show "frames_for n t = frames_for n s" by (simp add: frames_for_def free_pairs_def free_quads_def)
qed

lemma syscall_table_of_more:
  assumes "procs.more s = procs.more (s' :: 'a sysc_scheme)"
  shows "syscall_table s = syscall_table s'"
  using assms by (cases s; cases s'; simp)

definition sample_demo :: intr where
  "sample_demo = sysc.extend (procs.extend sample_kernel (sysc.fields (\<lambda>_. None))) (intr.fields 0xF80000B0 1 0 0 1)"

lemma sample_demo_fields:
  "kmem sample_demo = kmem sample_kernel" "framemap sample_demo = framemap sample_kernel" "kheap sample_demo = kheap sample_kernel"
  "kheap_header_array sample_demo = kheap_header_array sample_kernel" "kheap_footer_array sample_demo = kheap_footer_array sample_kernel"
  "kernel_directory sample_demo = kernel_directory sample_kernel" "cr3 sample_demo = cr3 sample_kernel"
  "proc_list sample_demo = proc_list sample_kernel" "current_proc sample_demo = current_proc sample_kernel" "pid_ctr sample_demo = 1"
  by (simp_all add: sample_demo_def sample_kernel_def procs.defs sysc.defs intr.defs)

text \<open>
  C15: After \<^verbatim>\<open>syscall_init\<close> and \<^verbatim>\<open>kernel_three_process_test\<close>, on a kernel as above, the interrupt that
  the code of the first process raises, with the registers its instructions load (number 1, the
  address of the data page and the length of the message), is handled by the print call: it prints the first
  message and returns 0 in \<^verbatim>\<open>eax\<close>, and nothing but the terminal changes.
\<close>

theorem three_demo_prints:
  fixes s :: "'a intr_scheme"
  assumes dk: "demo_kernel D T a bs s" "frames_for 3 s" "process_blocks 3 a bs = Some (ps, bs')" "\<forall>j\<in>{1, 2, 3}. proc_list s ! j = 0"
    and regs: "r_int_no regs = 0x80" "r_eax regs = SYS_PRINT_STRING" "r_ebx regs = USER_TEST_DATA_VA" "r_ecx regs = 30"
  shows "\<exists>frame t. kernel_three_process_test flags (syscall_init s) = Some (User_mode frame t) \<and>
    isr_handler addr regs t = Some (Running (regs\<lparr>r_eax := SYSCALL_SUCCESS\<rparr>,
      kprint (''%s'' @ nl) [ArgS ''[1] hello world from a process''] (kprint (''printf syscall called from process %u'' @ nl) [ArgW (pid_ctr s)] t)))"
proof -
  have f: "demo_kernel D T a bs (syscall_init s)" "frames_for 3 (syscall_init s)" "\<forall>j\<in>{1, 2, 3}. proc_list (syscall_init s) ! j = 0"
    using dk demo_kernel_same [of "syscall_init s" s] by (simp_all add: syscall_init_state)
  have p: "pid_ctr (syscall_init s) = pid_ctr s" by (simp add: syscall_init_state)
  obtain frame t d c e h where t: "kernel_three_process_test flags (syscall_init s) = Some (User_mode frame t)"
    "current_proc t = of_nat (fst (ps ! 0))" "cr3 t = frame_addr (d 0)"
    "processes_added a (block_end a bs) (\<lambda>j. word_at (kmem (syscall_init s)) (D + 4 * j)) 1 demo_messages ps d c e h (syscall_init s) t"
    "interrupt_handlers t = interrupt_handlers (syscall_init s)" "procs.more t = procs.more (syscall_init s)"
    using three_demo_ok [OF f(1,2) dk(3) f(3), of flags] by blast
  have "process_in a (block_end a bs) (demo_messages ! 0) (ps ! 0) (pid_ctr s) (d 0) (c 0) (e 0) (h 0)
     (\<lambda>j. word_at (kmem (syscall_init s)) (D + 4 * j)) 1 (syscall_init s) t"
    using t(4) p by (auto simp: processes_added_def demo_messages_def dest: spec [of _ 0])
  then have mp: "message_process ''[1] hello world from a process'' (of_nat (fst (ps ! 0))) (pid_ctr s) (snd (ps ! 0)) (d 0) (c 0) (e 0) (h 0)
     (\<lambda>j. word_at (kmem (syscall_init s)) (D + 4 * j)) t" "of_nat (fst (ps ! 0)) \<noteq> (0 :: u32)"
    by (simp_all add: process_in_def settled_def demo_messages_def)
  have tab: "syscall_table t SYS_PRINT_STRING = Some Sys_print_string" "interrupt_handlers t SYSCALL_VECTOR = Some Syscall_dispatch"
    using syscall_table_of_more [OF t(6)] t(5) by (simp_all add: syscall_init_state SYS_PRINT_STRING_def SYSCALL_VECTOR_def)
  have ecx: "r_ecx regs = of_nat (length ''[1] hello world from a process'')" using regs(4) by simp
  have "isr_handler addr regs t = Some (Running (regs\<lparr>r_eax := SYSCALL_SUCCESS\<rparr>,
      kprint (''%s'' @ nl) [ArgS (take 255 ''[1] hello world from a process'')]
        (kprint (''printf syscall called from process %u'' @ nl) [ArgW (pid_ctr s)] t)))"
    by (rule message_interrupt [OF mp(1) _ _ _ t(2) mp(2) t(3) tab(2,1) regs(1-3) ecx]) simp_all
  then show ?thesis using t(1) by (intro exI [of _ frame] exI [of _ t]) simp
qed

theorem three_demo_prints_witness:
  "\<exists>frame t. kernel_three_process_test 2 (syscall_init sample_demo) = Some (User_mode frame t) \<and>
    isr_handler 0 (sample_regs\<lparr>r_int_no := 0x80, r_eax := SYS_PRINT_STRING, r_ebx := USER_TEST_DATA_VA, r_ecx := 30\<rparr>) t =
      Some (Running (sample_regs\<lparr>r_int_no := 0x80, r_eax := SYSCALL_SUCCESS, r_ebx := USER_TEST_DATA_VA, r_ecx := 30\<rparr>,
      kprint (''%s'' @ nl) [ArgS ''[1] hello world from a process''] (kprint (''printf syscall called from process %u'' @ nl) [ArgW 1] t)))"
proof -
  note same = demo_kernel_same [OF sample_demo_fields(1-9)]
  let ?regs = "sample_regs\<lparr>r_int_no := 0x80, r_eax := SYS_PRINT_STRING, r_ebx := USER_TEST_DATA_VA, r_ecx := 30\<rparr>"
  have "demo_kernel 0xC0104000 0xC0106000 0xC0400000 sample_heap sample_demo" "frames_for 3 sample_demo" "\<forall>j\<in>{1, 2, 3}. proc_list sample_demo ! j = 0"
    using sample_kernel_demo same sample_demo_fields(8) by simp_all
  note d = this
  have r: "r_int_no ?regs = 0x80" "r_eax ?regs = SYS_PRINT_STRING" "r_ebx ?regs = USER_TEST_DATA_VA" "r_ecx ?regs = 30"
    "?regs\<lparr>r_eax := SYSCALL_SUCCESS\<rparr> = sample_regs\<lparr>r_int_no := 0x80, r_eax := SYSCALL_SUCCESS, r_ebx := USER_TEST_DATA_VA, r_ecx := 30\<rparr>"
    by simp_all
  show ?thesis using three_demo_prints [OF d(1,2) sample_kernel_demo(3) d(3) r(1-4), of 2 0] unfolding sample_demo_fields(10) r(5) .
qed

end
