(* ===== verification/Devices.thy ===== *)
theory Devices
  imports Madt
begin

text \<open>
  Drivers of memory-mapped devices: \<^verbatim>\<open>src/kernel/kernel/core/interrupts/apic.c\<close>, \<^verbatim>\<open>ioapic.c\<close> and the
  initialisation in \<^verbatim>\<open>src/kernel/kernel/drivers/hpet.c\<close>. The devices are not part of the program: a
  \<open>bus\<close> says what a read at a physical address gives and what a write does to their state. A virtual
  address reaches the bus through the processor's translation.
\<close>

section \<open>The bus\<close>

record 'd bus =
  bus_read :: "u32 \<Rightarrow> 'd \<Rightarrow> u32"
  bus_write :: "u32 \<Rightarrow> u32 \<Rightarrow> 'd \<Rightarrow> 'd"

record 'd devices = madt_info +
  devs :: 'd
  ioapic :: u32
  ioapic_ver :: u8
  max_redir_entries :: u8
  gsi_count :: u8
  apic_base_msr :: u64
  clk_per :: u32
  main_cnt_freq :: u32
  int_per :: u32
  gen_cap :: u32
  gen_conf :: u32
  main_cnt :: u32
  tim_n_conf_base :: u32
  tim_n_comp_base :: u32
  gen_int_sts :: u32

definition mmio_read :: "'d bus \<Rightarrow> u32 \<Rightarrow> ('d, 'a) devices_scheme \<Rightarrow> u32 option" where
  "mmio_read bus va s = map_option (\<lambda>p. bus_read bus p (devs s)) (translate s va)"

definition mmio_write :: "'d bus \<Rightarrow> u32 \<Rightarrow> u32 \<Rightarrow> ('d, 'a) devices_scheme \<Rightarrow> ('d, 'a) devices_scheme option" where
  "mmio_write bus va v s = map_option (\<lambda>p. s\<lparr>devs := bus_write bus p v (devs s)\<rparr>) (translate s va)"

section \<open>The I/O APIC\<close>

definition IOAPIC_VER_REG :: u32 where "IOAPIC_VER_REG = 0x01"

definition IOAPIC_RED_TBL_REG :: "u8 \<Rightarrow> u32" where "IOAPIC_RED_TBL_REG n = 0x10 + 2 * ucast n"

definition write_ioapic :: "'d bus \<Rightarrow> u32 \<Rightarrow> u32 \<Rightarrow> ('d, 'a) devices_scheme \<Rightarrow> ('d, 'a) devices_scheme option" where
  "write_ioapic bus reg val s =
     do {
       s \<leftarrow> mmio_write bus (ioapic s) reg s;
       mmio_write bus (ioapic s + 0x10) val s
     }"

definition read_ioapic :: "'d bus \<Rightarrow> u32 \<Rightarrow> ('d, 'a) devices_scheme \<Rightarrow> (u32 \<times> ('d, 'a) devices_scheme) option" where
  "read_ioapic bus reg s =
     do {
       s \<leftarrow> mmio_write bus (ioapic s) reg s;
       v \<leftarrow> mmio_read bus (ioapic s + 0x10) s;
       Some (v, s)
     }"

text \<open>A bit field of \<open>n\<close> bits from bit \<open>k\<close> on.\<close>

definition set_field :: "nat \<Rightarrow> nat \<Rightarrow> u32 \<Rightarrow> u32 \<Rightarrow> u32" where
  "set_field k n v w = (w AND NOT (push_bit k (mask n))) OR push_bit k (take_bit n v)"

definition get_field :: "nat \<Rightarrow> nat \<Rightarrow> u32 \<Rightarrow> u32" where
  "get_field k n w = take_bit n (drop_bit k w)"

text \<open>
  The two words of a redirection entry. \<open>junk\<close> is what the uninitialised local variable holds; the
  code does not set \<^verbatim>\<open>remote_irr\<close> (bit 14) of the low word and \<^verbatim>\<open>dest\<close> (from bit 24) of the high word.
\<close>

definition redir_lo :: "u32 \<Rightarrow> u32 \<Rightarrow> u32 \<Rightarrow> u32" where
  "redir_lo junk vector lo =
     (let e = set_field 0 8 vector junk;
          e = set_field 8 3 0 e;
          e = set_field 11 1 0 e;
          e = set_field 12 1 0 e;
          e = set_field 13 1 0 e;
          e = set_field 15 1 0 e;
          e = set_field 16 1 0 e
      in set_field 17 15 (get_field 17 15 lo) e)"

definition redir_hi :: "u32 \<Rightarrow> u32 \<Rightarrow> u32" where
  "redir_hi junk hi = set_field 0 24 (get_field 0 24 hi) junk"

text \<open>One redirection entry; \<open>stack\<close> gives the junk of the two variables in each iteration.\<close>

definition init_redir ::
    "'d bus \<Rightarrow> (nat \<Rightarrow> u32 \<times> u32) \<Rightarrow> nat \<Rightarrow> ('d, 'a) devices_scheme \<Rightarrow> ('d, 'a) devices_scheme option" where
  "init_redir bus stack n s =
     (let i = of_nat n :: u8;
          lo_idx = ucast (ucast (IOAPIC_RED_TBL_REG i) :: u8);
          hi_idx = ucast (ucast (IOAPIC_RED_TBL_REG i + 1) :: u8)
      in do {
        (lo, s) \<leftarrow> read_ioapic bus lo_idx s;
        (hi, s) \<leftarrow> read_ioapic bus hi_idx s;
        let entry = get_iso_entries s (gsi_count s);
        let (vector, s) =
          (if ucast i = iso_gsi entry
           then (32 + ucast (iso_irq_src entry), s\<lparr>gsi_count := gsi_count s + 1\<rparr>)
           else (32 + ucast i, s));
        let lo = redir_lo (fst (stack n)) vector lo;
        let hi = redir_hi (snd (stack n)) hi;
        s \<leftarrow> write_ioapic bus lo_idx lo s;
        s \<leftarrow> write_ioapic bus hi_idx hi s;
        (lo, s) \<leftarrow> read_ioapic bus lo_idx s;
        (hi, s) \<leftarrow> read_ioapic bus hi_idx s;
        Some s
      })"

fun init_redirs ::
    "'d bus \<Rightarrow> (nat \<Rightarrow> u32 \<times> u32) \<Rightarrow> nat list \<Rightarrow> ('d, 'a) devices_scheme \<Rightarrow> ('d, 'a) devices_scheme option" where
  "init_redirs bus stack [] s = Some s"
| "init_redirs bus stack (n # ns) s =
     do {
       s \<leftarrow> init_redir bus stack n s;
       init_redirs bus stack ns s
     }"

definition init_ioapic ::
    "'d bus \<Rightarrow> (nat \<Rightarrow> u32 \<times> u32) \<Rightarrow> ('d, 'a) devices_scheme \<Rightarrow> ('d, 'a) devices_scheme option" where
  "init_ioapic bus stack s =
     (let (p, s) = kmap (get_ioapic_addr s) s;
          s = s\<lparr>ioapic := p\<rparr>;
          s = kprint (''phys addr: %x'' @ nl) [ArgW (get_ioapic_addr s)] s
      in do {
        (v, s) \<leftarrow> read_ioapic bus IOAPIC_VER_REG s;
        let s = s\<lparr>ioapic_ver := ucast (v AND 0xFF)\<rparr>;
        (v, s) \<leftarrow> read_ioapic bus IOAPIC_VER_REG s;
        let s = s\<lparr>max_redir_entries := ucast ((drop_bit 16 v AND 0xFF) + 1)\<rparr>;
        s \<leftarrow> init_redirs bus stack [0..<unat (max_redir_entries s)] s;
        Some (kprint (''IOAPIC: addr 0x%x, ioapic ver %d, max redir entries %d'' @ nl)
                [ArgW (ioapic s), ArgW (ucast (ioapic_ver s)), ArgW (ucast (max_redir_entries s))] s)
      })"

section \<open>The local APIC\<close>

definition disable_pic :: "'a machine_scheme \<Rightarrow> 'a machine_scheme" where
  "disable_pic s = outb 0x21 0xFF (outb 0xA1 0xFF s)"

text \<open>The register \<^verbatim>\<open>IA32_APIC_BASE\<close> is part of the state; \<open>edx\<close> is what \<^verbatim>\<open>cpuid\<close> returns.\<close>

definition get_apic_base :: "('d, 'a) devices_scheme \<Rightarrow> u32" where
  "get_apic_base s = push_bit 12 (ucast (drop_bit 12 (apic_base_msr s) AND 0xFFFFFF))"

definition confirm_apic :: "u32 \<Rightarrow> bool" where
  "confirm_apic edx \<longleftrightarrow> bit edx 9"

definition init_apic ::
    "'d bus \<Rightarrow> (nat \<Rightarrow> u32 \<times> u32) \<Rightarrow> u32 \<Rightarrow> ('d, 'a) devices_scheme \<Rightarrow> ('d, 'a) devices_scheme outcome option" where
  "init_apic bus stack edx s =
     (if \<not> confirm_apic edx then Some (panic ''apic not available'' s)
      else do {
        let s = disable_pic s;
        let (apic_base, s) = kmap (get_apic_base s) s;
        let spurious = apic_base + 0xF0;
        v \<leftarrow> mmio_read bus spurious s;
        s \<leftarrow> mmio_write bus spurious (v OR 0x1FF) s;
        v \<leftarrow> mmio_read bus spurious s;
        let s = kprint (''%x'' @ nl) [ArgW v] s;
        let s = s\<lparr>apic_base_msr := apic_base_msr s OR push_bit 11 1\<rparr>;
        s \<leftarrow> init_ioapic bus stack s;
        Some (Running (sti (cli s)))
      })"

section \<open>The HPET\<close>

definition hpet_address_space_id :: u32 where "hpet_address_space_id = 40"

definition hpet_addr :: u32 where "hpet_addr = 44"

text \<open>A 64-bit access is two accesses of the bus, the low word first.\<close>

definition mmio_read64 :: "'d bus \<Rightarrow> u32 \<Rightarrow> ('d, 'a) devices_scheme \<Rightarrow> u64 option" where
  "mmio_read64 bus va s =
     do {
       lo \<leftarrow> mmio_read bus va s;
       hi \<leftarrow> mmio_read bus (va + 4) s;
       Some (ucast lo OR push_bit 32 (ucast hi))
     }"

definition mmio_write64 :: "'d bus \<Rightarrow> u32 \<Rightarrow> u64 \<Rightarrow> ('d, 'a) devices_scheme \<Rightarrow> ('d, 'a) devices_scheme option" where
  "mmio_write64 bus va v s =
     do {
       s \<leftarrow> mmio_write bus va (ucast v) s;
       mmio_write bus (va + 4) (ucast (drop_bit 32 v)) s
     }"

definition mmio_update64 ::
    "'d bus \<Rightarrow> u32 \<Rightarrow> (u64 \<Rightarrow> u64) \<Rightarrow> ('d, 'a) devices_scheme \<Rightarrow> ('d, 'a) devices_scheme option" where
  "mmio_update64 bus va f s =
     do {
       v \<leftarrow> mmio_read64 bus va s;
       mmio_write64 bus va (f v) s
     }"

definition tim_n_disable_mask :: u64 where
  "tim_n_disable_mask = NOT (push_bit 9 0b11111 OR push_bit 2 1 OR push_bit 3 1 OR push_bit 6 1)"

definition tim_n_enable_mask :: u64 where
  "tim_n_enable_mask = push_bit 9 0b00010 OR push_bit 2 1 OR push_bit 3 1 OR push_bit 6 1"

text \<open>The checks of one timer; the flag is whether it cannot be used.\<close>

definition init_timer ::
    "'d bus \<Rightarrow> nat \<Rightarrow> ('d, 'a) devices_scheme \<Rightarrow> ('d, 'a) devices_scheme outcome option" where
  "init_timer bus i s =
     (let tim_n_conf = tim_n_conf_base s + 0x20 * of_nat i
      in do {
        v \<leftarrow> mmio_read64 bus tim_n_conf s;
        let cap_apic = (ucast (drop_bit 32 v) :: u32);
        v \<leftarrow> mmio_read64 bus tim_n_conf s;
        let cap_size = (ucast (drop_bit 5 v AND 1) :: u8);
        v \<leftarrow> mmio_read64 bus tim_n_conf s;
        let cap_per = (ucast (drop_bit 4 v AND 1) :: u8);
        let s = (if cap_size \<noteq> 1 then kprint (''TIMER NOT 64 BIT CAPABLE'' @ nl) [] s else s);
        let s = (if cap_per \<noteq> 1 then kprint (''TIMER NOT PERIODIC CAPABLE'' @ nl) [] s else s);
        let s = (if drop_bit 2 cap_apic AND 1 \<noteq> 1 then kprint (''TIMER NOT IRQ2 CAPABLE'' @ nl) [] s else s);
        if cap_size \<noteq> 1 \<or> cap_per \<noteq> 1 \<or> drop_bit 2 cap_apic AND 1 \<noteq> 1
        then Some (panic ''TIMER SETUP FAILED'' s)
        else map_option Running (mmio_update64 bus tim_n_conf (\<lambda>v. v AND tim_n_disable_mask) s)
      })"

fun init_timers ::
    "'d bus \<Rightarrow> nat list \<Rightarrow> ('d, 'a) devices_scheme \<Rightarrow> ('d, 'a) devices_scheme outcome option" where
  "init_timers bus [] s = Some (Running s)"
| "init_timers bus (i # is) s =
     do {
       r \<leftarrow> init_timer bus i s;
       and_then r (init_timers bus is)
     }"

text \<open>
  The quotients of doubles are exact up to truncation, since \<open>10\<^sup>1\<^sup>5\<close> and all 32-bit numbers are doubles
  and the rounding of a quotient below \<open>2\<^sup>5\<^sup>3\<close> does not reach the next integer. A division by zero has no
  defined conversion.
\<close>

definition start_hpet :: "'d bus \<Rightarrow> u32 \<Rightarrow> ('d, 'a) devices_scheme \<Rightarrow> ('d, 'a) devices_scheme option" where
  "start_hpet bus freq s =
     do {
       let s = isr_set_handler 32 Hpet_handler s;
       let s = s\<lparr>int_freq := freq\<rparr>;
       if clk_per s = 0 \<or> int_freq s = 0 then None
       else do {
         let s = s\<lparr>main_cnt_freq := of_nat (10 ^ 15 div unat (clk_per s))\<rparr>;
         let s = s\<lparr>int_per := main_cnt_freq s div int_freq s\<rparr>;
         s \<leftarrow> mmio_update64 bus (tim_n_conf_base s) (\<lambda>v. v OR tim_n_enable_mask) s;
         s \<leftarrow> mmio_write64 bus (tim_n_comp_base s) (ucast (int_per s)) s;
         mmio_update64 bus (gen_conf s) (\<lambda>v. v OR 1) s
       }
     }"

definition init_hpet ::
    "'d bus \<Rightarrow> u32 \<Rightarrow> ('d, 'a) devices_scheme \<Rightarrow> ('d, 'a) devices_scheme outcome option" where
  "init_hpet bus freq s =
     (let hpet = get_hpet s
      in if hpet = 0 then Some (panic ''hpet not found'' s)
         else do {
           id \<leftarrow> vload s (hpet + hpet_address_space_id);
           if id \<noteq> 0 then Some (panic ''UNSUPPORTED HPET ADDRESS SPACE ID'' s)
           else do {
             addr \<leftarrow> vload32 s (hpet + hpet_addr);
             let (p, s) = kmap addr s;
             let s = s\<lparr>gen_cap := p\<rparr>;
             let s = s\<lparr>gen_conf := p + 0x10\<rparr>;
             let s = s\<lparr>main_cnt := p + 0xF0\<rparr>;
             let s = s\<lparr>tim_n_conf_base := p + 0x100\<rparr>;
             let s = s\<lparr>tim_n_comp_base := p + 0x108\<rparr>;
             let s = s\<lparr>gen_int_sts := p + 0x20\<rparr>;
             v \<leftarrow> mmio_read64 bus (gen_cap s) s;
             let s = s\<lparr>clk_per := ucast (drop_bit 32 v)\<rparr>;
             v \<leftarrow> mmio_read64 bus (gen_cap s) s;
             let num_tim = (ucast ((drop_bit 8 v AND 0x1F) + 1) :: u8);
             s \<leftarrow> mmio_update64 bus (gen_conf s) (\<lambda>v. v AND NOT 0b11) s;
             s \<leftarrow> mmio_write64 bus (main_cnt s) 0 s;
             r \<leftarrow> init_timers bus [0..<unat num_tim] s;
             and_then r (\<lambda>s. map_option Running (start_hpet bus freq s))
           }
         })"

end
