(* ===== verification/Devices_Props.thy ===== *)
theory Devices_Props
  imports Devices Paging_Props
begin

text \<open>
  The I/O APIC after \<^verbatim>\<open>init_ioapic\<close>, for any device that behaves as its register window is documented.
\<close>

section \<open>The register window\<close>

text \<open>
  The device at physical address \<open>base\<close>: the low eight bits of a write to the first word select a
  register, the word at offset \<open>0x10\<close> is the register selected. The two words of redirection entry \<open>n\<close> are registers
  \<open>0x10 + 2 * n\<close> and \<open>0x11 + 2 * n\<close>; in the first the bits up to 16 can be written, but for the
  delivery status (12) and the remote interrupt request (14), in the second those from 24 on.
\<close>

definition redir_writable :: "nat \<Rightarrow> nat \<Rightarrow> bool" where
  "redir_writable r b \<longleftrightarrow> (if even r then b \<le> 16 \<and> b \<noteq> 12 \<and> b \<noteq> 14 else 24 \<le> b \<and> b < 32)"

definition redir_register :: "nat \<Rightarrow> nat \<Rightarrow> bool" where
  "redir_register entries r \<longleftrightarrow> 0x10 \<le> r \<and> r < 0x10 + 2 * entries"

text \<open>A write to the word of an entry sets its writable bits and leaves the other entries alone.\<close>

definition ioapic_device :: "'d bus \<Rightarrow> u32 \<Rightarrow> nat \<Rightarrow> ('d \<Rightarrow> u8) \<Rightarrow> ('d \<Rightarrow> nat \<Rightarrow> u32) \<Rightarrow> bool" where
  "ioapic_device bus base entries sel reg \<longleftrightarrow>
     (\<forall>d v. sel (bus_write bus base v d) = ucast v \<and> reg (bus_write bus base v d) = reg d) \<and>
     (\<forall>d. bus_read bus (base + 0x10) d = reg d (unat (sel d))) \<and>
     (\<forall>d v r. redir_register entries (unat (sel d)) \<and> redir_register entries r \<and> r \<noteq> unat (sel d) \<longrightarrow>
        reg (bus_write bus (base + 0x10) v d) r = reg d r) \<and>
     (\<forall>d v b. redir_register entries (unat (sel d)) \<and> redir_writable (unat (sel d)) b \<longrightarrow>
        bit (reg (bus_write bus (base + 0x10) v d) (unat (sel d))) b = bit v b)"

text \<open>The window is mapped at the address the driver keeps.\<close>

definition ioapic_mapped :: "u32 \<Rightarrow> ('d, 'a) devices_scheme \<Rightarrow> bool" where
  "ioapic_mapped base s \<longleftrightarrow> translate s (ioapic s) = Some base \<and> translate s (ioapic s + 0x10) = Some (base + 0x10)"

lemma translate_devs [simp]: "translate (s\<lparr>devs := d\<rparr>) va = translate s va" "translate (s\<lparr>gsi_count := g\<rparr>) va = translate s va"
  by (simp_all add: translate_def)

lemma read_ioapic_window:
  assumes "ioapic_device bus base m sel reg" "ioapic_mapped base s"
  shows "read_ioapic bus r s = Some (reg (devs s) (unat (ucast r :: u8)), s\<lparr>devs := bus_write bus base r (devs s)\<rparr>)"
  using assms by (simp add: read_ioapic_def mmio_write_def mmio_read_def ioapic_mapped_def ioapic_device_def)

lemma write_ioapic_window:
  assumes "ioapic_mapped base s"
  shows "write_ioapic bus r v s = Some (s\<lparr>devs := bus_write bus (base + 0x10) v (bus_write bus base r (devs s))\<rparr>)"
  using assms by (simp add: write_ioapic_def mmio_write_def ioapic_mapped_def)

text \<open>The words the driver builds.\<close>

lemma bit_set_field: "k + n \<le> 32 \<Longrightarrow> bit (set_field k n v w) b = (if k \<le> b \<and> b < k + n then bit v (b - k) else bit w b)"
  using bit_imp_le_length [of w b] by (auto simp: set_field_def bit_simps)

lemma bit_get_field: "bit (get_field k n w) b = (b < n \<and> bit w (k + b))"
  by (auto simp: get_field_def bit_simps)

lemma redir_lo_bits:
  "bit (redir_lo junk vec lo) b = (if b < 8 then bit vec b else if b = 14 then bit junk 14 else 17 \<le> b \<and> bit lo b)"
  using bit_imp_le_length [of lo b] bit_imp_le_length [of junk b]
  by (auto simp: redir_lo_def bit_set_field bit_get_field Let_def)

lemma redir_hi_bits: "24 \<le> b \<Longrightarrow> bit (redir_hi junk hi) b = bit junk b"
  by (simp add: redir_hi_def bit_set_field)


section \<open>The redirection table\<close>

text \<open>
  Entry \<open>n\<close> delivers vector \<open>vec\<close> in fixed mode, edge triggered, active high and unmasked, to the
  processor that \<open>dest\<close> names.
\<close>

definition redir_set :: "('d \<Rightarrow> nat \<Rightarrow> u32) \<Rightarrow> 'd \<Rightarrow> nat \<Rightarrow> u32 \<Rightarrow> u32 \<Rightarrow> bool" where
  "redir_set reg d n vec dest \<longleftrightarrow> take_bit 8 (reg d (0x10 + 2 * n)) = take_bit 8 vec \<and>
     (\<forall>b\<in>{8, 9, 10, 11, 13, 15, 16}. \<not> bit (reg d (0x10 + 2 * n)) b) \<and> drop_bit 24 (reg d (0x11 + 2 * n)) = dest"

definition redir_vector :: "ioapic_iso \<Rightarrow> nat \<Rightarrow> u32" where
  "redir_vector e n = (if iso_gsi e = of_nat n then 32 + ucast (iso_irq_src e) else 32 + of_nat n)"

lemma redir_index:
  assumes "n < 120"
  shows "ucast (ucast (IOAPIC_RED_TBL_REG (of_nat n)) :: u8) = (of_nat (0x10 + 2 * n) :: u32)"
    "ucast (ucast (IOAPIC_RED_TBL_REG (of_nat n) + 1) :: u8) = (of_nat (0x11 + 2 * n) :: u32)"
    "ucast (of_nat n :: u8) = (of_nat n :: u32)"
    "unat (ucast (of_nat (0x10 + 2 * n) :: u32) :: u8) = 0x10 + 2 * n" "unat (ucast (of_nat (0x11 + 2 * n) :: u32) :: u8) = 0x11 + 2 * n"
proof -
  have c8: "ucast (of_nat k :: u8) = (of_nat k :: u32)" if "k < 256" for k
    using that by (simp add: unsigned_of_nat take_bit_nat_eq_self)
  have c32: "ucast (of_nat k :: u32) = (of_nat k :: u8)" if "k < 256" for k
    using that by (simp add: unsigned_of_nat take_bit_nat_eq_self)
  show c: "ucast (of_nat n :: u8) = (of_nat n :: u32)" using assms by (intro c8) simp
  have u: "unat (ucast (of_nat k :: u32) :: u8) = k" if "k < 256" for k
    unfolding c32 [OF that] using that by (simp add: unat_of_nat)
  show "unat (ucast (of_nat (0x10 + 2 * n) :: u32) :: u8) = 0x10 + 2 * n" "unat (ucast (of_nat (0x11 + 2 * n) :: u32) :: u8) = 0x11 + 2 * n"
    by (rule u, use assms in simp)+
  have "IOAPIC_RED_TBL_REG (of_nat n) = of_nat (0x10 + 2 * n)" "IOAPIC_RED_TBL_REG (of_nat n) + 1 = of_nat (0x11 + 2 * n)"
    by (simp_all add: IOAPIC_RED_TBL_REG_def c)
  then show "ucast (ucast (IOAPIC_RED_TBL_REG (of_nat n)) :: u8) = (of_nat (0x10 + 2 * n) :: u32)"
    "ucast (ucast (IOAPIC_RED_TBL_REG (of_nat n) + 1) :: u8) = (of_nat (0x11 + 2 * n) :: u32)"
    using assms c8 [of "0x10 + 2 * n"] c8 [of "0x11 + 2 * n"] c32 [of "0x10 + 2 * n"] c32 [of "0x11 + 2 * n"] by (simp_all del: of_nat_add of_nat_mult)
qed

lemma init_redir_entry:
  assumes dev: "ioapic_device bus base m sel reg" and map: "ioapic_mapped base s" and n: "n < m" "m \<le> 120"
  defines "e \<equiv> get_iso_entries s (gsi_count s)"
  obtains d where "init_redir bus stack n s = Some (s\<lparr>devs := d, gsi_count := gsi_count s + of_bool (iso_gsi e = of_nat n)\<rparr>)"
    "redir_set reg d n (redir_vector e n) (drop_bit 24 (snd (stack n)))"
    "\<forall>r. redir_register m r \<longrightarrow> r \<noteq> 0x10 + 2 * n \<longrightarrow> r \<noteq> 0x11 + 2 * n \<longrightarrow> reg d r = reg (devs s) r"
proof -
  let ?lo = "of_nat (0x10 + 2 * n) :: u32" and ?hi = "of_nat (0x11 + 2 * n) :: u32"
  have "n < 120" using n by simp
  note ix = redir_index [OF this]
  have rr: "redir_register m (0x10 + 2 * n)" "redir_register m (0x11 + 2 * n)" using n by (simp_all add: redir_register_def)
  define lo hi where "lo = redir_lo (fst (stack n)) (redir_vector e n) (reg (devs s) (0x10 + 2 * n))"
    and "hi = redir_hi (snd (stack n)) (reg (devs s) (0x11 + 2 * n))"
  define put where "put r v d = bus_write bus (base + 0x10) v (bus_write bus base r d)" for r v d
  define d1 where "d1 = put ?lo lo (bus_write bus base ?hi (bus_write bus base ?lo (devs s)))"
  define d2 where "d2 = put ?hi hi d1"
  define d where "d = bus_write bus base ?hi (bus_write bus base ?lo d2)"
  have sel: "reg (bus_write bus base v x) = reg x" "sel (bus_write bus base v x) = ucast v" for v x
    using dev by (simp_all add: ioapic_device_def)
  have law: "redir_register m (unat (sel x)) \<Longrightarrow> redir_register m r \<Longrightarrow> r \<noteq> unat (sel x) \<Longrightarrow> reg (bus_write bus (base + 0x10) v x) r = reg x r"
    "redir_register m (unat (sel x)) \<Longrightarrow> redir_writable (unat (sel x)) b \<Longrightarrow>
      bit (reg (bus_write bus (base + 0x10) v x) (unat (sel x))) b = bit v b" for x r v b
    using dev by (simp_all add: ioapic_device_def)
  have put: "redir_register m k \<Longrightarrow> redir_register m r' \<Longrightarrow> r' \<noteq> k \<Longrightarrow> reg (put r v x) r' = reg x r'"
    "redir_register m k \<Longrightarrow> redir_writable k b \<Longrightarrow> bit (reg (put r v x) k) b = bit v b"
    if "unat (ucast r :: u8) = k" for r v x k r' b
    using law(1) [where x = "bus_write bus base r x" and r = r' and v = v] law(2) [where x = "bus_write bus base r x" and b = b and v = v] that
    by (simp_all add: sel put_def)
  note plo = put [OF ix(4)] and phi = put [OF ix(5)]
  show ?thesis
  proof (rule that [of d])
    show "\<forall>r. redir_register m r \<longrightarrow> r \<noteq> 0x10 + 2 * n \<longrightarrow> r \<noteq> 0x11 + 2 * n \<longrightarrow> reg d r = reg (devs s) r"
      using plo(1) [OF rr(1)] phi(1) [OF rr(2)] by (simp add: d_def d2_def d1_def sel)
    have lo: "bit (reg d (0x10 + 2 * n)) b = bit lo b" if "b \<le> 16" "b \<noteq> 12" "b \<noteq> 14" for b
      using that phi(1) [OF rr(2,1)] plo(2) [OF rr(1), of b] by (simp add: d_def d2_def d1_def sel redir_writable_def)
    have hi: "bit (reg d (0x11 + 2 * n)) b = bit hi b" if "24 \<le> b" "b < 32" for b
      using that phi(2) [OF rr(2), of b] by (simp add: d_def d2_def sel redir_writable_def)
    show "redir_set reg d n (redir_vector e n) (drop_bit 24 (snd (stack n)))"
      unfolding redir_set_def
    proof (intro conjI ballI)
      show "take_bit 8 (reg d (0x10 + 2 * n)) = take_bit 8 (redir_vector e n)"
        using lo by (intro bit_word_eqI) (auto simp: bit_take_bit_iff lo_def redir_lo_bits)
      show "drop_bit 24 (reg d (0x11 + 2 * n)) = drop_bit 24 (snd (stack n))"
      proof (rule bit_word_eqI)
        fix k assume "k < LENGTH(32)"
        show "bit (drop_bit 24 (reg d (0x11 + 2 * n))) k = bit (drop_bit 24 (snd (stack n))) k"
        proof (cases "24 + k < 32")
          case True
          then show ?thesis using hi [of "24 + k"] by (simp add: bit_drop_bit_eq hi_def redir_hi_bits)
        next
          case False
          then show ?thesis by (auto simp: bit_drop_bit_eq dest!: bit_imp_le_length)
        qed
      qed
      show "\<not> bit (reg d (0x10 + 2 * n)) k" if "k \<in> {8, 9, 10, 11, 13, 15, 16}" for k
        using that lo [of k] by (auto simp: lo_def redir_lo_bits)
    qed
    show "init_redir bus stack n s = Some (s\<lparr>devs := d, gsi_count := gsi_count s + of_bool (iso_gsi e = of_nat n)\<rparr>)"
    proof -
      have w: "read_ioapic bus r (s\<lparr>devs := x\<rparr>) = Some (reg x (unat (ucast r :: u8)), s\<lparr>devs := bus_write bus base r x\<rparr>)"
        "read_ioapic bus r (s\<lparr>devs := x, gsi_count := g\<rparr>) = Some (reg x (unat (ucast r :: u8)), s\<lparr>devs := bus_write bus base r x, gsi_count := g\<rparr>)"
        "write_ioapic bus r v (s\<lparr>devs := x, gsi_count := g\<rparr>) = Some (s\<lparr>devs := put r v x, gsi_count := g\<rparr>)"
        "write_ioapic bus r v (s\<lparr>devs := x\<rparr>) = Some (s\<lparr>devs := put r v x\<rparr>)" for r v x g
        using map by (simp_all add: read_ioapic_window [OF dev] write_ioapic_window ioapic_mapped_def put_def)
      have u: "unat (ucast (16 + 2 * of_nat n :: u32) :: u8) = 16 + 2 * n" "unat (ucast (17 + 2 * of_nat n :: u32) :: u8) = 17 + 2 * n"
        using ix(4,5) by simp_all
      have e: "get_iso_entries (s\<lparr>devs := x\<rparr>) (gsi_count s) = e" for x by (simp add: e_def get_iso_entries_def)
      show ?thesis using ix(1-3)
        by (simp add: init_redir_def Let_def read_ioapic_window [OF dev map] w e u sel lo_def hi_def d_def d2_def d1_def redir_vector_def)
    qed
  qed
qed

lemma cursor_word: "unat (c :: u8) < 255 \<Longrightarrow> unat (c + of_bool P) = unat c + of_bool P"
  by (simp add: unat_word_ariths)

text \<open>
  The driver compares every entry only with the next override. It honours the overrides of the table
  as long as their interrupts ascend; the first that does not stays next for ever.
\<close>

definition honoured :: "(u8 \<Rightarrow> ioapic_iso) \<Rightarrow> nat \<Rightarrow> nat" where
  "honoured es k = length (takeWhile (\<lambda>j. j = 0 \<or> unat (iso_gsi (es (of_nat (j - 1)))) < unat (iso_gsi (es (of_nat j)))) [0..<k])"

text \<open>The vector of entry \<open>n\<close> under the first \<open>p\<close> overrides.\<close>

definition override_vector :: "(u8 \<Rightarrow> ioapic_iso) \<Rightarrow> nat \<Rightarrow> nat \<Rightarrow> u32" where
  "override_vector es p n = (case find (\<lambda>j. unat (iso_gsi (es (of_nat j))) = n) [0..<p] of
     Some j \<Rightarrow> 32 + ucast (iso_irq_src (es (of_nat j))) | None \<Rightarrow> 32 + of_nat n)"

text \<open>The table has \<open>k\<close> overrides; the rest of it is zero, as static storage is.\<close>

definition table_holds :: "(u8 \<Rightarrow> ioapic_iso) \<Rightarrow> nat \<Rightarrow> bool" where
  "table_holds es k \<longleftrightarrow> k < 256 \<and> (\<forall>j<256. k \<le> j \<longrightarrow> iso_gsi (es (of_nat j)) = 0 \<and> iso_irq_src (es (of_nat j)) = 0)"

text \<open>The first \<open>k\<close> overrides ascend, and the driver does not get past them.\<close>

definition overrides_sorted :: "(u8 \<Rightarrow> ioapic_iso) \<Rightarrow> nat \<Rightarrow> bool" where
  "overrides_sorted es k \<longleftrightarrow> (\<forall>j<k. \<forall>l<j. unat (iso_gsi (es (of_nat l))) < unat (iso_gsi (es (of_nat j)))) \<and>
     (if k = 0 then \<forall>j<256. iso_gsi (es (of_nat j)) = 0 \<and> iso_irq_src (es (of_nat j)) = 0
      else unat (iso_gsi (es (of_nat k))) \<le> unat (iso_gsi (es (of_nat (k - 1)))))"

lemma ascending_steps:
  fixes g :: "nat \<Rightarrow> nat"
  assumes "\<And>j. j < p \<Longrightarrow> j = 0 \<or> g (j - 1) < g j" "l < j" "j < p"
  shows "g l < g j"
  using assms(2,3)
proof (induction j)
  case (Suc j)
  then show ?case using assms(1) [of "Suc j"] by (cases "l = j") auto
qed simp

lemma honoured_sorted:
  assumes "table_holds es k"
  shows "overrides_sorted es (honoured es k)"
proof -
  define P where "P j \<longleftrightarrow> j = 0 \<or> unat (iso_gsi (es (of_nat (j - 1)))) < unat (iso_gsi (es (of_nat j)))" for j
  define p where "p = honoured es k"
  have p: "p = length (takeWhile P [0..<k])" by (simp add: p_def honoured_def P_def [abs_def])
  have pk: "p \<le> k" using length_takeWhile_le [of P "[0..<k]"] by (simp add: p)
  have P: "P j" if "j < p" for j
  proof -
    have "takeWhile P [0..<k] ! j = j" using that pk takeWhile_nth [of j P "[0..<k]"] by (simp add: p)
    moreover have "takeWhile P [0..<k] ! j \<in> set (takeWhile P [0..<k])" using that unfolding p by (rule nth_mem)
    then have "P (takeWhile P [0..<k] ! j)" by (blast dest: set_takeWhileD)
    ultimately show ?thesis by simp
  qed
  have stop: "\<not> P p" if "p < k" using that nth_length_takeWhile [of P "[0..<k]"] by (simp add: p)
  have asc: "\<forall>j<p. \<forall>l<j. unat (iso_gsi (es (of_nat l))) < unat (iso_gsi (es (of_nat j)))"
    using ascending_steps [where g = "\<lambda>j. unat (iso_gsi (es (of_nat j)))" and p = p] P unfolding P_def by blast
  show ?thesis
  proof (cases "p = 0")
    case True
    then have "k = 0" using stop by (auto simp: P_def)
    then have "overrides_sorted es p" using True assms by (simp add: overrides_sorted_def table_holds_def)
    then show ?thesis by (simp only: p_def)
  next
    case False
    have "unat (iso_gsi (es (of_nat p))) \<le> unat (iso_gsi (es (of_nat (p - 1))))"
    proof (cases "p < k")
      case True
      then show ?thesis using stop by (auto simp: P_def)
    next
      case False
      then have "iso_gsi (es (of_nat p)) = 0" using assms pk by (simp add: table_holds_def)
      then show ?thesis by simp
    qed
    then have "overrides_sorted es p" using False asc unfolding overrides_sorted_def by simp
    then show ?thesis by (simp only: p_def)
  qed
qed

text \<open>The cursor \<open>c\<close> of the driver when entry \<open>n\<close> is next.\<close>

definition cursor :: "(u8 \<Rightarrow> ioapic_iso) \<Rightarrow> nat \<Rightarrow> nat \<Rightarrow> u8 \<Rightarrow> bool" where
  "cursor es k n c \<longleftrightarrow> unat c \<le> n \<and> (k \<noteq> 0 \<longrightarrow> unat c \<le> k) \<and> (\<forall>l<k. l < unat c \<longleftrightarrow> unat (iso_gsi (es (of_nat l))) < n)"

lemma overrides_asc:
  "overrides_sorted es k \<Longrightarrow> l < j \<Longrightarrow> j < k \<Longrightarrow> unat (iso_gsi (es (of_nat l))) < unat (iso_gsi (es (of_nat j)))"
  by (simp add: overrides_sorted_def)

lemma override_hit:
  assumes "overrides_sorted es k" "c < k" "unat (iso_gsi (es (of_nat c))) = n"
  shows "override_vector es k n = 32 + ucast (iso_irq_src (es (of_nat c)))"
proof -
  have uniq: "l = c" if "l < k" "unat (iso_gsi (es (of_nat l))) = n" for l
  proof (rule ccontr)
    assume "l \<noteq> c"
    then consider "l < c" | "c < l" by linarith
    then show False
    proof cases
      case 1
      from overrides_asc [OF assms(1) this assms(2)] show False unfolding that(2) assms(3) by simp
    next
      case 2
      from overrides_asc [OF assms(1) this that(1)] show False unfolding that(2) assms(3) by simp
    qed
  qed
  have "find (\<lambda>j. unat (iso_gsi (es (of_nat j))) = n) [0..<k] = Some c"
    unfolding find_Some_iff
  proof (intro exI [of _ c] conjI allI impI)
    fix j assume j: "j < c"
    then have "j < k" "[0..<k] ! j = j" using assms(2) by simp_all
    then show "unat (iso_gsi (es (of_nat ([0..<k] ! j)))) \<noteq> n" using uniq [of j] j by auto
  qed (use assms(2,3) in simp_all)
  then show ?thesis by (simp add: override_vector_def)
qed

lemma override_miss:
  assumes "\<And>l. l < k \<Longrightarrow> unat (iso_gsi (es (of_nat l))) \<noteq> n"
  shows "override_vector es k n = 32 + of_nat n"
proof -
  have "find (\<lambda>j. unat (iso_gsi (es (of_nat j))) = n) [0..<k] = None" unfolding find_None_iff using assms by auto
  then show ?thesis by (simp add: override_vector_def)
qed

lemma cursor_step:
  assumes ov: "overrides_sorted es k" and cur: "cursor es k n c" and n: "n < 120"
  shows "redir_vector (es c) n = override_vector es k n" "cursor es k (Suc n) (c + of_bool (iso_gsi (es c) = of_nat n))"
proof -
  have c: "unat c < 255" "es (of_nat (unat c)) = es c" using cur n by (simp_all add: cursor_def)
  have g: "iso_gsi e = of_nat n \<longleftrightarrow> unat (iso_gsi e) = n" for e
    using n unat_of_nat_u32 [of n] by (auto simp: word_unat_eq_iff)
  have before: "l < unat c \<longleftrightarrow> unat (iso_gsi (es (of_nat l))) < n" if "l < k" for l using cur that by (simp add: cursor_def)
  have asc: "unat (iso_gsi (es c)) < unat (iso_gsi (es (of_nat l)))" if "unat c < l" "l < k" for l
    using overrides_asc [OF ov that] c(2) by simp
  have inc: "unat (c + of_bool (iso_gsi (es c) = of_nat n)) = unat c + of_bool (unat (iso_gsi (es c)) = n)"
    using cursor_word [OF c(1)] by (simp add: g)
  show "redir_vector (es c) n = override_vector es k n" "cursor es k (Suc n) (c + of_bool (iso_gsi (es c) = of_nat n))"
  proof -
    consider (hit) "unat c < k" "unat (iso_gsi (es c)) = n" | (later) "unat c < k" "n < unat (iso_gsi (es c))" | (over) "k \<le> unat c"
      using before [of "unat c"] c(2) by fastforce
    then have "redir_vector (es c) n = override_vector es k n \<and> cursor es k (Suc n) (c + of_bool (iso_gsi (es c) = of_nat n))"
    proof cases
      case hit
      have "unat (iso_gsi (es (of_nat l))) < Suc n \<longleftrightarrow> l < Suc (unat c)" if "l < k" for l
        using hit c(2) before [OF that] asc [of l] that by (cases l "unat c" rule: linorder_cases) auto
      then show ?thesis using override_hit [OF ov hit(1)] hit c cur inc by (auto simp: redir_vector_def g cursor_def)
    next
      case later
      have l: "unat (iso_gsi (es (of_nat l))) < n \<or> n < unat (iso_gsi (es (of_nat l)))" if "l < k" for l
        using later c(2) before [OF that] asc [of l] that by (cases l "unat c" rule: linorder_cases) auto
      then have "unat (iso_gsi (es (of_nat l))) < Suc n \<longleftrightarrow> l < unat c" if "l < k" for l using before [OF that] that by fastforce
      moreover have "override_vector es k n = 32 + of_nat n" using l by (intro override_miss) fastforce
      ultimately show ?thesis using later cur inc by (auto simp: redir_vector_def g cursor_def)
    next
      case over
      have l: "unat (iso_gsi (es (of_nat l))) < n" if "l < k" for l using before [OF that] over that by simp
      then have v: "override_vector es k n = 32 + of_nat n" by (intro override_miss) fastforce
      show ?thesis
      proof (cases "k = 0")
        case True
        then have "iso_gsi (es c) = 0" "iso_irq_src (es c) = 0"
          using ov c(2) unat_u8_less [of c] by (auto simp: overrides_sorted_def dest: spec [of _ "unat c"])
        then show ?thesis using v True cur inc by (auto simp: redir_vector_def g cursor_def)
      next
        case False
        then have k: "unat c = k" "k - 1 < k" using over cur by (simp_all add: cursor_def)
        have "unat (iso_gsi (es c)) \<le> unat (iso_gsi (es (of_nat (k - 1))))" using ov False c(2) k(1) by (simp add: overrides_sorted_def)
        then have "unat (iso_gsi (es c)) < n" using l [OF k(2)] by simp
        moreover have "unat (iso_gsi (es (of_nat l))) < Suc n \<longleftrightarrow> l < unat c" if "l < k" for l using l [OF that] that k(1) by simp
        ultimately show ?thesis using v cur inc by (auto simp: redir_vector_def g cursor_def)
      qed
    qed
    then show "redir_vector (es c) n = override_vector es k n" "cursor es k (Suc n) (c + of_bool (iso_gsi (es c) = of_nat n))" by blast+
  qed
qed

lemma init_redirs_entries:
  assumes dev: "ioapic_device bus base m sel reg" and m: "m \<le> 120" and ov: "overrides_sorted es k"
    and s: "j \<le> m" "ioapic_mapped base s" "get_iso_entries s = es" "cursor es k j (gsi_count s)"
  shows "\<exists>d g. init_redirs bus stack [j..<m] s = Some (s\<lparr>devs := d, gsi_count := g\<rparr>) \<and>
    (\<forall>n<m. j \<le> n \<longrightarrow> redir_set reg d n (override_vector es k n) (drop_bit 24 (snd (stack n)))) \<and>
    (\<forall>r<0x10 + 2 * j. redir_register m r \<longrightarrow> reg d r = reg (devs s) r)"
  using s
proof (induction "m - j" arbitrary: j s)
  case 0
  then show ?case by (intro exI [of _ "devs s"] exI [of _ "gsi_count s"]) simp
next
  case (Suc x)
  then have j: "j < m" "[j..<m] = j # [Suc j..<m]" "x = m - Suc j" by (simp_all add: upt_conv_Cons)
  let ?e = "get_iso_entries s (gsi_count s)"
  obtain d where d: "init_redir bus stack j s = Some (s\<lparr>devs := d, gsi_count := gsi_count s + of_bool (iso_gsi ?e = of_nat j)\<rparr>)"
    "redir_set reg d j (redir_vector ?e j) (drop_bit 24 (snd (stack j)))"
    "\<forall>r. redir_register m r \<longrightarrow> r \<noteq> 0x10 + 2 * j \<longrightarrow> r \<noteq> 0x11 + 2 * j \<longrightarrow> reg d r = reg (devs s) r"
    by (rule init_redir_entry [OF dev Suc.prems(2) j(1) m, of stack])
  define t where "t = s\<lparr>devs := d, gsi_count := gsi_count s + of_bool (iso_gsi ?e = of_nat j)\<rparr>"
  note cur = cursor_step [OF ov Suc.prems(4)]
  have "ioapic_mapped base t" "get_iso_entries t = es" "cursor es k (Suc j) (gsi_count t)"
    using Suc.prems(2,3) cur(2) j(1) m by (simp_all add: t_def ioapic_mapped_def get_iso_entries_def)
  then obtain d' g where r: "init_redirs bus stack [Suc j..<m] t = Some (t\<lparr>devs := d', gsi_count := g\<rparr>)"
    "\<forall>n<m. Suc j \<le> n \<longrightarrow> redir_set reg d' n (override_vector es k n) (drop_bit 24 (snd (stack n)))"
    "\<forall>r<0x10 + 2 * Suc j. redir_register m r \<longrightarrow> reg d' r = reg d r"
    using Suc.hyps(1) [OF j(3), of t] j(1) by (auto simp: t_def)
  have "init_redirs bus stack [j..<m] s = Some (s\<lparr>devs := d', gsi_count := g\<rparr>)"
    using r(1) by (simp add: j(2) d(1) flip: t_def) (simp add: t_def)
  moreover have "redir_set reg d' j (override_vector es k j) (drop_bit 24 (snd (stack j)))"
    using d(2) r(3) cur(1) Suc.prems(3) j(1) m by (simp add: redir_set_def redir_register_def)
  ultimately show ?case using r(2,3) d(3)
    by (intro exI [of _ d'] exI [of _ g]) (auto simp: le_Suc_eq less_Suc_eq_le order.order_iff_strict Suc_le_eq)
qed

section \<open>Initialisation\<close>

lemma devices_fields_of_more:
  assumes "tty.more s = tty.more (s' :: ('d, 'a) devices_scheme)"
  shows "devs s = devs s'" "ioapic s = ioapic s'" "gsi_count s = gsi_count s'" "max_redir_entries s = max_redir_entries s'"
  using assms by (cases s; cases s'; simp)+

lemmas kprint_devices [simp] = devices_fields_of_more [OF kprint_more]

lemma kprint_mapped [simp]: "ioapic_mapped base (kprint f a s) = ioapic_mapped base s" for s :: "('d, 'a) devices_scheme"
  by (simp add: ioapic_mapped_def translate_def)

lemma kmap_ioapic:
  assumes "mapped_kernel D T P s" "free_slot T (kmem s) \<noteq> None" "KERN_IDENTITY_PHYS_END \<le> base" "base mod 0x1000 = 0"
    and "kmap base s = (va, s1)"
  shows "ioapic_mapped base (s1\<lparr>ioapic := va\<rparr>)" "devs s1 = devs s" "iso_entries s1 = iso_entries s" "gsi_count s1 = gsi_count s"
    "ioapic_addr s1 = ioapic_addr s"
proof -
  obtain k where k: "va = of_nat (0xC0000000 + 4096 * k) + base mod PAGE_SIZE"
    "s1 = s\<lparr>kmem := store32 (kmem s) (of_nat (T + 4 * k)) (slot_word base)\<rparr>"
    using kmap_slot [OF assms(1-3,5)] by metis
  have t: "translate s1 va = Some base" by (rule kernel_maps.map_tr [OF assms(1-3,5)])
  have "va = of_nat (4096 * (0xC0000 + k))" using k(1) assms(4) by (simp add: PAGE_SIZE_def)
  then have "va mod 0x1000 = 0"
    by (simp only: word_unat_eq_iff unat_mod unsigned_of_nat) (simp add: take_bit_eq_mod mod_mod_cancel)
  then have "translate s1 (va + 0x10) = Some (base + 0x10)" using t by (intro page_offset) simp_all
  with t show "ioapic_mapped base (s1\<lparr>ioapic := va\<rparr>)" by (simp add: ioapic_mapped_def translate_def)
  show "devs s1 = devs s" "iso_entries s1 = iso_entries s" "gsi_count s1 = gsi_count s" "ioapic_addr s1 = ioapic_addr s"
    by (simp_all add: k(2))
qed

lemma max_entries:
  assumes "unat (get_field 16 8 v) + 1 = m" "m \<le> 120"
  shows "unat (ucast ((drop_bit 16 v AND 0xFF) + 1) :: u8) = m"
proof -
  have "drop_bit 16 v AND 0xFF = get_field 16 8 v" by (simp add: get_field_def take_bit_eq_mask mask_eq_exp_minus_1)
  moreover have "unat (get_field 16 8 v + 1) = m" using assms by (simp add: unat_word_ariths)
  ultimately show ?thesis using assms(2) by (simp add: unsigned_ucast_eq take_bit_nat_eq_self)
qed

section \<open>Properties\<close>

text \<open>
  C32: On a kernel whose window has room, and for an I/O APIC with at most 120 entries that behaves as
  its register window is documented, \<^verbatim>\<open>init_ioapic\<close> returns with every redirection entry unmasked, in fixed delivery
  mode, at vector 32 plus the source of its override if one of the honoured overrides is for it, and 32
  plus its own number otherwise. Not all is as \<^verbatim>\<open>ioapic.h\<close> says. Of the overrides in the table only those
  up to the first whose interrupt is not larger than the one before are honoured: all of them only if the
  table is in ascending order. Polarity and trigger mode are active high and edge for every entry, whatever the flags of
  its override ask for. The destination is what the uninitialised local variable held.
\<close>

theorem init_ioapic_redirects:
  fixes s :: "('d, 'a) devices_scheme"
  assumes kern: "mapped_kernel D T P s" "free_slot T (kmem s) \<noteq> None"
    and base: "get_ioapic_addr s = base" "KERN_IDENTITY_PHYS_END \<le> base" "base mod 0x1000 = 0"
    and dev: "ioapic_device bus base m sel reg" "unat (get_field 16 8 (reg (devs s) 1)) + 1 = m" "m \<le> 120"
    and tab: "gsi_count s = 0" "table_holds (get_iso_entries s) k"
  shows "\<exists>s'. init_ioapic bus stack s = Some s' \<and> unat (max_redir_entries s') = m \<and>
    (\<forall>n<m. redir_set reg (devs s') n (override_vector (get_iso_entries s) (honoured (get_iso_entries s) k) n) (drop_bit 24 (snd (stack n))))"
proof -
  let ?p = "honoured (get_iso_entries s) k"
  note ov = tab(1) honoured_sorted [OF tab(2)]
  obtain va s1 where km: "kmap base s = (va, s1)" by (cases "kmap base s")
  note k = kmap_ioapic [OF kern base(2,3) km]
  define s2 where "s2 = kprint (''phys addr: %x'' @ nl) [ArgW base] (s1\<lparr>ioapic := va\<rparr>)"
  have s2: "ioapic_mapped base s2" "devs s2 = devs s" "get_iso_entries s2 = get_iso_entries s" "gsi_count s2 = 0"
    using k ov(1) by (simp_all add: s2_def get_iso_entries_def)
  let ?d = "bus_write bus base IOAPIC_VER_REG (bus_write bus base IOAPIC_VER_REG (devs s))"
  define v where "v = reg (devs s) 1"
  define s3 where "s3 = s2\<lparr>devs := ?d, ioapic_ver := ucast (v AND 0xFF), max_redir_entries := ucast ((drop_bit 16 v AND 0xFF) + 1)\<rparr>"
  have mv: "unat (ucast ((drop_bit 16 v AND 0xFF) + 1) :: u8) = m" using max_entries [OF dev(2,3)] by (simp add: v_def)
  then have m: "unat (max_redir_entries s3) = m" by (simp add: s3_def)
  have s3: "ioapic_mapped base s3" "get_iso_entries s3 = get_iso_entries s" "cursor (get_iso_entries s) ?p 0 (gsi_count s3)"
    using s2 by (simp_all add: s3_def ioapic_mapped_def translate_def get_iso_entries_def cursor_def)
  obtain d g where d: "init_redirs bus stack [0..<m] s3 = Some (s3\<lparr>devs := d, gsi_count := g\<rparr>)"
    "\<forall>n<m. redir_set reg d n (override_vector (get_iso_entries s) ?p n) (drop_bit 24 (snd (stack n)))"
    using init_redirs_entries [OF dev(1,3) ov(2) _ s3, of stack] by auto
  define t where "t = kprint (''IOAPIC: addr 0x%x, ioapic ver %d, max redir entries %d'' @ nl)
    [ArgW (ioapic s3), ArgW (ucast (ioapic_ver s3)), ArgW (ucast (max_redir_entries s3))] (s3\<lparr>devs := d, gsi_count := g\<rparr>)"
  have ver: "read_ioapic bus IOAPIC_VER_REG s2 = Some (v, s2\<lparr>devs := bus_write bus base IOAPIC_VER_REG (devs s)\<rparr>)"
    using read_ioapic_window [OF dev(1) s2(1)] s2(2) by (simp add: IOAPIC_VER_REG_def v_def)
  have ver': "read_ioapic bus IOAPIC_VER_REG (s2\<lparr>devs := bus_write bus base IOAPIC_VER_REG (devs s), ioapic_ver := x\<rparr>) =
      Some (v, s2\<lparr>devs := ?d, ioapic_ver := x\<rparr>)" for x
  proof -
    have "ioapic_mapped base (s2\<lparr>devs := bus_write bus base IOAPIC_VER_REG (devs s), ioapic_ver := x\<rparr>)"
      using s2(1) by (simp add: ioapic_mapped_def translate_def)
    from read_ioapic_window [OF dev(1) this] dev(1) show ?thesis by (simp add: IOAPIC_VER_REG_def ioapic_device_def v_def)
  qed
  have ad: "get_ioapic_addr (s1\<lparr>ioapic := va\<rparr>) = base" using k(5) base(1) by (simp add: get_ioapic_addr_def)
  have "init_ioapic bus stack s = Some t"
    using d(1) mv unfolding init_ioapic_def base(1) km Let_def prod.case ad s2_def [symmetric] t_def
    by (simp add: ver ver' flip: s3_def)
  moreover have "devs t = d" "unat (max_redir_entries t) = m" using m by (simp_all add: t_def)
  ultimately show ?thesis using d(2) by blast
qed

text \<open>
  A device with 24 entries whose read-only bits are 0, at the usual address, on the booted kernel.
  The first override moves the timer's interrupt to pin 2, active low and level triggered; the
  second is for pin 1, and so out of order.
\<close>

definition sample_bus :: "(u8 \<times> (nat \<Rightarrow> u32)) bus" where
  "sample_bus = \<lparr>bus_read = \<lambda>p (sel, reg). reg (unat sel),
     bus_write = \<lambda>p v (sel, reg). if p = 0xFEC00000 then (ucast v, reg)
       else (sel, reg(unat sel := if even (unat sel) then v AND 0x1AFFF else v AND 0xFF000000))\<rparr>"

definition sample_table :: "u8 \<Rightarrow> ioapic_iso" where
  "sample_table = (\<lambda>_. iso_of (2, replicate 8 0))(0 := iso_of (2, [0, 0, 2, 0, 0, 0, 0xF, 0]), 1 := iso_of (2, [0, 9, 1, 0, 0, 0, 0, 0]))"

definition sample_devices :: "(u8 \<times> (nat \<Rightarrow> u32)) devices" where
  "sample_devices = madt_info.extend (acpi.extend (intr.extend (sample_intr\<lparr>kmem := kmem booted, cr3 := cr3 booted, kernel_directory := 0xC0104000\<rparr>)
     (acpi.fields 0 0 0 0 0 0 0 0 0 0 0 0 0))
     (madt_info.fields 1 (\<lambda>_. 0) 2 sample_table 0 0xFEC00000))
     (devices.fields (0, (\<lambda>_. 0)(1 := 0x170011)) 0 0 0 0 0 0 0 0 0 0 0 0 0 0)"

lemma sample_devices_fields:
  "kmem sample_devices = kmem booted" "cr3 sample_devices = cr3 booted" "kernel_directory sample_devices = 0xC0104000"
  "get_ioapic_addr sample_devices = 0xFEC00000" "gsi_count sample_devices = 0" "devs sample_devices = (0, (\<lambda>_. 0)(1 := 0x170011))"
  "get_iso_entries sample_devices = sample_table"
  by (simp_all add: sample_devices_def intr.defs acpi.defs madt_info.defs devices.defs get_ioapic_addr_def get_iso_entries_def)

lemma booted_directory: "kernel_directory booted = 0xC0104000"
  using booted_mapped by (simp add: mapped_kernel_def kernel_paging_def)

lemma sample_masks:
  "b \<le> 16 \<Longrightarrow> b \<noteq> 12 \<Longrightarrow> b \<noteq> 14 \<Longrightarrow> bit (0x1AFFF :: int) b" "24 \<le> b \<Longrightarrow> b < 32 \<Longrightarrow> bit (0xFF000000 :: int) b"
proof -
  have "\<forall>b\<in>set [0..<17]. b \<noteq> 12 \<longrightarrow> b \<noteq> 14 \<longrightarrow> bit (0x1AFFF :: int) b" by code_simp
  from bspec [OF this, of b] show "b \<le> 16 \<Longrightarrow> b \<noteq> 12 \<Longrightarrow> b \<noteq> 14 \<Longrightarrow> bit (0x1AFFF :: int) b" by simp
  have "\<forall>b\<in>set [24..<32]. bit (0xFF000000 :: int) b" by code_simp
  then have "\<forall>b\<in>{24..<32}. bit (0xFF000000 :: int) b" unfolding set_upt .
  from bspec [OF this, of b] show "24 \<le> b \<Longrightarrow> b < 32 \<Longrightarrow> bit (0xFF000000 :: int) b" by (simp only: atLeastLessThan_iff)
qed

lemma sample_bus_device: "ioapic_device sample_bus 0xFEC00000 24 fst snd"
  by (auto simp: ioapic_device_def sample_bus_def redir_writable_def bit_and_iff sample_masks split: prod.splits if_splits)

lemma sample_entries:
  "iso_gsi (sample_table 0) = 2" "iso_irq_src (sample_table 0) = 0" "iso_flags (sample_table 0) = 0xF"
  "iso_gsi (sample_table 1) = 1" "iso_irq_src (sample_table 1) = 9"
  "j \<noteq> 0 \<Longrightarrow> j \<noteq> 1 \<Longrightarrow> iso_gsi (sample_table j) = 0 \<and> iso_irq_src (sample_table j) = 0"
proof -
  have "replicate 8 (0 :: u8) = [0, 0, 0, 0, 0, 0, 0, 0]" by (simp add: numeral_eq_Suc)
  then show "iso_gsi (sample_table 0) = 2" "iso_irq_src (sample_table 0) = 0" "iso_flags (sample_table 0) = 0xF"
    "iso_gsi (sample_table 1) = 1" "iso_irq_src (sample_table 1) = 9"
    "j \<noteq> 0 \<Longrightarrow> j \<noteq> 1 \<Longrightarrow> iso_gsi (sample_table j) = 0 \<and> iso_irq_src (sample_table j) = 0"
    by (simp_all add: sample_table_def iso_of_def le32_def le16_def)
qed

lemma sample_overrides: "table_holds sample_table 2" "honoured sample_table 2 = 1"
proof -
  have "(of_nat j :: u8) \<noteq> 0 \<and> (of_nat j :: u8) \<noteq> 1" if "j < 256" "2 \<le> j" for j
    using that by (simp add: word_unat_eq_iff unsigned_of_nat take_bit_nat_eq_self)
  then show "table_holds sample_table 2" by (simp add: table_holds_def sample_entries)
  have "[0..<2] = [0, 1 :: nat]" by (simp add: numeral_2_eq_2)
  then show "honoured sample_table 2 = 1" by (simp add: honoured_def sample_entries [unfolded One_nat_def])
qed

theorem init_ioapic_redirects_witness:
  "\<exists>s'. init_ioapic sample_bus (\<lambda>_. (0, 0)) sample_devices = Some s' \<and> unat (max_redir_entries s') = 24 \<and>
    redir_set snd (devs s') 2 32 0 \<and> redir_set snd (devs s') 1 33 0 \<and> redir_set snd (devs s') 9 41 0"
proof -
  have kern: "mapped_kernel 0xC0104000 0xC0106000 0xC0104000 sample_devices" "free_slot 0xC0106000 (kmem sample_devices) \<noteq> None"
    using booted_mapped booted_slot mapped_kernel_cong [of sample_devices booted] by (simp_all add: sample_devices_fields booted_directory)
  have v: "unat (get_field 16 8 (snd (devs sample_devices) 1)) + 1 = 24" by (simp add: sample_devices_fields get_field_def)
  have tab: "table_holds (get_iso_entries sample_devices) 2" using sample_overrides(1) by (simp only: sample_devices_fields)
  have vec: "override_vector sample_table 1 2 = 32" "override_vector sample_table 1 1 = 33" "override_vector sample_table 1 9 = 41"
    by (simp_all add: override_vector_def sample_entries)
  obtain s' where r: "init_ioapic sample_bus (\<lambda>_. (0, 0)) sample_devices = Some s'" "unat (max_redir_entries s') = 24"
    "\<forall>n<24. redir_set snd (devs s') n (override_vector sample_table 1 n) 0"
    using init_ioapic_redirects [OF kern sample_devices_fields(4) _ _ sample_bus_device v _ sample_devices_fields(5) tab, of "\<lambda>_. (0, 0)"]
    by (auto simp: identity_end sample_devices_fields(7) sample_overrides(2))
  have "redir_set snd (devs s') 2 32 0" "redir_set snd (devs s') 1 33 0" "redir_set snd (devs s') 9 41 0"
    using r(3) [rule_format, of 2] r(3) [rule_format, of 1] r(3) [rule_format, of 9] by (simp_all only: vec)
  with r(1,2) show ?thesis by blast
qed

end
