(* ===== verification/Heap_Array.thy ===== *)
theory Heap_Array
  imports Proc_Create
begin

text \<open>
  The ordered array whose storage comes from the kernel heap: \<^verbatim>\<open>init_ordered_array\<close> and
  \<^verbatim>\<open>destroy_ordered_array\<close> of \<^verbatim>\<open>src/kernel/kernel/core/common.c\<close>. The structure holds the pointer to
  the storage; \<open>array_view\<close> is the array of theory \<open>Ordered_Array\<close> that it and the memory make up.
\<close>

section \<open>State and operations\<close>

record heap_array =
  ha_array :: u32
  ha_size :: u32
  ha_max_size :: u32
  ha_predicate :: "u32 \<Rightarrow> u32 \<Rightarrow> bool"

text \<open>
  The result of \<^verbatim>\<open>kmalloc\<close> is not checked: clearing storage at the null pointer is undefined, \<open>None\<close> here.
  The number of bytes is computed in 32 bits.
\<close>

definition init_ordered_array :: "u32 \<Rightarrow> 'a kmm_scheme \<Rightarrow> (heap_array \<times> 'a kmm_scheme) option" where
  "init_ordered_array max_size s =
     do {
       (array, s) \<leftarrow> kmalloc (max_size * 4) s;
       if array = 0 \<and> max_size * 4 \<noteq> 0 then None
       else Some (\<lparr>ha_array = array, ha_size = 0, ha_max_size = max_size, ha_predicate = less_predicate\<rparr>,
              s\<lparr>kmem := memset array 0 (max_size * 4) (kmem s)\<rparr>)
     }"

definition destroy_ordered_array :: "heap_array \<Rightarrow> 'a kmm_scheme \<Rightarrow> 'a kmm_scheme option" where
  "destroy_ordered_array oa s = kfree (ha_array oa) s"

section \<open>The array in memory\<close>

definition array_view :: "mem \<Rightarrow> heap_array \<Rightarrow> ordered_array" where
  "array_view m oa = \<lparr>oa_array = map (\<lambda>i. load32 m (ha_array oa + 4 * of_nat i)) [0..<unat (ha_max_size oa)],
     oa_size = ha_size oa, oa_max_size = ha_max_size oa, oa_predicate = ha_predicate oa\<rparr>"

lemma array_bytes:
  fixes max_size :: u32
  assumes "unat max_size \<le> 0x3FFFFFFC" "max_size \<noteq> 0"
  shows "unat (max_size * 4) = 4 * unat max_size" "max_size * 4 = of_nat (4 * unat max_size)" "max_size * 4 \<noteq> 0"
    "4 * unat max_size \<le> 0xFFFFFFF0" "0 < 4 * unat max_size" "4 * unat max_size < 2 ^ 32"
proof -
  have "unat max_size * unat (4 :: u32) < 2 ^ 32" using assms(1) by simp
  then have "unat (max_size * 4) = unat max_size * unat (4 :: u32)" by (rule unat_mult_u32)
  then show u: "unat (max_size * 4) = 4 * unat max_size" by simp
  show "max_size * 4 = of_nat (4 * unat max_size)" unfolding u [symmetric] by simp
  have "0 < unat max_size" using assms(2) by (simp add: unat_gt_0)
  then show "0 < 4 * unat max_size" by simp
  then show "max_size * 4 \<noteq> 0" using u by auto
  show "4 * unat max_size \<le> 0xFFFFFFF0" "4 * unat max_size < 2 ^ 32" using assms(1) by simp_all
qed

lemma cleared_view:
  assumes "\<forall>i<unat max_size. word_at m (p + 4 * i) = 0"
  shows "oa_inv (array_view m \<lparr>ha_array = of_nat p, ha_size = 0, ha_max_size = max_size, ha_predicate = less_predicate\<rparr>)"
    "oa_list (array_view m \<lparr>ha_array = of_nat p, ha_size = 0, ha_max_size = max_size, ha_predicate = less_predicate\<rparr>) = []"
    "oa_array (array_view m \<lparr>ha_array = of_nat p, ha_size = 0, ha_max_size = max_size, ha_predicate = less_predicate\<rparr>) = replicate (unat max_size) 0"
proof -
  show "oa_array (array_view m \<lparr>ha_array = of_nat p, ha_size = 0, ha_max_size = max_size, ha_predicate = less_predicate\<rparr>) = replicate (unat max_size) 0"
    using assms by (auto simp: array_view_def word_at_def intro: nth_equalityI)
qed (simp_all add: array_view_def oa_inv_def oa_list_def)

lemma init_ordered_array_room:
  assumes "heap_inv s a bs" "max_size \<noteq> 0" "unat max_size \<le> 0x3FFFFFFC" "length bs < 4096" "fit_ok (round16 (4 * unat max_size)) bs"
    and "spec_alloc (round16 (4 * unat max_size)) a bs = Some (p, bs')"
  obtains s' where "init_ordered_array max_size s =
      Some (\<lparr>ha_array = of_nat p, ha_size = 0, ha_max_size = max_size, ha_predicate = less_predicate\<rparr>, s')"
    "heap_inv s' a bs'" "agree (heap_gaps a bs) (kmem s) (kmem s')" "\<forall>i<unat max_size. word_at (kmem s') (p + 4 * i) = 0"
proof -
  let ?n = "4 * unat max_size"
  note ab = array_bytes [OF assms(3,2)]
  obtain t n where t: "kmalloc (max_size * 4) s = Some (of_nat p, t)" "heap_only s t" "heap_inv t a bs'"
    "agree (heap_gaps a bs) (kmem s) (kmem t)" "?n \<le> n" "16 dvd p" "a + 16 \<le> p" "p + n + 16 \<le> block_end a bs"
    "{p..<p + n} \<inter> used_payload a bs = {}" "used_payload a bs' = used_payload a bs \<union> {p..<p + n}" "block_end a bs' = block_end a bs"
    using kmalloc_room [of s a bs "max_size * 4" p bs', unfolded ab(1), OF assms(1) ab(3,4) assms(4-6)] .
  have e: "block_end a bs < 2 ^ 32" using assms(1) by (simp add: heap_inv_def)
  then have p: "p + ?n \<le> 2 ^ 32" "0 < p" "p < 2 ^ 32" using t(5,7,8) by simp_all
  have d: "4 dvd p" using t(6) by (rule dvd_trans [rotated]) simp
  have q: "of_nat p \<noteq> (0 :: u32)" using p(2) unat_of_nat_u32 [OF p(3)] by auto
  define u where "u = t\<lparr>kmem := memset (of_nat p) 0 (of_nat ?n) (kmem t)\<rparr>"
  have w: "word_at (kmem u) w = (if p \<le> w \<and> w < p + ?n then 0 else word_at (kmem t) w)" if "4 dvd w" "w < 2 ^ 32" for w
    unfolding u_def using word_at_clear [OF d _ p(1) ab(5,6) that, of "kmem t"] by simp
  then have ag: "agree {p..<p + ?n} (kmem t) (kmem u)" by (simp add: agree_def)
  show ?thesis
  proof (rule that [of u])
    show "init_ordered_array max_size s =
      Some (\<lparr>ha_array = of_nat p, ha_size = 0, ha_max_size = max_size, ha_predicate = less_predicate\<rparr>, u)"
      using t(1) q by (simp add: init_ordered_array_def u_def ab(2))
    have "{p..<p + ?n} \<inter> {a..<block_end a bs'} \<subseteq> used_payload a bs'" unfolding t(10) using t(5) by auto
    then show "heap_inv u a bs'" by (intro heap_inv_agree [OF t(3) ag]) (simp_all add: u_def)
    have "{p..<p + ?n} \<subseteq> {p..<p + n}" using t(5) by simp
    moreover have "{p..<p + n} \<subseteq> heap_gaps a bs" unfolding heap_gaps_def using t(7-9) by fastforce
    ultimately have "{p..<p + ?n} \<subseteq> heap_gaps a bs" by (rule order_trans)
    then show "agree (heap_gaps a bs) (kmem s) (kmem u)" using agree_trans [OF t(4) ag] by (simp add: Un_absorb2)
    show "\<forall>i<unat max_size. word_at (kmem u) (p + 4 * i) = 0" using w p(1) d by simp
  qed
qed

text \<open>
  C34: On a well-formed, coalesced heap \<^verbatim>\<open>init_ordered_array\<close> with room for \<open>max_size\<close> slots gives an empty ordered
  array with cleared storage in a fresh block; memory in use and outside the heap is as before, and
  \<^verbatim>\<open>destroy_ordered_array\<close> returns the heap to the blocks it had. Without room the storage is written
  through the null pointer.
\<close>

theorem init_destroy_ordered_array:
  assumes "heap_inv s a bs" "coalesced bs" "max_size \<noteq> 0" "unat max_size \<le> 0x3FFFFFFC" "length bs < 4096"
    and "fit_ok (round16 (4 * unat max_size)) bs"
  shows "case spec_alloc (round16 (4 * unat max_size)) a bs of
      None \<Rightarrow> init_ordered_array max_size s = None
    | Some (p, bs') \<Rightarrow> (\<exists>oa s' s''. init_ordered_array max_size s = Some (oa, s') \<and> ha_array oa = of_nat p \<and> ha_max_size oa = max_size \<and>
        oa_inv (array_view (kmem s') oa) \<and> oa_list (array_view (kmem s') oa) = [] \<and>
        oa_array (array_view (kmem s') oa) = replicate (unat max_size) 0 \<and>
        heap_inv s' a bs' \<and> agree (heap_gaps a bs) (kmem s) (kmem s') \<and>
        destroy_ordered_array oa s' = Some s'' \<and> heap_inv s'' a bs)"
proof (cases "spec_alloc (round16 (4 * unat max_size)) a bs")
  case None
  note ab = array_bytes [OF assms(4,3)]
  have "of_nat (round16 (4 * unat max_size)) = (of_nat (round16 (unat (max_size * 4))) :: u32)" by (simp add: ab(1))
  from alloc_spec [OF assms(1) ab(3) assms(6) this round16_less(2,1) [OF ab(4)] assms(5)] None
  have "kmalloc (max_size * 4) s = Some (0, s)" by (simp add: kmalloc_def)
  then show ?thesis using None ab(3) by (simp add: init_ordered_array_def)
next
  case (Some pb)
  obtain p bs' where pb: "pb = (p, bs')" by fastforce
  let ?oa = "\<lparr>ha_array = of_nat p, ha_size = 0, ha_max_size = max_size, ha_predicate = less_predicate\<rparr>"
  obtain s' where s': "init_ordered_array max_size s = Some (?oa, s')" "heap_inv s' a bs'" "agree (heap_gaps a bs) (kmem s) (kmem s')"
    "\<forall>i<unat max_size. word_at (kmem s') (p + 4 * i) = 0"
    using init_ordered_array_room [OF assms(1,3-6) Some [unfolded pb]] .
  obtain xs n ys where xs: "bs' = xs @ (n, True) # ys" "p = block_end a xs + 16" "spec_free xs n ys = bs"
    using spec_alloc_free [OF Some [unfolded pb] assms(2)] by blast
  obtain s'' where "destroy_ordered_array ?oa s' = Some s''" "heap_inv s'' a bs"
    using free_spec [of s' a xs n True ys] s'(2) xs by (auto simp: destroy_ordered_array_def kfree_def)
  then show ?thesis using s'(1-3) cleared_view [OF s'(4)] Some pb
    by (auto intro!: exI [of _ ?oa] exI [of _ s'] exI [of _ s''])
qed

theorem init_destroy_ordered_array_witness:
  "\<exists>oa s' s''. init_ordered_array 16 sample_kernel = Some (oa, s') \<and> ha_array oa = 0xC04000A0 \<and> ha_max_size oa = 16 \<and>
     oa_inv (array_view (kmem s') oa) \<and> oa_list (array_view (kmem s') oa) = [] \<and>
     oa_array (array_view (kmem s') oa) = replicate 16 0 \<and>
     heap_inv s' 0xC0400000 [(112, True), (64, True), (65184, False)] \<and> agree (heap_gaps 0xC0400000 sample_heap) (kmem sample_kernel) (kmem s') \<and>
     destroy_ordered_array oa s' = Some s'' \<and> heap_inv s'' 0xC0400000 sample_heap"
proof -
  have r: "round16 (4 * unat (16 :: u32)) = 64" by (simp add: round16_def)
  have b: "coalesced sample_heap" "(16 :: u32) \<noteq> 0" "unat (16 :: u32) \<le> 0x3FFFFFFC" "length sample_heap < 4096" "fit_ok 64 sample_heap"
    "spec_alloc 64 0xC0400000 sample_heap = Some (0xC04000A0, [(112, True), (64, True), (65184, False)])"
    by (simp_all add: sample_heap_def)
  have u: "unat (16 :: u32) = 16" "of_nat 0xC04000A0 = (0xC04000A0 :: u32)" by simp_all
  show ?thesis using init_destroy_ordered_array [OF sample_kernel_heap b(1-4), unfolded r, OF b(5)]
    unfolding b(6) option.case prod.case u .
qed

end
