(* ===== verification/Spec2Isabelle.thy ===== *)
theory Spec2Isabelle
  imports Demo Devices_Props Heap_Array
begin

text \<open>
  A verification library for BrownieOS, a 32-bit x86 kernel in C (\<^verbatim>\<open>src/kernel\<close>) with its own C
  library (\<^verbatim>\<open>src/libc\<close>). The C functions are HOL functions with the same names over an explicit
  machine state.

  \<^bold>\<open>The program.\<close> The boot loader enters \<^verbatim>\<open>kmain\<close>, which sets up the terminal, the segments, the
  interrupt table, paging, the heap, the timer, the process table, the scheduler and the system
  calls, creates processes and enters user mode. From then on the kernel runs in interrupt
  handlers: a timer tick in user mode may save the interrupted context and load that of another
  process, and vector 128 is the system call. Almost every component writes to the terminal, the
  heap and the page tables take frames from the frame allocator, and processes lie in heap memory
  and own page tables in frames.

  \<^bold>\<open>The state.\<close> It is one record that grows along the import chain, as the globals of the kernel do:
  \<open>tty\<close> (cursor, colour, VGA buffer), \<open>pmm\<close> (frame bitmap), \<open>kmm\<close> (memory, heap and its two ordered
  arrays), \<open>vmm\<close> (handler table, kernel directory, \<^verbatim>\<open>cr3\<close>), \<open>machine\<close> (descriptor tables, task state,
  the log of port output), \<open>procs\<close> (process table), \<open>sysc\<close> (system call table), \<open>intr\<close> (ticks and
  acknowledgements), \<open>acpi\<close> (pointers to the firmware tables), \<open>madt_info\<close> (processors and interrupt
  overrides) and \<open>devices\<close> (variables of the APIC and HPET drivers, device state). An operation is defined on the scheme of the smallest record it needs, so each
  later component can call it.

  \<^bold>\<open>Theories.\<close>

  \<^item> \<open>Prelude\<close>: the C integer types as words, facts on words, lists and loops.
  \<^item> \<open>Tty\<close>: \<^verbatim>\<open>drivers/tty.c\<close>. The buffer and cursor implement an abstract screen of 25 rows; the
    locale \<open>console\<close>, extended by \<open>refined_console\<close>, lifts what one character does to strings.
  \<^item> \<open>Cmem\<close>: byte memory and \<^verbatim>\<open>libc/string\<close>. Copies, also overlapping ones, comparisons and lengths.
  \<^item> \<open>Printf\<close>: \<^verbatim>\<open>libc/stdio\<close>. Number formatting against positional notation, \<^verbatim>\<open>vprintf\<close> against the meaning of
    the conversions in C, from which it departs for negative numbers, and the bounds of \<^verbatim>\<open>vsnprintf\<close>.
  \<^item> \<open>Ordered_Array\<close>: the sorted array of \<^verbatim>\<open>core/common.c\<close>, with the locale \<open>sorted_store\<close>.
  \<^item> \<open>Common\<close>: \<^verbatim>\<open>panic\<close> and the printing helpers of \<^verbatim>\<open>core/common.c\<close>, and the interrupt frame of \<^verbatim>\<open>isr.h\<close>.
  \<^item> \<open>Frames\<close>: the frame allocator of \<^verbatim>\<open>mm/paging.c\<close> and the memory map of \<^verbatim>\<open>multiboot.h\<close>. First fit,
    disjointness (locale \<open>frame_source\<close>), release, and the failures of high memory.
  \<^item> \<open>Kheap\<close>, \<open>Kheap_Refine\<close>, \<open>Kheap_Props\<close>: the heap of \<^verbatim>\<open>mm/kmm.c\<close>. Boundary tags in byte memory and two
    sorted arrays implement a list of blocks with first fit, splitting and coalescing.
  \<^item> \<open>Paging\<close>, \<open>Paging_Window\<close>, \<open>Paging_Props\<close>: the page tables of \<^verbatim>\<open>mm/paging.c\<close> and \<^verbatim>\<open>mm/vmm.c\<close>, the
    processor's translation, the kernel window, temporary mappings (locale \<open>temp_map\<close>).
  \<^item> \<open>Machine\<close>: \<^verbatim>\<open>core/gdt.c\<close>, \<^verbatim>\<open>core/tss.c\<close>, \<^verbatim>\<open>core/interrupts/idt.c\<close>.
  \<^item> \<open>Proc\<close>: \<^verbatim>\<open>proc/proc.c\<close>. Process structures in byte memory, user mappings, creation, contexts.
  \<^item> \<open>Proc_Maps\<close>: what a user address translates to, as a finite map from pages to frames, and that
    \<^verbatim>\<open>proc_map_pages\<close> updates this map and nothing else.
  \<^item> \<open>Proc_Create\<close>: \<^verbatim>\<open>create_proc\<close> as the composition of heap, frames, page tables and process table, with
    the invariant \<open>kernel_mem\<close> of the memory that they share.
  \<^item> \<open>Heap_Array\<close>: the ordered array with storage on the heap, \<^verbatim>\<open>init_ordered_array\<close> and
    \<^verbatim>\<open>destroy_ordered_array\<close> of \<^verbatim>\<open>core/common.c\<close>, as an array of \<open>Ordered_Array\<close> in memory.
  \<^item> \<open>Scheduler\<close>: \<^verbatim>\<open>proc/scheduler.c\<close>. The invariant of the process table, round robin as an
    equivalence, a preemption as a refinement, fairness.
  \<^item> \<open>Syscall\<close>: \<^verbatim>\<open>core/syscall.c\<close>. The check of user addresses against the processor's, safety of
    the string copy, dispatch.
  \<^item> \<open>Interrupts\<close>: \<^verbatim>\<open>core/interrupts/isr.c\<close> and the handlers of \<^verbatim>\<open>drivers/pit.c\<close> and \<^verbatim>\<open>drivers/hpet.c\<close>. The
    step relation of the handlers, its invariant, acknowledgement and fairness of the timer.
  \<^item> \<open>Acpi\<close>, \<open>Madt\<close>: \<^verbatim>\<open>core/acpi.c\<close> and \<^verbatim>\<open>core/madt.c\<close>. The search for the root pointer, checksums, the loading
    of tables into the heap, and the record loop against the list of records it walks.
  \<^item> \<open>Kernel\<close>: \<^verbatim>\<open>core/kernel.c\<close>. The demo processes with the programs written for them, and \<^verbatim>\<open>kmain\<close>, which
    composes the components in the order of the boot.
  \<^item> \<open>User_Pages\<close>, \<open>User_Proc\<close>: \<^verbatim>\<open>make_user_proc_with_message\<close> of \<^verbatim>\<open>core/kernel.c\<close>, through two temporary mappings, the
    creation of the process and two user mappings: what user code reads at the code and data pages is
    the program and the message.
  \<^item> \<open>Demo\<close>: \<^verbatim>\<open>kernel_three_process_test\<close>, how much memory it needs, that its processes share no frame and
    keep each other's memory, the entry to user mode, and the system call that prints the message.
  \<^item> \<open>Devices\<close>, \<open>Devices_Props\<close>: \<^verbatim>\<open>core/interrupts/apic.c\<close>, \<^verbatim>\<open>ioapic.c\<close> and the initialisation of \<^verbatim>\<open>drivers/hpet.c\<close>.
    The redirection table after \<^verbatim>\<open>init_ioapic\<close>, for a device that behaves as documented, and which of the overrides
    it honours.

  \<^bold>\<open>Locales.\<close> Each is interpreted on the definitions of the theory that holds it: \<open>refined_console\<close> on
  \<open>terminal_putchar\<close>, \<open>sorted_store\<close> on the ordered array, \<open>frame_source\<close> on \<open>alloc_pages\<close>, \<open>temp_map\<close> on
  \<open>kmap\<close> and \<open>kunmap\<close>.

  \<^bold>\<open>Partiality.\<close> Counting loops are folds or structural recursions. \<open>reserve_loop\<close> and the digit and
  array loops are functions with a termination measure. The search loop of \<open>alloc_pages\<close> may run
  forever (it does, with high memory and no free frame), so it returns an option and the
  theorems say when it returns. So do the loop of the table checksum, which counts with eight bits,
  and the record loop of \<^verbatim>\<open>parse_madt\<close>, which stays at a record of an unknown type. \<open>None\<close> of other operations is a page fault or an access outside
  an object, where C defines no result. \<^verbatim>\<open>panic\<close> is the outcome \<open>Halted\<close>.

  \<^bold>\<open>Conventions.\<close> Memory is indexed by the kernel address \<open>KP2V p\<close> of each physical address \<open>p\<close>, so the
  bytes of high memory are there too. Translations are made from the tables at each access: there
  is no TLB. Addresses that the linker chooses (the kernel directory and its tables, the stubs of
  the interrupt table) are arguments, with the linker script's guarantees as hypotheses where they
  matter. The quotients of doubles in the PIT and HPET drivers are the integers they truncate to.
  Devices behind memory-mapped registers are a parameter: a \<open>bus\<close> says what a read gives and what a
  write does. Unspecified contents (fresh heap memory) are those of the memory before, those of an
  uninitialised local variable an argument.

  \<^bold>\<open>Not modelled.\<close> Assembly (\<^verbatim>\<open>crt0.S\<close>, the interrupt stubs, \<^verbatim>\<open>enter_user.S\<close>) is covered only by what it
  exchanges with C: the interrupt frame, and the words that \<^verbatim>\<open>iret\<close> pops. Instructions of user programs
  are bytes in memory and are not executed. Port input and the reads of \<^verbatim>\<open>cpuid\<close> and of the flags are
  arguments, since the values come from the processor.
\<close>

end
